(* ===== verification/Feed_Prelude.thy ===== *)
theory Feed_Prelude
  imports Main "HOL-Library.Word"
begin

text \<open>
  Shared vocabulary of the development: the machine types of the C++ code, byte
  sequences and their slices, throwing statements as state transformers, and the
  collections of rewrite rules that the component theories fill and use.
\<close>

section \<open>Machine types\<close>

text \<open>
  The code is built for x86-64 Linux (\<open>benchmark.hpp\<close> refuses anything without a TSC), so
  \<open>std::size_t\<close> has 64 bits and the host is little endian. A \<open>char\<close> of the wire format is a
  byte.
\<close>

type_synonym u8 = "8 word"
type_synonym u16 = "16 word"
type_synonym u32 = "32 word"
type_synonym u64 = "64 word"

type_synonym bytes = "u8 list"

named_theorems wire_simps "sizes, images and decoders of the packed structs"
named_theorems map_simps "lookups and invariants of ordered maps"
named_theorems book_simps "frame and lookup facts of the order book operations"
named_theorems feed_simps "frame facts of the feed handler operations"

lemma unat_u32_bound: "unat (w :: u32) < 4294967296"
  using unsigned_less [of w] by simp

lemma unat_u16_bound: "unat (w :: u16) < 65536"
  using unsigned_less [of w] by simp

lemma unat_of_nat_u16: "n < 65536 \<Longrightarrow> unat (of_nat n :: u16) = n"
  by (simp add: unat_of_nat)

lemma unat_of_nat_u32: "n < 4294967296 \<Longrightarrow> unat (of_nat n :: u32) = n"
  by (simp add: unat_of_nat)

lemma word_eq_iff_unat: "a = b \<longleftrightarrow> unat a = unat (b :: 'a::len word)"
  by (simp add: word_unat_eq_iff)

section \<open>Slices of byte sequences\<close>

text \<open>\<open>std::span::subspan(offset, count)\<close> and the reads of a packed struct's field.\<close>

definition subspan :: "nat \<Rightarrow> nat \<Rightarrow> 'a list \<Rightarrow> 'a list" where
  "subspan offset count xs = take count (drop offset xs)"

text \<open>\<open>std::memcpy(buffer + offset, data, size)\<close> into a buffer that is long enough.\<close>

definition overwrite :: "nat \<Rightarrow> 'a list \<Rightarrow> 'a list \<Rightarrow> 'a list" where
  "overwrite offset data buffer =
     take offset buffer @ data @ drop (offset + length data) buffer"

lemma length_subspan [simp]: "length (subspan off n xs) = min n (length xs - off)"
  by (simp add: subspan_def)

lemma subspan_append_left:
  "off + n \<le> length xs \<Longrightarrow> subspan off n (xs @ ys) = subspan off n xs"
  by (simp add: subspan_def)

lemma subspan_append_right:
  "length xs \<le> off \<Longrightarrow> subspan off n (xs @ ys) = subspan (off - length xs) n ys"
  by (simp add: subspan_def)

lemma subspan_Cons: "0 < off \<Longrightarrow> subspan off n (x # xs) = subspan (off - 1) n xs"
  by (simp add: subspan_def drop_Cons')

lemma subspan_Cons_0: "0 < n \<Longrightarrow> subspan 0 n (x # xs) = x # subspan 0 (n - 1) xs"
  by (simp add: subspan_def take_Cons')

lemma subspan_0_0 [simp]: "subspan off 0 xs = []"
  by (simp add: subspan_def)

lemma subspan_all: "length xs = n \<Longrightarrow> subspan 0 n xs = xs"
  by (simp add: subspan_def)

lemma subspan_split: "subspan off (m + n) xs = subspan off m xs @ subspan (off + m) n xs"
  by (simp add: subspan_def take_add add.commute)

lemma length_overwrite:
  "off + length data \<le> length buf \<Longrightarrow> length (overwrite off data buf) = length buf"
  by (simp add: overwrite_def)

lemma overwrite_append:
  "overwrite (length xs) data (xs @ buf) = xs @ data @ drop (length data) buf"
  by (simp add: overwrite_def)

lemma concat_subspans:
  "length xs = n * k \<Longrightarrow> concat (map (\<lambda>i. subspan (i * k) k xs) [0..<n]) = xs"
proof (induction n arbitrary: xs)
  case 0
  then show ?case by simp
next
  case (Suc n)
  have tail: "length (drop k xs) = n * k"
    using Suc.prems by simp
  have "concat (map (\<lambda>i. subspan (i * k) k xs) [0..<Suc n]) =
      subspan 0 k xs @ concat (map (\<lambda>i. subspan (i * k) k (drop k xs)) [0..<n])"
    by (simp add: upt_conv_Cons map_Suc_upt [symmetric] o_def subspan_def add.commute
        del: upt_Suc)
  then show ?case
    using Suc.IH [OF tail] by (simp add: subspan_def)
qed

section \<open>Throwing statements\<close>

text \<open>
  Every exception of the program is a \<open>std::runtime_error\<close>. \<open>socket_error(action)\<close> appends the
  system's text for \<open>errno\<close> to its action; the exception keeps the two apart.
  A statement that may throw, wait forever for the kernel, or be ended with its process by a signal
  maps a state to an outcome: how it stops short, if it does, and the state it leaves. \<open>and_then\<close> is the semicolon: a statement
  that stops short skips what follows.
\<close>

datatype errno = EINTR | EAGAIN | EWOULDBLOCK | EPIPE | Errno nat

datatype exn = Runtime_error string | Socket_error string errno

datatype halt = Throws exn | Blocks | Killed

type_synonym 's outcome = "halt option \<times> 's"

definition throw :: "string \<Rightarrow> 's \<Rightarrow> 's outcome" where
  "throw message s = (Some (Throws (Runtime_error message)), s)"

fun and_then :: "'s outcome \<Rightarrow> ('s \<Rightarrow> 's outcome) \<Rightarrow> 's outcome" where
  "and_then (Some h, s) k = (Some h, s)"
| "and_then (None, s) k = k s"

lemma and_then_cong: "r = r' \<Longrightarrow> (\<And>s. r' = (None, s) \<Longrightarrow> k s = k' s) \<Longrightarrow> and_then r k = and_then r' k'"
  by (cases r'; cases "fst r'") auto

lemma and_then_None_iff:
  "and_then r k = (None, t) \<longleftrightarrow> (\<exists>s. r = (None, s) \<and> k s = (None, t))"
  by (cases r; cases "fst r") auto

lemma and_then_assoc: "and_then (and_then r k) l = and_then r (\<lambda>s. and_then (k s) l)"
  by (cases r; cases "fst r") auto

lemma and_then_case:
  "and_then r k = (case fst r of None \<Rightarrow> k (snd r) | Some h \<Rightarrow> r)"
  by (cases r; cases "fst r") auto

lemma and_then_state:
  "P (snd r) \<Longrightarrow> (\<And>s. r = (None, s) \<Longrightarrow> P (snd (k s))) \<Longrightarrow> P (snd (and_then r k))"
  by (cases r; cases "fst r") auto

lemma throw_not_None [simp]: "throw m s \<noteq> (None, t)" "snd (throw m s) = s"
  by (simp_all add: throw_def)

section \<open>Throwing computations with a value\<close>

text \<open>Sequencing of a throwing computation that returns a value.\<close>

type_synonym ('a, 's) result = "(halt + 'a) \<times> 's"

fun on_result :: "('a, 's) result \<Rightarrow> ('a \<Rightarrow> 's \<Rightarrow> ('b, 's) result) \<Rightarrow> ('b, 's) result" where
  "on_result (Inl h, s) k = (Inl h, s)"
| "on_result (Inr x, s) k = k x s"

text \<open>A statement before a computation that returns a value.\<close>

fun after :: "'s outcome \<Rightarrow> ('s \<Rightarrow> ('b, 's) result) \<Rightarrow> ('b, 's) result" where
  "after (Some h, s) k = (Inl h, s)"
| "after (None, s) k = k s"

definition fail :: "string \<Rightarrow> 's \<Rightarrow> ('a, 's) result" where
  "fail message s = (Inl (Throws (Runtime_error message)), s)"

end
