(* ===== verification/Byte_Order.thy ===== *)
theory Byte_Order
  imports Feed_Prelude
begin

unbundle bit_operations_syntax

text \<open>
  Memory images of unsigned integers on the little endian host, and the byte swaps of
  \<open>protocol.cpp\<close>: \<open>htonl\<close>, \<open>htons\<close> and \<open>__builtin_bswap64\<close>.
\<close>

section \<open>Little endian images\<close>

fun le_bytes :: "nat \<Rightarrow> 'a::len word \<Rightarrow> bytes" where
  "le_bytes 0 w = []"
| "le_bytes (Suc n) w = ucast w # le_bytes n (drop_bit 8 w)"

fun le_word :: "bytes \<Rightarrow> 'a::len word" where
  "le_word [] = 0"
| "le_word (b # bs) = ucast b OR push_bit 8 (le_word bs)"

text \<open>The big endian image, the order of the network.\<close>

definition be_bytes :: "nat \<Rightarrow> 'a::len word \<Rightarrow> bytes" where
  "be_bytes n w = rev (le_bytes n w)"

lemma length_le_bytes [simp]: "length (le_bytes n w) = n"
  by (induction n w rule: le_bytes.induct) auto

lemma length_be_bytes [simp]: "length (be_bytes n w) = n"
  by (simp add: be_bytes_def)

lemma nth_le_bytes: "i < n \<Longrightarrow> le_bytes n w ! i = ucast (drop_bit (8 * i) w)"
proof (induction n w arbitrary: i rule: le_bytes.induct)
  case (1 w)
  then show ?case by simp
next
  case (2 n w)
  then show ?case by (cases i) (auto simp: drop_bit_drop_bit algebra_simps)
qed

lemma bit_le_word:
  "bit (le_word bs :: 'a::len word) n \<longleftrightarrow>
     n < LENGTH('a) \<and> n < 8 * length bs \<and> bit (bs ! (n div 8)) (n mod 8)"
proof (induction bs arbitrary: n)
  case Nil
  then show ?case by simp
next
  case (Cons b bs)
  show ?case
  proof (cases "n < 8")
    case True
    then show ?thesis
      by (auto simp: bit_or_iff bit_ucast_iff bit_push_bit_iff)
  next
    case False
    then have "n div 8 = Suc ((n - 8) div 8)" "n mod 8 = (n - 8) mod 8"
      by (simp_all add: le_div_geq le_mod_geq)
    with False show ?thesis
      by (auto simp: bit_or_iff bit_ucast_iff bit_push_bit_iff Cons.IH dest: bit_imp_le_length)
  qed
qed

lemma le_word_bytes [simp]:
  "LENGTH('a) = 8 * n \<Longrightarrow> le_word (le_bytes n (w :: 'a::len word)) = w"
  by (rule bit_word_eqI)
    (auto simp: bit_le_word nth_le_bytes bit_ucast_iff bit_drop_bit_eq
      less_mult_imp_div_less mult.commute)

lemma le_bytes_word [simp]:
  "length bs = n \<Longrightarrow> LENGTH('a) = 8 * n \<Longrightarrow> le_bytes n (le_word bs :: 'a::len word) = bs"
  by (rule nth_equalityI)
    (auto simp: nth_le_bytes bit_le_word bit_ucast_iff bit_drop_bit_eq intro!: bit_word_eqI)

section \<open>Byte swaps\<close>

definition bswap :: "nat \<Rightarrow> 'a::len word \<Rightarrow> 'a word" where
  "bswap n w = le_word (rev (le_bytes n w))"

text \<open>\<open>arpa/inet.h\<close> on a little endian host.\<close>

definition htons :: "u16 \<Rightarrow> u16" where "htons = bswap 2"
definition ntohs :: "u16 \<Rightarrow> u16" where "ntohs = bswap 2"
definition htonl :: "u32 \<Rightarrow> u32" where "htonl = bswap 4"
definition ntohl :: "u32 \<Rightarrow> u32" where "ntohl = bswap 4"

text \<open>The helpers of \<open>protocol.cpp\<close>, on their little endian branch.\<close>

definition host_to_network_u64 :: "u64 \<Rightarrow> u64" where
  "host_to_network_u64 value = bswap 8 value"

definition network_to_host_u64 :: "u64 \<Rightarrow> u64" where
  "network_to_host_u64 value = bswap 8 value"

lemma le_bytes_bswap:
  "LENGTH('a) = 8 * n \<Longrightarrow> le_bytes n (bswap n (w :: 'a::len word)) = be_bytes n w"
  by (simp add: bswap_def be_bytes_def)

lemma bswap_bswap: "LENGTH('a) = 8 * n \<Longrightarrow> bswap n (bswap n (w :: 'a::len word)) = w"
  by (simp add: bswap_def)

lemma ntohs_htons [wire_simps]: "ntohs (htons w) = w"
  by (simp add: ntohs_def htons_def bswap_bswap)

lemma ntohl_htonl [wire_simps]: "ntohl (htonl w) = w"
  by (simp add: ntohl_def htonl_def bswap_bswap)

lemma htons_ntohs [wire_simps]: "htons (ntohs w) = w"
  by (simp add: ntohs_def htons_def bswap_bswap)

lemma htonl_ntohl [wire_simps]: "htonl (ntohl w) = w"
  by (simp add: ntohl_def htonl_def bswap_bswap)

lemma network_to_host_host_to_network [wire_simps]:
  "network_to_host_u64 (host_to_network_u64 w) = w"
  by (simp add: network_to_host_u64_def host_to_network_u64_def bswap_bswap)

lemma host_to_network_network_to_host [wire_simps]:
  "host_to_network_u64 (network_to_host_u64 w) = w"
  by (simp add: network_to_host_u64_def host_to_network_u64_def bswap_bswap)

lemma le_bytes_network [wire_simps]:
  "le_bytes 2 (htons c) = be_bytes 2 c"
  "le_bytes 4 (htonl v) = be_bytes 4 v"
  "le_bytes 8 (host_to_network_u64 x) = be_bytes 8 x"
  by (simp_all add: htons_def htonl_def host_to_network_u64_def le_bytes_bswap)

end
