(* ===== verification/Decimal_Text.thy ===== *)
theory Decimal_Text
  imports Feed_Prelude "HOL-Library.Char_ord"
begin

text \<open>
  Decimal text, as the standard library reads and writes it: \<open>std::ostream\<close> and
  \<open>std::to_string\<close> print an unsigned integer, \<open>std::from_chars\<close> reads one. The template
  \<open>parse_unsigned\<close> of both programs is built on the latter.
\<close>

section \<open>Printing\<close>

definition digit_char :: "nat \<Rightarrow> char" where
  "digit_char d = char_of (48 + d)"

fun show_dec :: "nat \<Rightarrow> string" where
  "show_dec n =
     (if n < 10 then [digit_char n] else show_dec (n div 10) @ [digit_char (n mod 10)])"

declare show_dec.simps [simp del]

abbreviation show_word :: "'a::len word \<Rightarrow> string" where
  "show_word w \<equiv> show_dec (unat w)"

section \<open>Reading\<close>

definition is_digit :: "char \<Rightarrow> bool" where
  "is_digit c \<longleftrightarrow> 48 \<le> (of_char c :: nat) \<and> (of_char c :: nat) \<le> 57"

definition digit_value :: "char \<Rightarrow> nat" where
  "digit_value c = of_char c - 48"

definition digits_value :: "string \<Rightarrow> nat" where
  "digits_value = foldl (\<lambda>v c. 10 * v + digit_value c) 0"

datatype errc = Invalid_argument | Result_out_of_range

text \<open>
  \<open>std::from_chars(begin, end, value)\<close> in base 10 for an unsigned type with maximum \<open>m\<close>: no
  sign and no leading blanks; it consumes the longest run of digits and returns the rest of
  the text as its pointer.
\<close>

definition from_chars :: "nat \<Rightarrow> string \<Rightarrow> (errc + nat) \<times> string" where
  "from_chars m text =
     (let ds = takeWhile is_digit text; rest = dropWhile is_digit text
      in if ds = [] then (Inl Invalid_argument, text)
         else if digits_value ds > m then (Inl Result_out_of_range, rest)
         else (Inr (digits_value ds), rest))"

text \<open>The template \<open>parse_unsigned<Integer>\<close> of both \<open>main.cpp\<close> files.\<close>

definition parse_unsigned :: "string \<Rightarrow> string \<Rightarrow> exn + 'a::len word" where
  "parse_unsigned text flag_name =
     (case from_chars (2 ^ LENGTH('a) - 1) text of
        (Inl error_code, pointer) \<Rightarrow> Inl (Runtime_error (''invalid numeric value for '' @ flag_name))
      | (Inr value, pointer) \<Rightarrow>
          if pointer \<noteq> [] then Inl (Runtime_error (''invalid numeric value for '' @ flag_name))
          else Inr (of_nat value))"

section \<open>Facts\<close>

lemma of_char_digit_char: "d < 10 \<Longrightarrow> of_char (digit_char d) = 48 + d"
  by (simp add: digit_char_def)

lemma is_digit_digit_char [simp]: "d < 10 \<Longrightarrow> is_digit (digit_char d)"
  by (simp add: is_digit_def of_char_digit_char)

lemma digit_value_digit_char [simp]: "d < 10 \<Longrightarrow> digit_value (digit_char d) = d"
  by (simp add: digit_value_def of_char_digit_char)

lemma digits_value_simps [simp]:
  "digits_value [] = 0"
  "digits_value (ds @ [c]) = 10 * digits_value ds + digit_value c"
  by (simp_all add: digits_value_def)

lemma show_dec_ne: "show_dec n \<noteq> []"
  by (subst show_dec.simps) simp

lemma show_dec_digits: "list_all is_digit (show_dec n)"
proof (induction n rule: show_dec.induct)
  case (1 n)
  then show ?case by (subst show_dec.simps) auto
qed

lemma digits_value_show_dec [simp]: "digits_value (show_dec n) = n"
proof (induction n rule: show_dec.induct)
  case (1 n)
  show ?case
  proof (cases "n < 10")
    case True
    then have "digits_value ([] @ [digit_char n]) = n"
      by (simp only: digits_value_simps digit_value_digit_char)
    with True show ?thesis by (subst show_dec.simps) simp
  next
    case False
    with "1.IH" show ?thesis by (subst show_dec.simps) simp
  qed
qed

lemma show_dec_inject: "show_dec m = show_dec n \<longleftrightarrow> m = n"
  by (metis digits_value_show_dec)

lemma from_chars_digits:
  assumes "list_all is_digit text" and "text \<noteq> []"
  shows "from_chars m text =
    (if digits_value text > m then Inl Result_out_of_range else Inr (digits_value text), [])"
proof -
  from assms(1) have tw: "takeWhile is_digit text = text" and dw: "dropWhile is_digit text = []"
    by (simp_all add: list_all_iff takeWhile_eq_all_conv)
  show ?thesis
    unfolding from_chars_def Let_def tw dw using assms(2) by simp
qed

lemma from_chars_rest:
  "\<not> list_all is_digit text \<Longrightarrow> snd (from_chars m text) \<noteq> []"
  by (auto simp: from_chars_def Let_def list_all_iff dropWhile_eq_Nil_conv)

lemma parse_unsigned_digits:
  assumes "list_all is_digit text" and "text \<noteq> []"
  shows "parse_unsigned text flag =
    (if digits_value text < 2 ^ LENGTH('a) then Inr (of_nat (digits_value text) :: 'a::len word)
     else Inl (Runtime_error (''invalid numeric value for '' @ flag)))"
proof -
  have "(2 ^ LENGTH('a) - 1 < n) = (\<not> n < 2 ^ LENGTH('a))" for n :: nat
    by (simp add: not_less not_le less_eq_Suc_le)
  then show ?thesis
    unfolding parse_unsigned_def from_chars_digits [OF assms] by simp
qed

lemma parse_unsigned_Inr_iff:
  "parse_unsigned text flag = Inr (v :: 'a::len word) \<longleftrightarrow>
     text \<noteq> [] \<and> list_all is_digit text \<and> digits_value text = unat v"
proof (cases "list_all is_digit text \<and> text \<noteq> []")
  case True
  have "unat v < 2 ^ LENGTH('a)"
    by (rule unsigned_less)
  moreover have "n < 2 ^ LENGTH('a) \<Longrightarrow> (of_nat n = v) = (n = unat v)" for n
    by (auto simp: unat_of_nat)
  ultimately show ?thesis
    using True by (auto simp: parse_unsigned_digits)
next
  case False
  show ?thesis
  proof (cases "text = []")
    case True
    then show ?thesis by (simp add: parse_unsigned_def from_chars_def)
  next
    case nonempty: False
    with False have "snd (from_chars (2 ^ LENGTH('a) - 1) text) \<noteq> []"
      by (intro from_chars_rest) simp
    with False nonempty show ?thesis
      by (auto simp: parse_unsigned_def split: prod.splits sum.splits)
  qed
qed

lemma parse_unsigned_total:
  "(\<exists>v. parse_unsigned text flag = Inr (v :: 'a::len word)) \<or>
   (parse_unsigned text flag :: exn + 'a word) = Inl (Runtime_error (''invalid numeric value for '' @ flag))"
  by (auto simp: parse_unsigned_def split: prod.splits sum.splits)

section \<open>Property of the number parser\<close>

text \<open>
  \<open>parse_unsigned\<close> accepts exactly the non-empty strings of decimal digits, with any number of
  leading zeros, whose value fits the integer type, and returns that value; everything else is the
  error that names the flag. It reads back what the program prints.
\<close>

theorem parse_unsigned_exact:
  "(parse_unsigned text flag :: exn + 'a::len word) =
     (if text \<noteq> [] \<and> list_all is_digit text \<and> digits_value text < 2 ^ LENGTH('a)
      then Inr (of_nat (digits_value text))
      else Inl (Runtime_error (''invalid numeric value for '' @ flag))) \<and>
   parse_unsigned (show_word w) flag = Inr (w :: 'a word)"
proof -
  have printed: "parse_unsigned (show_word w) flag = Inr w"
    by (simp add: parse_unsigned_Inr_iff show_dec_digits show_dec_ne digits_value_show_dec)
  show ?thesis
  proof (cases "text \<noteq> [] \<and> list_all is_digit text")
    case True
    with parse_unsigned_digits [of "text" flag, where 'a = 'a] printed show ?thesis by simp
  next
    case False
    then have "parse_unsigned text flag \<noteq> Inr (v :: 'a word)" for v
      by (auto simp: parse_unsigned_Inr_iff)
    with parse_unsigned_total [of "text" flag, where 'a = 'a] False printed show ?thesis by auto
  qed
qed

end
