(* ===== verification/Wire_Protocol.thy ===== *)
theory Wire_Protocol
  imports Byte_Order Decimal_Text
begin

text \<open>
  The binary protocol of \<open>include/bmdfh/protocol.hpp\<close> and \<open>src/common/protocol.cpp\<close>: the packed
  structs with their fields in network order, their memory images, the constructors and
  decoders, and the parsing and serialising of whole packets.
\<close>

section \<open>Enumerations\<close>

datatype side = Buy | Sell

datatype message_type = AddOrder | ModifyOrder | DeleteOrder | Trade

text \<open>\<open>static_cast<char>\<close> of the enumerators.\<close>

fun side_char :: "side \<Rightarrow> u8" where
  "side_char Buy = 66"
| "side_char Sell = 83"

fun message_type_char :: "message_type \<Rightarrow> u8" where
  "message_type_char AddOrder = 65"
| "message_type_char ModifyOrder = 77"
| "message_type_char DeleteOrder = 68"
| "message_type_char Trade = 84"

definition message_type_from_char :: "u8 \<Rightarrow> message_type option" where
  "message_type_from_char msg_type =
     (if msg_type = message_type_char AddOrder then Some AddOrder
      else if msg_type = message_type_char ModifyOrder then Some ModifyOrder
      else if msg_type = message_type_char DeleteOrder then Some DeleteOrder
      else if msg_type = message_type_char Trade then Some Trade
      else None)"

definition side_from_char :: "u8 \<Rightarrow> side option" where
  "side_from_char side =
     (if side = side_char Buy then Some Buy
      else if side = side_char Sell then Some Sell
      else None)"

fun message_type_to_string :: "message_type \<Rightarrow> string" where
  "message_type_to_string AddOrder = ''ADD''"
| "message_type_to_string ModifyOrder = ''MODIFY''"
| "message_type_to_string DeleteOrder = ''DELETE''"
| "message_type_to_string Trade = ''TRADE''"

fun side_to_string :: "side \<Rightarrow> string" where
  "side_to_string Buy = ''BUY''"
| "side_to_string Sell = ''SELL''"

section \<open>Packed structs\<close>

definition kFixedMessageSize :: nat where "kFixedMessageSize = 24"

definition sizeof_PacketHeader :: nat where "sizeof_PacketHeader = 14"

text \<open>The fields hold the values as they lie in memory, that is in network order.\<close>

record packet_header =
  hdr_seq_num :: u32
  hdr_msg_count :: u16
  hdr_publish_tsc :: u64

record add_order_msg =
  add_msg_type :: u8
  add_order_id :: u64
  add_side :: u8
  add_price :: u32
  add_quantity :: u32
  add_reserved :: bytes

record modify_order_msg =
  mod_msg_type :: u8
  mod_order_id :: u64
  mod_price :: u32
  mod_quantity :: u32
  mod_reserved :: bytes

record delete_order_msg =
  del_msg_type :: u8
  del_order_id :: u64
  del_reserved :: bytes

record trade_msg =
  trd_msg_type :: u8
  trd_order_id :: u64
  trd_price :: u32
  trd_quantity :: u32
  trd_reserved :: bytes

text \<open>
  \<open>Message\<close> is a variant of the structs, \<open>MessageView\<close> one of pointers to constant structs.
  Nothing writes through the pointers, so a view is the struct it points to.
\<close>

datatype message =
    AddMsg add_order_msg
  | ModifyMsg modify_order_msg
  | DeleteMsg delete_order_msg
  | TradeMsg trade_msg

type_synonym message_view = message

text \<open>A null \<open>header\<close> pointer is \<open>None\<close>.\<close>

record packet_view =
  pv_header :: "packet_header option"
  pv_message_bytes :: bytes

subsection \<open>Memory images: \<open>copy_wire\<close> and \<open>as_wire\<close>\<close>

definition image_header :: "packet_header \<Rightarrow> bytes" where
  "image_header h = le_bytes 4 (hdr_seq_num h) @ le_bytes 2 (hdr_msg_count h) @
     le_bytes 8 (hdr_publish_tsc h)"

fun image_message :: "message \<Rightarrow> bytes" where
  "image_message (AddMsg a) = [add_msg_type a] @ le_bytes 8 (add_order_id a) @ [add_side a] @
     le_bytes 4 (add_price a) @ le_bytes 4 (add_quantity a) @ add_reserved a"
| "image_message (ModifyMsg m) = [mod_msg_type m] @ le_bytes 8 (mod_order_id m) @
     le_bytes 4 (mod_price m) @ le_bytes 4 (mod_quantity m) @ mod_reserved m"
| "image_message (DeleteMsg d) = [del_msg_type d] @ le_bytes 8 (del_order_id d) @ del_reserved d"
| "image_message (TradeMsg t) = [trd_msg_type t] @ le_bytes 8 (trd_order_id t) @
     le_bytes 4 (trd_price t) @ le_bytes 4 (trd_quantity t) @ trd_reserved t"

definition as_header :: "bytes \<Rightarrow> packet_header" where
  "as_header bs = \<lparr>hdr_seq_num = le_word (subspan 0 4 bs), hdr_msg_count = le_word (subspan 4 2 bs),
     hdr_publish_tsc = le_word (subspan 6 8 bs)\<rparr>"

definition as_add :: "bytes \<Rightarrow> add_order_msg" where
  "as_add bs = \<lparr>add_msg_type = le_word (subspan 0 1 bs), add_order_id = le_word (subspan 1 8 bs),
     add_side = le_word (subspan 9 1 bs), add_price = le_word (subspan 10 4 bs),
     add_quantity = le_word (subspan 14 4 bs), add_reserved = subspan 18 6 bs\<rparr>"

definition as_modify :: "bytes \<Rightarrow> modify_order_msg" where
  "as_modify bs = \<lparr>mod_msg_type = le_word (subspan 0 1 bs), mod_order_id = le_word (subspan 1 8 bs),
     mod_price = le_word (subspan 9 4 bs), mod_quantity = le_word (subspan 13 4 bs),
     mod_reserved = subspan 17 7 bs\<rparr>"

definition as_delete :: "bytes \<Rightarrow> delete_order_msg" where
  "as_delete bs = \<lparr>del_msg_type = le_word (subspan 0 1 bs), del_order_id = le_word (subspan 1 8 bs),
     del_reserved = subspan 9 15 bs\<rparr>"

definition as_trade :: "bytes \<Rightarrow> trade_msg" where
  "as_trade bs = \<lparr>trd_msg_type = le_word (subspan 0 1 bs), trd_order_id = le_word (subspan 1 8 bs),
     trd_price = le_word (subspan 9 4 bs), trd_quantity = le_word (subspan 13 4 bs),
     trd_reserved = subspan 17 7 bs\<rparr>"

section \<open>Constructors and decoders\<close>

definition make_packet_header :: "u32 \<Rightarrow> u16 \<Rightarrow> u64 \<Rightarrow> packet_header" where
  "make_packet_header seq_num msg_count publish_tsc =
     \<lparr>hdr_seq_num = htonl seq_num, hdr_msg_count = htons msg_count,
      hdr_publish_tsc = host_to_network_u64 publish_tsc\<rparr>"

definition make_add_order_msg :: "u64 \<Rightarrow> side \<Rightarrow> u32 \<Rightarrow> u32 \<Rightarrow> add_order_msg" where
  "make_add_order_msg order_id side price quantity =
     \<lparr>add_msg_type = message_type_char AddOrder, add_order_id = host_to_network_u64 order_id,
      add_side = side_char side, add_price = htonl price, add_quantity = htonl quantity,
      add_reserved = replicate 6 0\<rparr>"

definition make_modify_order_msg :: "u64 \<Rightarrow> u32 \<Rightarrow> u32 \<Rightarrow> modify_order_msg" where
  "make_modify_order_msg order_id price quantity =
     \<lparr>mod_msg_type = message_type_char ModifyOrder, mod_order_id = host_to_network_u64 order_id,
      mod_price = htonl price, mod_quantity = htonl quantity, mod_reserved = replicate 7 0\<rparr>"

definition make_delete_order_msg :: "u64 \<Rightarrow> delete_order_msg" where
  "make_delete_order_msg order_id =
     \<lparr>del_msg_type = message_type_char DeleteOrder, del_order_id = host_to_network_u64 order_id,
      del_reserved = replicate 15 0\<rparr>"

definition make_trade_msg :: "u64 \<Rightarrow> u32 \<Rightarrow> u32 \<Rightarrow> trade_msg" where
  "make_trade_msg order_id price quantity =
     \<lparr>trd_msg_type = message_type_char Trade, trd_order_id = host_to_network_u64 order_id,
      trd_price = htonl price, trd_quantity = htonl quantity, trd_reserved = replicate 7 0\<rparr>"

definition decode_seq_num :: "packet_header \<Rightarrow> u32" where
  "decode_seq_num header = ntohl (hdr_seq_num header)"

definition decode_msg_count :: "packet_header \<Rightarrow> u16" where
  "decode_msg_count header = ntohs (hdr_msg_count header)"

definition decode_publish_tsc :: "packet_header \<Rightarrow> u64" where
  "decode_publish_tsc header = network_to_host_u64 (hdr_publish_tsc header)"

definition decode_side :: "add_order_msg \<Rightarrow> side option" where
  "decode_side message = side_from_char (add_side message)"

text \<open>\<open>decode_order_id\<close>, \<open>decode_price\<close> and \<open>decode_quantity\<close> are overloaded in the source.\<close>

definition decode_order_id_add :: "add_order_msg \<Rightarrow> u64" where
  "decode_order_id_add message = network_to_host_u64 (add_order_id message)"

definition decode_order_id_modify :: "modify_order_msg \<Rightarrow> u64" where
  "decode_order_id_modify message = network_to_host_u64 (mod_order_id message)"

definition decode_order_id_delete :: "delete_order_msg \<Rightarrow> u64" where
  "decode_order_id_delete message = network_to_host_u64 (del_order_id message)"

definition decode_order_id_trade :: "trade_msg \<Rightarrow> u64" where
  "decode_order_id_trade message = network_to_host_u64 (trd_order_id message)"

definition decode_price_add :: "add_order_msg \<Rightarrow> u32" where
  "decode_price_add message = ntohl (add_price message)"

definition decode_price_modify :: "modify_order_msg \<Rightarrow> u32" where
  "decode_price_modify message = ntohl (mod_price message)"

definition decode_price_trade :: "trade_msg \<Rightarrow> u32" where
  "decode_price_trade message = ntohl (trd_price message)"

definition decode_quantity_add :: "add_order_msg \<Rightarrow> u32" where
  "decode_quantity_add message = ntohl (add_quantity message)"

definition decode_quantity_modify :: "modify_order_msg \<Rightarrow> u32" where
  "decode_quantity_modify message = ntohl (mod_quantity message)"

definition decode_quantity_trade :: "trade_msg \<Rightarrow> u32" where
  "decode_quantity_trade message = ntohl (trd_quantity message)"

section \<open>Packets\<close>

text \<open>
  \<open>std::size_t\<close> sums here stay below \<open>14 + 65535 * 24\<close>, far from 64 bits, and are naturals.
\<close>

definition packet_size_bytes :: "u16 \<Rightarrow> nat" where
  "packet_size_bytes msg_count = sizeof_PacketHeader + unat msg_count * kFixedMessageSize"

definition parse_packet :: "bytes \<Rightarrow> packet_view option" where
  "parse_packet bytes =
     (if length bytes < sizeof_PacketHeader then None
      else let header = as_header (subspan 0 sizeof_PacketHeader bytes)
           in if length bytes \<noteq> packet_size_bytes (decode_msg_count header) then None
              else Some \<lparr>pv_header = Some header,
                         pv_message_bytes = drop sizeof_PacketHeader bytes\<rparr>)"

definition message_at :: "packet_view \<Rightarrow> nat \<Rightarrow> message_view option" where
  "message_at packet index =
     (case pv_header packet of
        None \<Rightarrow> None
      | Some header \<Rightarrow>
          if unat (decode_msg_count header) \<le> index then None
          else let offset = index * kFixedMessageSize;
                   chunk = subspan offset kFixedMessageSize (pv_message_bytes packet)
               in if chunk = [] then None
                  else case message_type_from_char (hd chunk) of
                    None \<Rightarrow> None
                  | Some AddOrder \<Rightarrow>
                      (case side_from_char (add_side (as_add chunk)) of
                         None \<Rightarrow> None
                       | Some _ \<Rightarrow> Some (AddMsg (as_add chunk)))
                  | Some ModifyOrder \<Rightarrow> Some (ModifyMsg (as_modify chunk))
                  | Some DeleteOrder \<Rightarrow> Some (DeleteMsg (as_delete chunk))
                  | Some Trade \<Rightarrow> Some (TradeMsg (as_trade chunk)))"

definition view_of :: "message \<Rightarrow> message_view" where
  "view_of message = message"

text \<open>The loop of \<open>serialize_packet\<close>: \<open>copy_wire\<close> at the cursor, then advance it.\<close>

fun write_messages :: "nat \<Rightarrow> message list \<Rightarrow> bytes \<Rightarrow> bytes" where
  "write_messages cursor [] bytes = bytes"
| "write_messages cursor (m # messages) bytes =
     write_messages (cursor + kFixedMessageSize) messages (overwrite cursor (image_message m) bytes)"

definition serialize_packet :: "u32 \<Rightarrow> message list \<Rightarrow> u64 \<Rightarrow> exn + bytes" where
  "serialize_packet seq_num messages publish_tsc =
     (if length messages > 65535 then Inl (Runtime_error ''too many messages in one packet'')
      else let msg_count = of_nat (length messages) :: u16;
               bytes = replicate (packet_size_bytes msg_count) 0;
               header = make_packet_header seq_num msg_count publish_tsc;
               bytes = overwrite 0 (image_header header) bytes
           in Inr (write_messages sizeof_PacketHeader messages bytes))"

section \<open>Description of a message\<close>

fun describe_message :: "message_view \<Rightarrow> string" where
  "describe_message (AddMsg a) =
     ''ADD'' @ '' order_id='' @ show_word (decode_order_id_add a) @
     '' side='' @ (case decode_side a of Some s \<Rightarrow> side_to_string s | None \<Rightarrow> ''INVALID'') @
     '' price='' @ show_word (decode_price_add a) @
     '' qty='' @ show_word (decode_quantity_add a)"
| "describe_message (ModifyMsg m) =
     ''MODIFY'' @ '' order_id='' @ show_word (decode_order_id_modify m) @
     '' price='' @ show_word (decode_price_modify m) @
     '' qty='' @ show_word (decode_quantity_modify m)"
| "describe_message (DeleteMsg d) =
     ''DELETE'' @ '' order_id='' @ show_word (decode_order_id_delete d)"
| "describe_message (TradeMsg t) =
     ''TRADE'' @ '' order_id='' @ show_word (decode_order_id_trade t) @
     '' price='' @ show_word (decode_price_trade t) @
     '' qty='' @ show_word (decode_quantity_trade t)"

definition describe :: "u32 \<Rightarrow> nat \<Rightarrow> message_view \<Rightarrow> string" where
  "describe seq_num message_index message =
     ''pkt_seq='' @ show_word seq_num @ '' msg='' @ show_dec (message_index + 1) @ '' '' @
     describe_message message"

end
