(* ===== verification/Command_Line.thy ===== *)
theory Command_Line
  imports Wire_Protocol
begin

text \<open>
  The command lines of both programs: \<open>Options\<close> and \<open>parse_args\<close> of \<open>src/exchange_sim/main.cpp\<close> and
  \<open>src/feed_handler/main.cpp\<close>. An argument list holds the words after the program's name.
\<close>

section \<open>The loop over the arguments\<close>

text \<open>
  What the chain of comparisons selects for an argument: an assignment that needs the next word
  (\<open>require_value\<close>), an assignment without one, the usage text and \<open>exit(0)\<close>, or the error at
  the end of the chain.
\<close>

datatype 'o action = Takes_value "string \<Rightarrow> exn + 'o" | Sets 'o | Prints_usage | Not_known

text \<open>\<open>None\<close> is the exit after the usage text.\<close>

fun parse_words ::
    "(string \<Rightarrow> 'o \<Rightarrow> 'o action) \<Rightarrow> string list \<Rightarrow> 'o \<Rightarrow> exn + 'o option" where
  "parse_words selected [] options = Inr (Some options)"
| "parse_words selected (argument # rest) options =
     (case selected argument options of
        Takes_value assign \<Rightarrow>
          (case rest of
             [] \<Rightarrow> Inl (Runtime_error (''missing value for '' @ argument))
           | value # rest' \<Rightarrow>
               (case assign value of
                  Inl e \<Rightarrow> Inl e
                | Inr options' \<Rightarrow> parse_words selected rest' options'))
      | Sets options' \<Rightarrow> parse_words selected rest options'
      | Prints_usage \<Rightarrow> Inr None
      | Not_known \<Rightarrow> Inl (Runtime_error (''unknown argument: '' @ argument)))"

text \<open>An assignment of \<open>parse_unsigned<Integer>(require_value(argument), argument)\<close>.\<close>

definition numeric :: "string \<Rightarrow> ('a::len word \<Rightarrow> 'o) \<Rightarrow> 'o action" where
  "numeric argument assign =
     Takes_value (\<lambda>value. case parse_unsigned value argument of
       Inl e \<Rightarrow> Inl e | Inr v \<Rightarrow> Inr (assign v))"

section \<open>\<open>feed_handler\<close>\<close>

record feed_options =
  fo_group :: string
  fo_port :: u16
  fo_recovery_host :: string
  fo_recovery_port :: u16
  fo_messages :: u64
  fo_cpu_core :: u64
  fo_benchmark :: bool

definition feed_defaults :: feed_options where
  "feed_defaults = \<lparr>fo_group = ''239.255.42.99'', fo_port = 30001,
     fo_recovery_host = ''127.0.0.1'', fo_recovery_port = 31001, fo_messages = 0,
     fo_cpu_core = 0, fo_benchmark = False\<rparr>"

definition feed_action :: "string \<Rightarrow> feed_options \<Rightarrow> feed_options action" where
  "feed_action argument options =
     (if argument = ''--group'' then Takes_value (\<lambda>v. Inr (options\<lparr>fo_group := v\<rparr>))
      else if argument = ''--port'' then numeric argument (\<lambda>v. options\<lparr>fo_port := v\<rparr>)
      else if argument = ''--recovery-host''
        then Takes_value (\<lambda>v. Inr (options\<lparr>fo_recovery_host := v\<rparr>))
      else if argument = ''--recovery-port''
        then numeric argument (\<lambda>v. options\<lparr>fo_recovery_port := v\<rparr>)
      else if argument = ''--messages'' then numeric argument (\<lambda>v. options\<lparr>fo_messages := v\<rparr>)
      else if argument = ''--cpu-core'' then numeric argument (\<lambda>v. options\<lparr>fo_cpu_core := v\<rparr>)
      else if argument = ''--benchmark'' then Sets (options\<lparr>fo_benchmark := True\<rparr>)
      else if argument = ''--help'' then Prints_usage
      else Not_known)"

definition feed_parse_args :: "string list \<Rightarrow> exn + feed_options option" where
  "feed_parse_args argv = parse_words feed_action argv feed_defaults"

section \<open>\<open>exchange_sim\<close>\<close>

definition kPacketBufferSize :: nat where "kPacketBufferSize = 1024"

definition kMaxMessagesPerPacket :: nat where
  "kMaxMessagesPerPacket = (kPacketBufferSize - sizeof_PacketHeader) div kFixedMessageSize"

record sim_options =
  so_group :: string
  so_port :: u16
  so_recovery_port :: u16
  so_messages :: u64
  so_messages_per_packet :: u64
  so_skip_every :: u64
  so_interval_ms :: u64
  so_recovery_grace_ms :: u64
  so_quiet :: bool

definition sim_defaults :: sim_options where
  "sim_defaults = \<lparr>so_group = ''239.255.42.99'', so_port = 30001, so_recovery_port = 31001,
     so_messages = 20, so_messages_per_packet = 4, so_skip_every = 0, so_interval_ms = 100,
     so_recovery_grace_ms = 1000, so_quiet = False\<rparr>"

definition sim_action :: "string \<Rightarrow> sim_options \<Rightarrow> sim_options action" where
  "sim_action argument options =
     (if argument = ''--group'' then Takes_value (\<lambda>v. Inr (options\<lparr>so_group := v\<rparr>))
      else if argument = ''--port'' then numeric argument (\<lambda>v. options\<lparr>so_port := v\<rparr>)
      else if argument = ''--recovery-port''
        then numeric argument (\<lambda>v. options\<lparr>so_recovery_port := v\<rparr>)
      else if argument = ''--messages'' then numeric argument (\<lambda>v. options\<lparr>so_messages := v\<rparr>)
      else if argument = ''--messages-per-packet''
        then numeric argument (\<lambda>v. options\<lparr>so_messages_per_packet := v\<rparr>)
      else if argument = ''--skip-every'' then numeric argument (\<lambda>v. options\<lparr>so_skip_every := v\<rparr>)
      else if argument = ''--interval-ms''
        then numeric argument (\<lambda>v. options\<lparr>so_interval_ms := v\<rparr>)
      else if argument = ''--recovery-grace-ms''
        then numeric argument (\<lambda>v. options\<lparr>so_recovery_grace_ms := v\<rparr>)
      else if argument = ''--quiet'' then Sets (options\<lparr>so_quiet := True\<rparr>)
      else if argument = ''--help'' then Prints_usage
      else Not_known)"

text \<open>The checks after the loop.\<close>

definition check_sim_options :: "sim_options \<Rightarrow> exn + sim_options option" where
  "check_sim_options options =
     (if so_messages_per_packet options = 0
      then Inl (Runtime_error ''--messages-per-packet must be greater than zero'')
      else if kMaxMessagesPerPacket < unat (so_messages_per_packet options)
      then Inl (Runtime_error
        ''--messages-per-packet is too large for the fixed 1024-byte packet buffer'')
      else Inr (Some options))"

definition sim_parse_args :: "string list \<Rightarrow> exn + sim_options option" where
  "sim_parse_args argv =
     (case parse_words sim_action argv sim_defaults of
        Inl e \<Rightarrow> Inl e
      | Inr None \<Rightarrow> Inr None
      | Inr (Some options) \<Rightarrow> check_sim_options options)"

section \<open>Facts\<close>

lemma kMaxMessagesPerPacket_eq: "kMaxMessagesPerPacket = 42"
  by (simp add: kMaxMessagesPerPacket_def kPacketBufferSize_def sizeof_PacketHeader_def
      kFixedMessageSize_def)

lemma sim_parse_args_batch:
  "sim_parse_args argv = Inr (Some options) \<Longrightarrow>
     0 < so_messages_per_packet options \<and> unat (so_messages_per_packet options) \<le> 42"
  by (auto simp: sim_parse_args_def check_sim_options_def kMaxMessagesPerPacket_eq word_neq_0_conv
      split: sum.splits option.splits if_splits)

text \<open>Later words win: the loop is a fold, so arguments can be parsed in two steps.\<close>

lemma parse_words_append:
  "parse_words selected first options = Inr (Some middle) \<Longrightarrow>
     parse_words selected (first @ rest) options = parse_words selected rest middle"
  by (induction selected first options rule: parse_words.induct)
    (auto split: action.splits list.splits sum.splits)

text \<open>Printed options are read back.\<close>

lemma parse_unsigned_show_word: "parse_unsigned (show_word w) flag = Inr (w :: 'a::len word)"
  by (simp add: parse_unsigned_Inr_iff show_dec_digits show_dec_ne digits_value_show_dec)

definition feed_words :: "feed_options \<Rightarrow> string list" where
  "feed_words o' =
     [''--group'', fo_group o', ''--port'', show_word (fo_port o'),
      ''--recovery-host'', fo_recovery_host o', ''--recovery-port'', show_word (fo_recovery_port o'),
      ''--messages'', show_word (fo_messages o'), ''--cpu-core'', show_word (fo_cpu_core o')] @
     (if fo_benchmark o' then [''--benchmark''] else [])"

definition sim_words :: "sim_options \<Rightarrow> string list" where
  "sim_words o' =
     [''--group'', so_group o', ''--port'', show_word (so_port o'),
      ''--recovery-port'', show_word (so_recovery_port o'),
      ''--messages'', show_word (so_messages o'),
      ''--messages-per-packet'', show_word (so_messages_per_packet o'),
      ''--skip-every'', show_word (so_skip_every o'),
      ''--interval-ms'', show_word (so_interval_ms o'),
      ''--recovery-grace-ms'', show_word (so_recovery_grace_ms o')] @
     (if so_quiet o' then [''--quiet''] else [])"

lemma feed_words_parse: "feed_parse_args (feed_words o') = Inr (Some o')"
  by (cases o') (simp add: feed_parse_args_def feed_words_def feed_action_def numeric_def
      parse_unsigned_show_word feed_defaults_def)

lemma sim_words_parse: "sim_parse_args (sim_words o') = check_sim_options o'"
  by (cases o') (simp add: sim_parse_args_def sim_words_def sim_action_def numeric_def
      parse_unsigned_show_word sim_defaults_def)

section \<open>Properties of the command lines\<close>

text \<open>
  C32. Options written out as arguments are parsed back, by both programs; the simulator refuses
  exactly the batch sizes that are zero or above 42. Whatever the command line, options that it
  accepts never overflow its packet buffer: a full batch with its header takes at most 1024 bytes,
  and has at least one message.
\<close>

theorem options_round_trip:
  "feed_parse_args (feed_words fo) = Inr (Some fo) \<and>
   sim_parse_args (sim_words so) =
     (if so_messages_per_packet so = 0
      then Inl (Runtime_error ''--messages-per-packet must be greater than zero'')
      else if 42 < unat (so_messages_per_packet so)
      then Inl (Runtime_error
        ''--messages-per-packet is too large for the fixed 1024-byte packet buffer'')
      else Inr (Some so)) \<and>
   (\<forall>argv options. sim_parse_args argv = Inr (Some options) \<longrightarrow>
      0 < so_messages_per_packet options \<and>
      sizeof_PacketHeader + unat (so_messages_per_packet options) * kFixedMessageSize \<le> kPacketBufferSize)"
proof -
  have "0 < so_messages_per_packet options \<and>
      sizeof_PacketHeader + unat (so_messages_per_packet options) * kFixedMessageSize \<le> kPacketBufferSize"
    if "sim_parse_args argv = Inr (Some options)" for argv options
    using sim_parse_args_batch [OF that]
    by (simp add: sizeof_PacketHeader_def kFixedMessageSize_def kPacketBufferSize_def)
  then show ?thesis
    by (simp add: feed_words_parse sim_words_parse check_sim_options_def kMaxMessagesPerPacket_eq)
qed

theorem options_round_trip_witness:
  "sizeof_PacketHeader + unat (42 :: u64) * kFixedMessageSize \<le> kPacketBufferSize"
proof -
  let ?so = "sim_defaults\<lparr>so_messages_per_packet := 42\<rparr>"
  have "sim_parse_args (sim_words ?so) = Inr (Some ?so)"
    by (simp add: sim_words_parse check_sim_options_def kMaxMessagesPerPacket_eq)
  with options_round_trip [of feed_defaults ?so] show ?thesis by fastforce
qed

end
