(* ===== verification/Wire_Codec.thy ===== *)
theory Wire_Codec
  imports Wire_Protocol
begin

text \<open>
  Correctness of the wire protocol: sizes, round trips between structs and their images, the
  layout of a serialised packet, and the agreement of serialising and parsing in both
  directions.
\<close>

section \<open>Well-formed messages\<close>

text \<open>
  What the constructors produce and \<open>message_at\<close> accepts: the type byte of the alternative, a
  valid side, and the \<open>reserved\<close> array at its declared length.
\<close>

fun wf_message :: "message \<Rightarrow> bool" where
  "wf_message (AddMsg a) \<longleftrightarrow> add_msg_type a = message_type_char AddOrder \<and>
     side_from_char (add_side a) \<noteq> None \<and> length (add_reserved a) = 6"
| "wf_message (ModifyMsg m) \<longleftrightarrow> mod_msg_type m = message_type_char ModifyOrder \<and>
     length (mod_reserved m) = 7"
| "wf_message (DeleteMsg d) \<longleftrightarrow> del_msg_type d = message_type_char DeleteOrder \<and>
     length (del_reserved d) = 15"
| "wf_message (TradeMsg t) \<longleftrightarrow> trd_msg_type t = message_type_char Trade \<and>
     length (trd_reserved t) = 7"

lemmas size_simps [wire_simps] = kFixedMessageSize_def sizeof_PacketHeader_def

lemma side_from_char_simps [wire_simps]: "side_from_char (side_char s) = Some s"
  by (cases s) (simp_all add: side_from_char_def)

lemma side_from_char_Some: "side_from_char c = Some s \<longleftrightarrow> c = side_char s"
  by (cases s) (auto simp: side_from_char_def)

lemma message_type_from_char_simps [wire_simps]:
  "message_type_from_char (message_type_char t) = Some t"
  by (cases t) (simp_all add: message_type_from_char_def)

lemma message_type_from_char_Some:
  "message_type_from_char c = Some t \<longleftrightarrow> c = message_type_char t"
  by (cases t) (auto simp: message_type_from_char_def)

lemma wf_make [wire_simps]:
  "wf_message (AddMsg (make_add_order_msg i s p q))"
  "wf_message (ModifyMsg (make_modify_order_msg i p q))"
  "wf_message (DeleteMsg (make_delete_order_msg i))"
  "wf_message (TradeMsg (make_trade_msg i p q))"
  by (simp_all add: make_add_order_msg_def make_modify_order_msg_def make_delete_order_msg_def
      make_trade_msg_def side_from_char_simps)

section \<open>Decoders undo constructors\<close>

lemma decode_make_header [wire_simps]:
  "decode_seq_num (make_packet_header s c t) = s"
  "decode_msg_count (make_packet_header s c t) = c"
  "decode_publish_tsc (make_packet_header s c t) = t"
  by (simp_all add: decode_seq_num_def decode_msg_count_def decode_publish_tsc_def
      make_packet_header_def wire_simps)

lemma decode_make_add [wire_simps]:
  "decode_side (make_add_order_msg i s p q) = Some s"
  "decode_order_id_add (make_add_order_msg i s p q) = i"
  "decode_price_add (make_add_order_msg i s p q) = p"
  "decode_quantity_add (make_add_order_msg i s p q) = q"
  by (simp_all add: make_add_order_msg_def decode_side_def decode_order_id_add_def
      decode_price_add_def decode_quantity_add_def wire_simps)

lemma decode_make_modify [wire_simps]:
  "decode_order_id_modify (make_modify_order_msg i p q) = i"
  "decode_price_modify (make_modify_order_msg i p q) = p"
  "decode_quantity_modify (make_modify_order_msg i p q) = q"
  by (simp_all add: make_modify_order_msg_def decode_order_id_modify_def
      decode_price_modify_def decode_quantity_modify_def wire_simps)

lemma decode_make_delete [wire_simps]: "decode_order_id_delete (make_delete_order_msg i) = i"
  by (simp add: make_delete_order_msg_def decode_order_id_delete_def wire_simps)

lemma decode_make_trade [wire_simps]:
  "decode_order_id_trade (make_trade_msg i p q) = i"
  "decode_price_trade (make_trade_msg i p q) = p"
  "decode_quantity_trade (make_trade_msg i p q) = q"
  by (simp_all add: make_trade_msg_def decode_order_id_trade_def
      decode_price_trade_def decode_quantity_trade_def wire_simps)

section \<open>Images\<close>

lemma length_image_header [wire_simps]: "length (image_header h) = 14"
  by (simp add: image_header_def)

lemma length_image_message [wire_simps]: "wf_message m \<Longrightarrow> length (image_message m) = 24"
  by (cases m) simp_all

lemma le_word_single [wire_simps]: "le_word [b] = (b :: u8)"
  by simp

lemma single_le_word: "length xs = 1 \<Longrightarrow> [le_word xs :: u8] = xs"
  by (cases xs) auto

lemmas image_subspans = subspan_Cons subspan_Cons_0 subspan_append_left subspan_append_right subspan_all

lemma as_image_header [wire_simps]: "as_header (image_header h) = h"
  by (simp add: as_header_def image_header_def image_subspans)

lemma as_image_message [wire_simps]:
  "length (add_reserved a) = 6 \<Longrightarrow> as_add (image_message (AddMsg a)) = a"
  "length (mod_reserved m) = 7 \<Longrightarrow> as_modify (image_message (ModifyMsg m)) = m"
  "length (del_reserved d) = 15 \<Longrightarrow> as_delete (image_message (DeleteMsg d)) = d"
  "length (trd_reserved t) = 7 \<Longrightarrow> as_trade (image_message (TradeMsg t)) = t"
  by (simp_all add: as_add_def as_modify_def as_delete_def as_trade_def image_subspans)

lemma image_as_header: "length bs = 14 \<Longrightarrow> image_header (as_header bs) = bs"
  using subspan_split [of 0 4 10 bs] subspan_split [of 4 2 8 bs] subspan_all [of bs 14]
  by (simp add: image_header_def as_header_def)

lemma image_as_add: "length bs = 24 \<Longrightarrow> image_message (AddMsg (as_add bs)) = bs"
  using subspan_split [of 0 1 23 bs] subspan_split [of 1 8 15 bs] subspan_split [of 9 1 14 bs]
    subspan_split [of 10 4 10 bs] subspan_split [of 14 4 6 bs] subspan_all [of bs 24]
    single_le_word [of "subspan 0 1 bs"] single_le_word [of "subspan 9 1 bs"]
  by (simp add: as_add_def)

lemma image_as_modify: "length bs = 24 \<Longrightarrow> image_message (ModifyMsg (as_modify bs)) = bs"
  using subspan_split [of 0 1 23 bs] subspan_split [of 1 8 15 bs] subspan_split [of 9 4 11 bs]
    subspan_split [of 13 4 7 bs] subspan_all [of bs 24] single_le_word [of "subspan 0 1 bs"]
  by (simp add: as_modify_def)

lemma image_as_delete: "length bs = 24 \<Longrightarrow> image_message (DeleteMsg (as_delete bs)) = bs"
  using subspan_split [of 0 1 23 bs] subspan_split [of 1 8 15 bs] subspan_all [of bs 24]
    single_le_word [of "subspan 0 1 bs"]
  by (simp add: as_delete_def)

lemma image_as_trade: "length bs = 24 \<Longrightarrow> image_message (TradeMsg (as_trade bs)) = bs"
  using subspan_split [of 0 1 23 bs] subspan_split [of 1 8 15 bs] subspan_split [of 9 4 11 bs]
    subspan_split [of 13 4 7 bs] subspan_all [of bs 24] single_le_word [of "subspan 0 1 bs"]
  by (simp add: as_trade_def)

lemmas image_as_message = image_as_add image_as_modify image_as_delete image_as_trade

section \<open>One message slot\<close>

lemma hd_image_message:
  "wf_message m \<Longrightarrow> hd (image_message m) = message_type_char
     (case m of AddMsg a \<Rightarrow> AddOrder | ModifyMsg m \<Rightarrow> ModifyOrder
      | DeleteMsg d \<Rightarrow> DeleteOrder | TradeMsg t \<Rightarrow> Trade)"
  by (cases m) simp_all

lemma message_at_image:
  assumes "pv_header pv = Some h" and "i < unat (decode_msg_count h)"
    and "subspan (i * 24) 24 (pv_message_bytes pv) = image_message m" and "wf_message m"
  shows "message_at pv i = Some m"
proof -
  have "image_message m \<noteq> []"
    using length_image_message [OF assms(4)] by auto
  with assms hd_image_message [OF assms(4)] show ?thesis
    by (cases m)
      (auto simp: message_at_def Let_def size_simps message_type_from_char_simps
        as_image_message simp del: image_message.simps message_type_char.simps)
qed

lemma message_at_Some_image:
  assumes "message_at pv i = Some m" and "length (subspan (i * 24) 24 (pv_message_bytes pv)) = 24"
  shows "image_message m = subspan (i * 24) 24 (pv_message_bytes pv)" and "wf_message m"
proof -
  let ?c = "subspan (i * 24) 24 (pv_message_bytes pv)"
  obtain b rest where c: "?c = b # rest"
    using assms(2) by (cases ?c) auto
  have head: "le_word (subspan 0 1 ?c) = hd ?c"
    by (simp add: c subspan_Cons_0)
  obtain t where t: "message_type_from_char (hd ?c) = Some t"
    using assms(1) c
    by (auto simp: message_at_def Let_def size_simps split: option.splits if_splits)
  have char: "hd ?c = message_type_char t"
    using t by (simp add: message_type_from_char_Some)
  have "image_message m = ?c \<and> wf_message m"
    using assms(1) t char head c assms(2) image_as_message [OF assms(2)]
    by (cases t)
      (auto simp: message_at_def Let_def size_simps as_add_def as_modify_def as_delete_def
        as_trade_def split: option.splits if_splits simp del: image_message.simps)
  then show "image_message m = ?c" and "wf_message m" by simp_all
qed

section \<open>Whole packets\<close>

lemma length_images:
  "list_all wf_message ms \<Longrightarrow> length (concat (map image_message ms)) = length ms * 24"
  by (induction ms) (simp_all add: length_image_message)

lemma subspan_images:
  "list_all wf_message ms \<Longrightarrow> i < length ms \<Longrightarrow>
     subspan (i * 24) 24 (concat (map image_message ms)) = image_message (ms ! i)"
proof (induction ms arbitrary: i)
  case Nil
  then show ?case by simp
next
  case (Cons m ms)
  then show ?case
    by (cases i) (simp_all add: subspan_append_left subspan_append_right subspan_all
        length_image_message)
qed

lemma write_messages_eq:
  "list_all wf_message ms \<Longrightarrow> length buf = length ms * 24 \<Longrightarrow>
     write_messages (length pre) ms (pre @ buf) = pre @ concat (map image_message ms)"
proof (induction ms arbitrary: pre buf)
  case Nil
  then show ?case by simp
next
  case (Cons m ms)
  have "length (pre @ image_message m) = length pre + kFixedMessageSize"
    using Cons.prems by (simp add: length_image_message size_simps)
  with Cons.IH [of "drop 24 buf" "pre @ image_message m"] Cons.prems show ?case
    by (simp add: overwrite_append length_image_message)
qed

definition packet_image :: "u32 \<Rightarrow> message list \<Rightarrow> u64 \<Rightarrow> bytes" where
  "packet_image seq ms tsc = image_header (make_packet_header seq (of_nat (length ms)) tsc) @
     concat (map image_message ms)"

lemma serialize_packet_image:
  assumes "list_all wf_message ms" and "length ms \<le> 65535"
  shows "serialize_packet seq ms tsc = Inr (packet_image seq ms tsc)"
proof -
  let ?h = "image_header (make_packet_header seq (of_nat (length ms)) tsc)"
  have "overwrite 0 ?h (replicate (packet_size_bytes (of_nat (length ms))) 0)
      = ?h @ replicate (length ms * 24) 0"
    using assms(2) by (simp add: overwrite_def packet_size_bytes_def size_simps unat_of_nat
        length_image_header)
  moreover have "write_messages (length ?h) ms (?h @ replicate (length ms * 24) 0)
      = ?h @ concat (map image_message ms)"
    using assms(1) by (intro write_messages_eq) simp_all
  ultimately show ?thesis
    using assms(2) by (simp add: serialize_packet_def packet_image_def Let_def size_simps
        length_image_header)
qed

lemma length_packet_image:
  "list_all wf_message ms \<Longrightarrow> length (packet_image seq ms tsc) = 14 + length ms * 24"
  by (simp add: packet_image_def length_image_header length_images)

lemma parse_packet_image:
  assumes "list_all wf_message ms" and "length ms \<le> 65535"
  shows "parse_packet (packet_image seq ms tsc) =
    Some \<lparr>pv_header = Some (make_packet_header seq (of_nat (length ms)) tsc),
          pv_message_bytes = concat (map image_message ms)\<rparr>"
proof -
  have "subspan 0 14 (packet_image seq ms tsc)
      = image_header (make_packet_header seq (of_nat (length ms)) tsc)"
    by (simp add: packet_image_def subspan_append_left subspan_all length_image_header)
  with assms show ?thesis
    by (simp add: parse_packet_def Let_def size_simps length_packet_image as_image_header
        packet_size_bytes_def decode_make_header unat_of_nat)
      (simp add: packet_image_def length_image_header)
qed

lemma message_at_packet_image:
  assumes "list_all wf_message ms" and "length ms \<le> 65535"
    and "parse_packet (packet_image seq ms tsc) = Some pv"
  shows "message_at pv i = (if i < length ms then Some (ms ! i) else None)"
proof (cases "i < length ms")
  case True
  with assms show ?thesis
    by (intro trans [OF message_at_image])
      (auto simp: parse_packet_image subspan_images decode_make_header unat_of_nat list_all_length)
next
  case False
  with assms show ?thesis
    by (auto simp: parse_packet_image message_at_def decode_make_header unat_of_nat)
qed

lemma parse_packet_Some:
  assumes "parse_packet bs = Some pv"
  obtains h where "pv = \<lparr>pv_header = Some h, pv_message_bytes = drop 14 bs\<rparr>"
    and "h = as_header (subspan 0 14 bs)" and "length bs = 14 + unat (decode_msg_count h) * 24"
  using assms
  by (auto simp: parse_packet_def Let_def packet_size_bytes_def size_simps split: if_splits)

section \<open>Properties of the codec\<close>

lemma le_word_pair: "unat (le_word [x, y] :: u16) = unat x + 256 * unat y"
proof -
  have "(le_word [x, y] :: u16) = ucast x OR push_bit 8 (ucast y)" by simp
  also have "\<dots> = ucast x + push_bit 8 (ucast y)"
    by (rule disjunctive_add [symmetric])
      (auto simp: bit_ucast_iff bit_push_bit_iff dest: bit_imp_le_length)
  also have "\<dots> = of_nat (unat x + 256 * unat y)"
    by (simp add: push_bit_eq_mult mult.commute)
  finally have eq: "(le_word [x, y] :: u16) = of_nat (unat x + 256 * unat y)" .
  have "unat x < 256" "unat y < 256"
    using unsigned_less [of x] unsigned_less [of y] by simp_all
  then have "unat x + 256 * unat y < 65536" by linarith
  then show ?thesis unfolding eq by (rule unat_of_nat_u16)
qed

lemma ntohs_le_word: "ntohs (le_word [x, y]) = le_word [y, x]"
proof -
  have "le_bytes 2 (le_word [x, y] :: u16) = [x, y]" by (rule le_bytes_word) simp_all
  then show ?thesis by (simp add: ntohs_def bswap_def del: le_word.simps)
qed

lemma parsed_count:
  assumes "14 \<le> length bs"
  shows "unat (decode_msg_count (as_header (subspan 0 14 bs))) = 256 * unat (bs ! 4) + unat (bs ! 5)"
proof -
  have "subspan 4 2 (subspan 0 14 bs) = [bs ! 4, bs ! 5]"
    using assms by (intro nth_equalityI) (auto simp: subspan_def less_Suc_eq numeral_2_eq_2)
  then show ?thesis
    by (simp add: decode_msg_count_def as_header_def ntohs_le_word le_word_pair del: le_word.simps)
qed

lemma message_layout:
  "image_message (AddMsg (make_add_order_msg i s p q)) =
     [65] @ be_bytes 8 i @ [side_char s] @ be_bytes 4 p @ be_bytes 4 q @ replicate 6 0"
  "image_message (ModifyMsg (make_modify_order_msg i p q)) =
     [77] @ be_bytes 8 i @ be_bytes 4 p @ be_bytes 4 q @ replicate 7 0"
  "image_message (DeleteMsg (make_delete_order_msg i)) = [68] @ be_bytes 8 i @ replicate 15 0"
  "image_message (TradeMsg (make_trade_msg i p q)) =
     [84] @ be_bytes 8 i @ be_bytes 4 p @ be_bytes 4 q @ replicate 7 0"
  by (simp_all add: make_add_order_msg_def make_modify_order_msg_def make_delete_order_msg_def
      make_trade_msg_def wire_simps)

text \<open>
  C9. The bytes of a packet: a serialized packet is the big endian sequence number, message count
  and time stamp followed by the messages' images of 24 bytes each, in which the numbers are big
  endian after the type character and the rest is zero. More than 65535 messages are refused.
\<close>

theorem serialize_packet_layout:
  assumes "list_all wf_message ms"
  shows "serialize_packet seq ms tsc =
    (if 65535 < length ms then Inl (Runtime_error ''too many messages in one packet'')
     else Inr (be_bytes 4 seq @ be_bytes 2 (of_nat (length ms) :: u16) @ be_bytes 8 tsc @
       concat (map image_message ms))) \<and>
    (\<forall>m \<in> set ms. length (image_message m) = 24) \<and>
    image_message (AddMsg (make_add_order_msg i s p q)) =
      [65] @ be_bytes 8 i @ [side_char s] @ be_bytes 4 p @ be_bytes 4 q @ replicate 6 0 \<and>
    image_message (ModifyMsg (make_modify_order_msg i p q)) =
      [77] @ be_bytes 8 i @ be_bytes 4 p @ be_bytes 4 q @ replicate 7 0 \<and>
    image_message (DeleteMsg (make_delete_order_msg i)) = [68] @ be_bytes 8 i @ replicate 15 0 \<and>
    image_message (TradeMsg (make_trade_msg i p q)) =
      [84] @ be_bytes 8 i @ be_bytes 4 p @ be_bytes 4 q @ replicate 7 0"
proof -
  have "packet_image seq ms tsc = be_bytes 4 seq @ be_bytes 2 (of_nat (length ms) :: u16) @
      be_bytes 8 tsc @ concat (map image_message ms)"
    by (simp add: packet_image_def image_header_def make_packet_header_def wire_simps)
  then show ?thesis
    using assms serialize_packet_image [OF assms, of seq tsc] length_image_message
    by (auto simp: serialize_packet_def list_all_iff message_layout simp del: image_message.simps)
qed

theorem serialize_packet_layout_witness:
  "serialize_packet 258 [DeleteMsg (make_delete_order_msg 7)] 5 =
     Inr ([0, 0, 1, 2, 0, 1, 0, 0, 0, 0, 0, 0, 0, 5] @
       [68, 0, 0, 0, 0, 0, 0, 0, 7] @ replicate 15 0)"
proof -
  have wf: "list_all wf_message [DeleteMsg (make_delete_order_msg 7)]"
    by (simp add: wire_simps del: wf_message.simps)
  have image: "concat (map image_message [DeleteMsg (make_delete_order_msg 7)]) =
      [68, 0, 0, 0, 0, 0, 0, 0, 7] @ replicate 15 0" by code_simp
  have header: "be_bytes 4 (258 :: u32) @ be_bytes 2 (1 :: u16) @ be_bytes 8 (5 :: u64) =
      [0, 0, 1, 2, 0, 1, 0, 0, 0, 0, 0, 0, 0, 5]" by code_simp
  show ?thesis
    using serialize_packet_layout [OF wf, of 258 5] header image by simp
qed

text \<open>
  C10. Serializing and parsing: what \<open>serialize_packet\<close> writes, \<open>parse_packet\<close> accepts, with the same
  header, and \<open>message_at\<close> finds the same messages and no more.
\<close>

theorem parse_serialized_packet:
  assumes "list_all wf_message ms" and "serialize_packet seq ms tsc = Inr bs"
  shows "\<exists>pv h. parse_packet bs = Some pv \<and> pv_header pv = Some h \<and> decode_seq_num h = seq \<and>
    unat (decode_msg_count h) = length ms \<and> decode_publish_tsc h = tsc \<and>
    (\<forall>i. message_at pv i = (if i < length ms then Some (ms ! i) else None))"
proof -
  have len: "length ms \<le> 65535"
    using assms(2) by (simp add: serialize_packet_def split: if_splits)
  then have bs: "bs = packet_image seq ms tsc"
    using assms(2) serialize_packet_image [OF assms(1)] by simp
  note parse = parse_packet_image [OF assms(1) len, of seq tsc]
  have "unat (of_nat (length ms) :: u16) = length ms"
    using len by (simp add: unat_of_nat_u16)
  then show ?thesis
    using parse message_at_packet_image [OF assms(1) len parse]
    by (simp add: bs decode_make_header)
qed

theorem parse_serialized_packet_witness:
  "\<exists>bs pv. serialize_packet 3 [AddMsg (make_add_order_msg 9 Sell 101 5), DeleteMsg (make_delete_order_msg 4)] 77
     = Inr bs \<and> parse_packet bs = Some pv \<and>
     message_at pv 1 = Some (DeleteMsg (make_delete_order_msg 4)) \<and> message_at pv 2 = None"
proof -
  let ?ms = "[AddMsg (make_add_order_msg 9 Sell 101 5), DeleteMsg (make_delete_order_msg 4)]"
  have wf: "list_all wf_message ?ms" by (simp add: wire_simps del: wf_message.simps)
  have "serialize_packet 3 ?ms 77 = Inr (packet_image 3 ?ms 77)"
    by (rule serialize_packet_image [OF wf]) simp
  with parse_serialized_packet [OF wf this] show ?thesis by auto
qed

text \<open>
  C11. Parsing is faithful to every byte: a packet that parses and whose messages are all
  recognised is what \<open>serialize_packet\<close> writes for them.
\<close>

theorem serialize_parsed_packet:
  assumes "parse_packet bs = Some pv" and "pv_header pv = Some h"
    and "length ms = unat (decode_msg_count h)"
    and "\<forall>i < length ms. message_at pv i = Some (ms ! i)"
  shows "serialize_packet (decode_seq_num h) ms (decode_publish_tsc h) = Inr bs"
proof -
  obtain h' where pv: "pv = \<lparr>pv_header = Some h', pv_message_bytes = drop 14 bs\<rparr>"
    and h': "h' = as_header (subspan 0 14 bs)" and len: "length bs = 14 + unat (decode_msg_count h') * 24"
    by (rule parse_packet_Some [OF assms(1)])
  have h: "h' = h" using assms(2) pv by simp
  have slot: "image_message (ms ! i) = subspan (i * 24) 24 (drop 14 bs) \<and> wf_message (ms ! i)"
    if "i < length ms" for i
  proof -
    have "length (subspan (i * 24) 24 (pv_message_bytes pv)) = 24"
      using that len assms(3) by (simp add: pv h)
    with message_at_Some_image [of pv i "ms ! i"] assms(4) that show ?thesis by (simp add: pv)
  qed
  then have wf: "list_all wf_message ms" by (auto simp: list_all_iff in_set_conv_nth)
  have "map image_message ms = map (\<lambda>i. subspan (i * 24) 24 (drop 14 bs)) [0..<length ms]"
    using slot by (intro nth_equalityI) auto
  then have body: "concat (map image_message ms) = drop 14 bs"
    using concat_subspans [of "drop 14 bs" "length ms" 24] len assms(3) by (simp add: h)
  have "length ms \<le> 65535" using assms(3) unat_u16_bound [of "decode_msg_count h"] by simp
  moreover have "make_packet_header (decode_seq_num h) (of_nat (length ms)) (decode_publish_tsc h) = h"
    by (simp add: make_packet_header_def decode_seq_num_def decode_publish_tsc_def assms(3)
        wire_simps) (simp add: decode_msg_count_def wire_simps)
  then have "packet_image (decode_seq_num h) ms (decode_publish_tsc h) = bs"
    using body image_as_header [of "subspan 0 14 bs"] len h h'
    by (simp add: packet_image_def subspan_def)
  ultimately show ?thesis using serialize_packet_image [OF wf] by simp
qed

theorem serialize_parsed_packet_witness:
  "serialize_packet (decode_seq_num (make_packet_header 3 1 77)) [TradeMsg (make_trade_msg 4 5 6)]
     (decode_publish_tsc (make_packet_header 3 1 77))
   = Inr (packet_image 3 [TradeMsg (make_trade_msg 4 5 6)] 77)"
proof -
  let ?ms = "[TradeMsg (make_trade_msg 4 5 6)]"
  let ?pv = "\<lparr>pv_header = Some (make_packet_header 3 1 77),
    pv_message_bytes = image_message (TradeMsg (make_trade_msg 4 5 6))\<rparr>"
  have wf: "list_all wf_message ?ms" by (simp add: wire_simps del: wf_message.simps)
  have parse: "parse_packet (packet_image 3 ?ms 77) = Some ?pv"
    using parse_packet_image [OF wf, of 3 77] by simp
  show ?thesis
    by (rule serialize_parsed_packet [OF parse])
      (use message_at_packet_image [OF wf _ parse] in \<open>simp_all add: decode_make_header\<close>)
qed

text \<open>
  The framing check: a packet parses exactly when its length is that of its 14 byte header
  plus 24 bytes for each of the messages that bytes 4 and 5 announce; the rest of the packet is
  then its message area.
\<close>

theorem parse_packet_exact:
  "parse_packet bs =
     (if 14 \<le> length bs \<and> length bs = 14 + (256 * unat (bs ! 4) + unat (bs ! 5)) * 24
      then Some \<lparr>pv_header = Some (as_header (take 14 bs)), pv_message_bytes = drop 14 bs\<rparr>
      else None)"
  using parsed_count [of bs]
  by (simp add: parse_packet_def Let_def packet_size_bytes_def size_simps subspan_def)

text \<open>
  C12. A message slot of a parsed packet lies within the packet. The message is refused exactly
  when its first byte is no message type, or it is an add and its tenth byte is no side;
  otherwise it is well typed (the type character of its struct, a valid side, reserved bytes of the
  declared length) and its image is the slot, byte for byte.
\<close>

theorem message_at_exact:
  assumes "parse_packet bs = Some pv" and "pv_header pv = Some h"
    and "i < unat (decode_msg_count h)"
  shows "14 + i * 24 + 24 \<le> length bs \<and>
    (message_at pv i = None \<longleftrightarrow>
       message_type_from_char (bs ! (14 + i * 24)) = None \<or>
       bs ! (14 + i * 24) = 65 \<and> side_from_char (bs ! (14 + i * 24 + 9)) = None) \<and>
    (\<forall>m. message_at pv i = Some m \<longrightarrow>
       wf_message m \<and> image_message m = subspan (14 + i * 24) 24 bs)"
proof -
  obtain h' where pv: "pv = \<lparr>pv_header = Some h', pv_message_bytes = drop 14 bs\<rparr>"
    and len: "length bs = 14 + unat (decode_msg_count h') * 24"
    by (rule parse_packet_Some [OF assms(1)])
  have h: "h' = h" using assms(2) pv by simp
  let ?c = "subspan (i * 24) 24 (drop 14 bs)"
  have "Suc i * 24 \<le> unat (decode_msg_count h) * 24"
    using assms(3) by (intro mult_le_mono1) simp
  then have room: "14 + i * 24 + 24 \<le> length bs" using len by (simp add: h)
  have slot: "?c = subspan (14 + i * 24) 24 bs" by (simp add: subspan_def add.commute)
  have c: "length ?c = 24" using room by simp
  then obtain b rest where ne: "?c = b # rest" by (cases ?c) auto
  have hd: "hd ?c = bs ! (14 + i * 24)"
    using room by (simp add: slot subspan_def hd_drop_conv_nth hd_take add.commute)
  have "add_side (as_add ?c) = le_word [bs ! (14 + i * 24 + 9)]"
    using room by (simp add: as_add_def slot subspan_def take_Suc_conv_app_nth drop_take
        numeral_2_eq_2 hd_drop_conv_nth take_Suc add.commute add.left_commute)
  then have side: "add_side (as_add ?c) = bs ! (14 + i * 24 + 9)" by (simp only: le_word_single)
  have "message_at pv i = None \<longleftrightarrow>
      message_type_from_char (hd ?c) = None \<or>
      message_type_from_char (hd ?c) = Some AddOrder \<and> side_from_char (add_side (as_add ?c)) = None"
    using assms(3) ne by (simp add: message_at_def pv h kFixedMessageSize_def Let_def
        split: option.split message_type.split)
  moreover have "message_at pv i = Some m \<Longrightarrow>
      wf_message m \<and> image_message m = subspan (14 + i * 24) 24 bs" for m
    using message_at_Some_image [of pv i m] c slot by (simp add: pv)
  ultimately show ?thesis
    using room by (auto simp: hd side message_type_from_char_Some)
qed

theorem message_at_exact_witness:
  "\<exists>bs pv. parse_packet bs = Some pv \<and> message_at pv 0 = None \<and> length bs = 38"
proof -
  let ?bs = "be_bytes 4 (1 :: u32) @ [0, 1] @ replicate 8 0 @ replicate 24 (90 :: u8)"
  let ?pv = "\<lparr>pv_header = Some (as_header (take 14 ?bs)), pv_message_bytes = drop 14 ?bs\<rparr>"
  have parse: "parse_packet ?bs = Some ?pv" by code_simp
  have count: "0 < unat (decode_msg_count (as_header (take 14 ?bs)))" by code_simp
  have "message_type_from_char (?bs ! (14 + 0 * 24)) = None" by code_simp
  with message_at_exact [OF parse _ count] have "message_at ?pv 0 = None" by simp
  with parse show ?thesis by (intro exI [of _ ?bs] exI [of _ ?pv]) simp
qed

end
