(* ===== verification/Ordered_Map.thy ===== *)
theory Ordered_Map
  imports Feed_Prelude
begin

text \<open>
  The standard library's associative containers as the program uses them. \<open>std::map\<close> keeps
  its entries in key order, so it is an association list with strictly increasing keys;
  \<open>std::unordered_map\<close> (never iterated by the code) has the same lookups and takes the same
  representation. The contract that the components rely on is a locale, interpreted once on
  the lists.
\<close>

section \<open>The containers\<close>

type_synonym ('k, 'v) omap = "('k \<times> 'v) list"

definition om_inv :: "('k::linorder, 'v) omap \<Rightarrow> bool" where
  "om_inv m \<longleftrightarrow> sorted_wrt (<) (map fst m)"

text \<open>\<open>find(k)\<close>: \<open>None\<close> is \<open>end()\<close>.\<close>

definition om_find :: "('k, 'v) omap \<Rightarrow> 'k \<Rightarrow> 'v option" where
  "om_find m k = map_of m k"

text \<open>\<open>m[k] = v\<close>.\<close>

fun om_assign :: "'k::linorder \<Rightarrow> 'v \<Rightarrow> ('k, 'v) omap \<Rightarrow> ('k, 'v) omap" where
  "om_assign k v [] = [(k, v)]"
| "om_assign k v ((k', v') # m) =
     (if k < k' then (k, v) # (k', v') # m
      else if k = k' then (k, v) # m
      else (k', v') # om_assign k v m)"

text \<open>\<open>erase(find(k))\<close>, nothing when the key is absent.\<close>

fun om_erase :: "'k::linorder \<Rightarrow> ('k, 'v) omap \<Rightarrow> ('k, 'v) omap" where
  "om_erase k [] = []"
| "om_erase k ((k', v') # m) = (if k = k' then m else (k', v') # om_erase k m)"

text \<open>\<open>begin()\<close> and \<open>rbegin()\<close>: \<open>None\<close> for an empty container.\<close>

fun om_first :: "('k, 'v) omap \<Rightarrow> ('k \<times> 'v) option" where
  "om_first [] = None"
| "om_first (e # m) = Some e"

fun om_last :: "('k, 'v) omap \<Rightarrow> ('k \<times> 'v) option" where
  "om_last [] = None"
| "om_last (e # m) = Some (last (e # m))"

text \<open>A sum over the entries, used to state what the aggregates hold.\<close>

definition om_total :: "('k \<Rightarrow> 'v \<Rightarrow> nat) \<Rightarrow> ('k, 'v) omap \<Rightarrow> nat" where
  "om_total f m = sum_list (map (\<lambda>(k, v). f k v) m)"

section \<open>The contract\<close>

locale std_map =
  fixes empty :: "'m"
    and find :: "'m \<Rightarrow> 'k \<Rightarrow> 'v option"
    and assign :: "'k \<Rightarrow> 'v \<Rightarrow> 'm \<Rightarrow> 'm"
    and erase :: "'k \<Rightarrow> 'm \<Rightarrow> 'm"
    and count :: "'m \<Rightarrow> nat"
    and total :: "('k \<Rightarrow> 'v \<Rightarrow> nat) \<Rightarrow> 'm \<Rightarrow> nat"
    and invar :: "'m \<Rightarrow> bool"
  assumes invar_empty: "invar empty"
    and invar_assign: "invar m \<Longrightarrow> invar (assign k v m)"
    and invar_erase: "invar m \<Longrightarrow> invar (erase k m)"
    and find_empty: "find empty k = None"
    and find_assign: "invar m \<Longrightarrow> find (assign k v m) k' = (if k' = k then Some v else find m k')"
    and find_erase: "invar m \<Longrightarrow> find (erase k m) k' = (if k' = k then None else find m k')"
    and finite_keys: "invar m \<Longrightarrow> finite (dom (find m))"
    and count_keys: "invar m \<Longrightarrow> count m = card (dom (find m))"
    and total_keys: "invar m \<Longrightarrow> total f m = (\<Sum>k \<in> dom (find m). f k (the (find m k)))"
begin

lemma dom_assign: "invar m \<Longrightarrow> dom (find (assign k v m)) = insert k (dom (find m))"
  by (auto simp: find_assign dom_def)

lemma dom_erase: "invar m \<Longrightarrow> dom (find (erase k m)) = dom (find m) - {k}"
  by (auto simp: find_erase dom_def)

lemma count_assign:
  "invar m \<Longrightarrow> count (assign k v m) = (if find m k = None then Suc (count m) else count m)"
  by (simp add: count_keys invar_assign dom_assign finite_keys card_insert_if domIff)

lemma count_erase:
  "invar m \<Longrightarrow> count (erase k m) = (if find m k = None then count m else count m - 1)"
  by (simp add: count_keys invar_erase dom_erase finite_keys domIff)

lemma total_erase:
  assumes "invar m"
  shows "total f (erase k m) + (case find m k of None \<Rightarrow> 0 | Some v \<Rightarrow> f k v) = total f m"
proof -
  have "total f (erase k m) = (\<Sum>k' \<in> dom (find m) - {k}. f k' (the (find (erase k m) k')))"
    using assms by (simp add: total_keys invar_erase dom_erase)
  also have "\<dots> = (\<Sum>k' \<in> dom (find m) - {k}. f k' (the (find m k')))"
    using assms by (intro sum.cong) (auto simp: find_erase)
  finally show ?thesis
    using assms finite_keys [OF assms]
      sum.remove [of "dom (find m)" k "\<lambda>k. f k (the (find m k))"]
    by (cases "find m k") (auto simp: total_keys domIff)
qed

lemma total_assign:
  assumes "invar m"
  shows "total f (assign k v m) + (case find m k of None \<Rightarrow> 0 | Some w \<Rightarrow> f k w)
    = total f m + f k v"
proof -
  have "dom (find (erase k (assign k v m))) = dom (find (erase k m))"
    using assms by (auto simp: dom_assign dom_erase invar_assign)
  then have "total f (erase k (assign k v m)) = total f (erase k m)"
    using assms by (auto simp: total_keys invar_erase invar_assign find_erase find_assign
        dom_erase intro!: sum.cong)
  moreover have "total f (erase k (assign k v m)) + f k v = total f (assign k v m)"
    using total_erase [OF invar_assign [OF assms], of f k k v] assms by (simp add: find_assign)
  ultimately show ?thesis
    using total_erase [OF assms, of f k] by simp
qed

lemma total_mono: "invar m \<Longrightarrow> (\<And>k v. f k v \<le> g k v) \<Longrightarrow> total f m \<le> total g m"
  by (simp add: total_keys sum_mono)

lemma total_member: "invar m \<Longrightarrow> find m k = Some v \<Longrightarrow> f k v \<le> total f m"
  using total_erase [of m f k] by simp

lemma total_pos: "invar m \<Longrightarrow> find m k = Some v \<Longrightarrow> 0 < f k v \<Longrightarrow> 0 < total f m"
  by (drule (1) total_member [of _ _ _ f]) simp

lemma total_pos_member:
  assumes "invar m" and "0 < total f m"
  shows "\<exists>k v. find m k = Some v \<and> 0 < f k v"
proof (rule ccontr)
  assume "\<not> ?thesis"
  then have "total f m = 0"
    unfolding total_keys [OF assms(1)] by (intro sum.neutral) auto
  with assms(2) show False by simp
qed

end

locale sorted_std_map = std_map empty find assign erase count total invar
  for empty :: "'m"
    and find :: "'m \<Rightarrow> 'k::linorder \<Rightarrow> 'v option"
    and assign :: "'k \<Rightarrow> 'v \<Rightarrow> 'm \<Rightarrow> 'm"
    and erase :: "'k \<Rightarrow> 'm \<Rightarrow> 'm"
    and count :: "'m \<Rightarrow> nat"
    and total :: "('k \<Rightarrow> 'v \<Rightarrow> nat) \<Rightarrow> 'm \<Rightarrow> nat"
    and invar :: "'m \<Rightarrow> bool" +
  fixes first :: "'m \<Rightarrow> ('k \<times> 'v) option"
    and final :: "'m \<Rightarrow> ('k \<times> 'v) option"
  assumes first_iff: "invar m \<Longrightarrow>
      first m = Some (k, v) \<longleftrightarrow> find m k = Some v \<and> (\<forall>k'. find m k' \<noteq> None \<longrightarrow> k \<le> k')"
    and final_iff: "invar m \<Longrightarrow>
      final m = Some (k, v) \<longleftrightarrow> find m k = Some v \<and> (\<forall>k'. find m k' \<noteq> None \<longrightarrow> k' \<le> k)"
begin

lemma first_None_iff: "invar m \<Longrightarrow> first m = None \<longleftrightarrow> (\<forall>k. find m k = None)"
proof
  assume inv: "invar m" and none: "first m = None"
  show "\<forall>k. find m k = None"
  proof (rule ccontr)
    let ?k = "Min (dom (find m))"
    assume "\<not> (\<forall>k. find m k = None)"
    then have "dom (find m) \<noteq> {}" by (auto simp: dom_def)
    then obtain v where v: "find m ?k = Some v"
      using finite_keys [OF inv] Min_in [of "dom (find m)"] by blast
    have "?k \<le> k" if "find m k \<noteq> None" for k
      using finite_keys [OF inv] that by (intro Min_le) (simp_all add: domIff del: not_None_eq)
    with v have "first m = Some (?k, v)"
      by (simp add: first_iff [OF inv] del: not_None_eq)
    with none show False by simp
  qed
next
  assume "invar m" and "\<forall>k. find m k = None"
  then show "first m = None"
    using first_iff [of m] by (cases "first m") auto
qed

lemma final_None_iff: "invar m \<Longrightarrow> final m = None \<longleftrightarrow> (\<forall>k. find m k = None)"
proof
  assume inv: "invar m" and none: "final m = None"
  show "\<forall>k. find m k = None"
  proof (rule ccontr)
    let ?k = "Max (dom (find m))"
    assume "\<not> (\<forall>k. find m k = None)"
    then have "dom (find m) \<noteq> {}" by (auto simp: dom_def)
    then obtain v where v: "find m ?k = Some v"
      using finite_keys [OF inv] Max_in [of "dom (find m)"] by blast
    have "k \<le> ?k" if "find m k \<noteq> None" for k
      using finite_keys [OF inv] that by (intro Max_ge) (simp_all add: domIff del: not_None_eq)
    with v have "final m = Some (?k, v)"
      by (simp add: final_iff [OF inv] del: not_None_eq)
    with none show False by simp
  qed
next
  assume "invar m" and "\<forall>k. find m k = None"
  then show "final m = None"
    using final_iff [of m] by (cases "final m") auto
qed

lemma first_singleton:
  "invar m \<Longrightarrow> \<forall>k. find m k = None \<Longrightarrow> first (assign k v m) = Some (k, v)"
  by (simp add: first_iff invar_assign find_assign)

end

section \<open>The lists meet the contract\<close>

lemma om_inv_simps [simp]:
  "om_inv []"
  "om_inv ((k, v) # m) \<longleftrightarrow> (\<forall>k' \<in> fst ` set m. k < k') \<and> om_inv m"
  by (auto simp: om_inv_def)

lemma keys_om_assign: "fst ` set (om_assign k v m) = insert k (fst ` set m)"
  by (induction k v m rule: om_assign.induct) auto

lemma keys_om_erase: "fst ` set (om_erase k m) \<subseteq> fst ` set m"
  by (induction k m rule: om_erase.induct) auto

lemma om_inv_assign: "om_inv m \<Longrightarrow> om_inv (om_assign k v m)"
  by (induction k v m rule: om_assign.induct) (auto simp: keys_om_assign)

lemma om_inv_erase: "om_inv m \<Longrightarrow> om_inv (om_erase k m)"
  by (induction k m rule: om_erase.induct) (use keys_om_erase in fastforce)+

lemma om_find_eq: "om_find m = map_of m"
  by (rule ext) (simp add: om_find_def)

lemma dom_om_find: "dom (om_find m) = fst ` set m"
  by (simp add: om_find_eq dom_map_of_conv_image_fst)

lemma om_find_None_iff: "om_find m k = None \<longleftrightarrow> k \<notin> fst ` set m"
  by (simp add: om_find_def map_of_eq_None_iff)

lemma om_find_Some_key: "om_find m k = Some v \<Longrightarrow> k \<in> fst ` set m"
  using om_find_None_iff [of m k] by auto

lemma om_find_assign:
  "om_find (om_assign k v m) k' = (if k' = k then Some v else om_find m k')"
  by (induction k v m rule: om_assign.induct) (auto simp: om_find_def)

lemma om_find_erase:
  "om_inv m \<Longrightarrow> om_find (om_erase k m) k' = (if k' = k then None else om_find m k')"
proof (induction k m rule: om_erase.induct)
  case (1 k)
  then show ?case by (simp add: om_find_def)
next
  case (2 k l w m)
  then have "om_find m l = None"
    by (auto simp: om_find_None_iff)
  with 2 show ?case by (auto simp: om_find_def)
qed

lemma om_distinct: "om_inv m \<Longrightarrow> distinct (map fst m)"
  by (simp add: om_inv_def strict_sorted_iff)

lemma om_total_sum:
  "om_inv m \<Longrightarrow> om_total f m = (\<Sum>k \<in> fst ` set m. f k (the (om_find m k)))"
proof (induction m)
  case Nil
  then show ?case by (simp add: om_total_def)
next
  case (Cons e m)
  obtain k v where e: "e = (k, v)" by (cases e)
  with Cons.prems have new: "k \<notin> fst ` set m" and inv: "om_inv m" by auto
  have "(\<Sum>l \<in> fst ` set m. f l (the (om_find ((k, v) # m) l)))
      = (\<Sum>l \<in> fst ` set m. f l (the (om_find m l)))"
    using new by (intro sum.cong) (auto simp: om_find_def)
  with Cons.IH [OF inv] new e show ?case
    by (simp add: om_total_def om_find_def)
qed

lemma om_first_iff:
  assumes "om_inv m"
  shows "om_first m = Some (k, v) \<longleftrightarrow>
     om_find m k = Some v \<and> (\<forall>k'. om_find m k' \<noteq> None \<longrightarrow> k \<le> k')"
proof (cases m)
  case Nil
  then show ?thesis by (simp add: om_find_def)
next
  case (Cons e m')
  obtain l w where e: "e = (l, w)" by (cases e)
  have above: "k' = l \<or> l < k'" if "om_find m k' \<noteq> None" for k'
    using assms that by (auto simp: Cons e om_find_None_iff)
  have found: "om_find m l = Some w"
    by (simp add: Cons e om_find_def)
  show ?thesis
  proof
    assume "om_first m = Some (k, v)"
    then have "k = l" "v = w" by (simp_all add: Cons e)
    then show "om_find m k = Some v \<and> (\<forall>k'. om_find m k' \<noteq> None \<longrightarrow> k \<le> k')"
      using found above by (auto dest: less_imp_le)
  next
    assume rhs: "om_find m k = Some v \<and> (\<forall>k'. om_find m k' \<noteq> None \<longrightarrow> k \<le> k')"
    then have "k \<le> l" using found by auto
    then have "k = l" using above [of k] rhs by auto
    then show "om_first m = Some (k, v)"
      using rhs found by (simp add: Cons e)
  qed
qed

lemma om_last_iff:
  assumes inv: "om_inv m"
  shows "om_last m = Some (k, v) \<longleftrightarrow>
     om_find m k = Some v \<and> (\<forall>k'. om_find m k' \<noteq> None \<longrightarrow> k' \<le> k)"
proof (cases m rule: rev_cases)
  case Nil
  then show ?thesis by (simp add: om_find_def)
next
  case (snoc m' e)
  obtain l w where e: "e = (l, w)" by (cases e)
  have "\<forall>k' \<in> fst ` set m'. k' < l"
    using inv by (auto simp: snoc e om_inv_def sorted_wrt_append)
  then have below: "k' = l \<or> k' < l" if "om_find m k' \<noteq> None" for k'
    using that by (auto simp: snoc e om_find_None_iff)
  have last: "om_last m = Some (l, w)"
    by (cases m') (auto simp: snoc e)
  have "(l, w) \<in> set m" by (simp add: snoc e)
  then have found: "om_find m l = Some w"
    using om_distinct [OF inv] by (simp add: om_find_def)
  show ?thesis
  proof
    assume "om_last m = Some (k, v)"
    then have "k = l" "v = w" by (simp_all add: last)
    then show "om_find m k = Some v \<and> (\<forall>k'. om_find m k' \<noteq> None \<longrightarrow> k' \<le> k)"
      using found below by (auto dest: less_imp_le)
  next
    assume rhs: "om_find m k = Some v \<and> (\<forall>k'. om_find m k' \<noteq> None \<longrightarrow> k' \<le> k)"
    then have "l \<le> k" using found by auto
    then have "k = l" using below [of k] rhs by auto
    then show "om_last m = Some (k, v)"
      using rhs found by (simp add: last)
  qed
qed

lemma om_count: "om_inv m \<Longrightarrow> length m = card (dom (om_find m))"
  using distinct_card [of "map fst m"] om_distinct [of m] by (simp add: dom_om_find)

interpretation om: sorted_std_map "[]" om_find om_assign om_erase length om_total om_inv
  om_first om_last
  by unfold_locales
    (simp_all add: om_inv_assign om_inv_erase om_find_assign om_find_erase om_first_iff
      om_last_iff om_count om_total_sum dom_om_find om_find_eq [of "[]"] del: not_None_eq)

lemmas om_simps [map_simps] =
  om_find_assign om_find_erase om_inv_assign om_inv_erase om.find_empty om.invar_empty

text \<open>Two ordered maps with the same lookups are the same container.\<close>

lemma om_ext:
  assumes "om_inv m" and "om_inv m'" and "\<And>k. om_find m k = om_find m' k"
  shows "m = m'"
proof -
  have entries: "e \<in> set n \<longleftrightarrow> om_find n (fst e) = Some (snd e)" if "om_inv n" for n and e
    using om_distinct [OF that] by (simp add: om_find_def)
  have "e \<in> set m \<longleftrightarrow> e \<in> set m'" for e
    using entries [OF assms(1)] entries [OF assms(2)] assms(3) by simp
  then have "set m = set m'" by blast
  moreover have "map fst m = map fst m'"
    using assms \<open>set m = set m'\<close> unfolding om_inv_def
    by (intro strict_sorted_equal) simp_all
  moreover have "inj_on fst (set m)"
    using om_distinct [OF assms(1)] by (simp add: distinct_map)
  ultimately show ?thesis
    using inj_on_map_eq_map [of fst m m'] by simp
qed

text \<open>\<open>m[k]\<close> on the right of an assignment: a missing entry starts at zero.\<close>

definition om_index :: "('k, 'v::zero) omap \<Rightarrow> 'k \<Rightarrow> 'v" where
  "om_index m k = (case om_find m k of None \<Rightarrow> 0 | Some v \<Rightarrow> v)"

lemma om_index_simps [map_simps]:
  "om_index [] k = 0"
  "om_index (om_assign k v m) k' = (if k' = k then v else om_index m k')"
  "om_inv m \<Longrightarrow> om_index (om_erase k m) k' = (if k' = k then 0 else om_index m k')"
  by (auto simp: om_index_def om_find_assign om_find_erase om.find_empty)

lemma om_erase_absent: "om_find m k = None \<Longrightarrow> om_erase k m = m"
  by (induction k m rule: om_erase.induct) (auto simp: om_find_def split: if_splits)

lemma length_om_erase: "om_find m k = Some v \<Longrightarrow> length (om_erase k m) < length m"
  by (induction k m rule: om_erase.induct) (auto simp: om_find_def split: if_splits)

lemma om_assign_erase: "om_inv m \<Longrightarrow> om_assign k v (om_erase k m) = om_assign k v m"
  by (rule om_ext) (auto simp: map_simps)

lemma om_erase_assign: "om_inv m \<Longrightarrow> om_erase k (om_assign k v m) = om_erase k m"
  by (rule om_ext) (auto simp: map_simps)

lemma om_assign_assign: "om_inv m \<Longrightarrow> om_assign k v (om_assign k w m) = om_assign k v m"
  by (rule om_ext) (auto simp: map_simps)

end
