(* ===== verification/Packet_History.thy ===== *)
theory Packet_History
  imports Ordered_Map
begin

text \<open>
  \<open>PacketHistory\<close> of \<open>include/bmdfh/recovery.hpp\<close> and \<open>src/common/recovery.cpp\<close>: the published packets by
  sequence number. Both operations hold the mutex for their whole access, so each is one
  atomic step on the map.
\<close>

type_synonym packet_history = "(u32, bytes) omap"

definition history_store :: "u32 \<Rightarrow> bytes \<Rightarrow> packet_history \<Rightarrow> packet_history" where
  "history_store seq_num packet packets = om_assign seq_num packet packets"

text \<open>
  The loop runs over a 32-bit counter up to and including \<open>end_seq\<close>; the test for the largest
  value before the increment is what ends it when \<open>end_seq\<close> is that value.
\<close>

function lookup_loop :: "packet_history \<Rightarrow> u32 \<Rightarrow> u32 \<Rightarrow> bytes list" where
  "lookup_loop packets seq_num end_seq =
     (if seq_num \<le> end_seq
      then (case om_find packets seq_num of Some packet \<Rightarrow> [packet] | None \<Rightarrow> []) @
           (if seq_num = - 1 then [] else lookup_loop packets (seq_num + 1) end_seq)
      else [])"
  by pat_completeness auto
termination
proof (relation "measure (\<lambda>(packets, seq_num, end_seq). 2 ^ 32 - unat seq_num)")
  fix packets :: packet_history and seq_num end_seq :: u32
  assume "seq_num \<noteq> - 1"
  then have "unat (seq_num + 1) = unat seq_num + 1"
    by (metis add.commute unat_eq_zero unatSuc add_eq_0_iff2 Suc_eq_plus1)
  then show "((packets, seq_num + 1, end_seq), (packets, seq_num, end_seq))
      \<in> measure (\<lambda>(packets, seq_num, end_seq). 2 ^ 32 - unat seq_num)"
    using unat_u32_bound [of seq_num] by simp
qed simp

declare lookup_loop.simps [simp del]

definition lookup_range :: "u32 \<Rightarrow> u32 \<Rightarrow> packet_history \<Rightarrow> bytes list" where
  "lookup_range start_seq end_seq packets =
     (if end_seq < start_seq then [] else lookup_loop packets start_seq end_seq)"

section \<open>The range that is returned\<close>

definition present :: "packet_history \<Rightarrow> nat \<Rightarrow> bytes list" where
  "present packets n =
     (case om_find packets (of_nat n) of Some packet \<Rightarrow> [packet] | None \<Rightarrow> [])"

lemma unat_minus_one_u32: "unat (- 1 :: u32) = 4294967295"
  by (simp add: unsigned_minus_1_eq_mask mask_eq_exp_minus_1)

lemma lookup_loop_range:
  "lookup_loop packets s e = concat (map (present packets) [unat s..<Suc (unat e)])"
proof (induction packets s e rule: lookup_loop.induct)
  case (1 packets s e)
  show ?case
  proof (cases "s \<le> e")
    case False
    then have "unat e < unat s" by (simp add: word_less_nat_alt [symmetric])
    with False show ?thesis by (simp add: lookup_loop.simps)
  next
    case le: True
    have here: "present packets (unat s) = (case om_find packets s of Some p \<Rightarrow> [p] | None \<Rightarrow> [])"
      by (simp add: present_def)
    have split: "[unat s..<Suc (unat e)] = unat s # [Suc (unat s)..<Suc (unat e)]"
      using le by (simp add: upt_conv_Cons word_le_nat_alt)
    show ?thesis
    proof (cases "s = - 1")
      case True
      then have "unat e = unat s"
        using le unat_u32_bound [of e] by (simp add: word_le_nat_alt True unat_minus_one_u32)
      with True le here split show ?thesis
        by (subst lookup_loop.simps) (simp del: upt_Suc)
    next
      case False
      then have "unat (s + 1) = Suc (unat s)"
        by (metis add.commute unat_eq_zero unatSuc add_eq_0_iff2)
      with False le here split "1.IH" show ?thesis
        by (subst lookup_loop.simps) (simp del: upt_Suc)
    qed
  qed
qed

lemma lookup_range_eq:
  "lookup_range s e packets = concat (map (present packets) [unat s..<Suc (unat e)])"
  by (auto simp: lookup_range_def lookup_loop_range word_less_nat_alt)

section \<open>The entries that are returned\<close>

definition in_range :: "nat \<Rightarrow> nat \<Rightarrow> u32 \<times> bytes \<Rightarrow> bool" where
  "in_range a b e \<longleftrightarrow> a \<le> unat (fst e) \<and> unat (fst e) < b"

lemma filter_in_range_Suc:
  "om_inv h \<Longrightarrow> a \<le> b \<Longrightarrow> filter (in_range a (Suc b)) h =
     filter (in_range a b) h @ filter (\<lambda>e. unat (fst e) = b) h"
proof (induction h)
  case Nil
  then show ?case by simp
next
  case (Cons e h)
  obtain k v where e: "e = (k, v)" by (cases e)
  have later: "unat k < unat (fst x)" if "x \<in> set h" for x
    using Cons.prems(1) that by (auto simp: e word_less_nat_alt)
  show ?case
  proof (cases "unat k < b")
    case True
    with Cons show ?thesis by (auto simp: e in_range_def)
  next
    case False
    then have "filter (in_range a b) h = []"
      using later by (fastforce simp: filter_empty_conv in_range_def)
    with False Cons show ?thesis by (auto simp: e in_range_def [of _ _ "(k, v)"])
  qed
qed

lemma present_entries:
  "om_inv h \<Longrightarrow> b < 2 ^ 32 \<Longrightarrow> present h b = map snd (filter (\<lambda>e. unat (fst e) = b) h)"
proof (induction h)
  case Nil
  then show ?case by (simp add: present_def om.find_empty)
next
  case (Cons e h)
  obtain k v where e: "e = (k, v)" by (cases e)
  have b: "unat (of_nat b :: u32) = b" using Cons.prems(2) by (simp add: unat_of_nat_u32)
  show ?case
  proof (cases "k = of_nat b")
    case True
    have "filter (\<lambda>e. unat (fst e) = b) h = []"
      using Cons.prems(1) by (fastforce simp: e filter_empty_conv True word_less_nat_alt b)
    with True show ?thesis by (simp add: e b present_def om_find_def)
  next
    case False
    then have "unat k \<noteq> b" by auto
    with False Cons show ?thesis by (simp add: e present_def om_find_def)
  qed
qed

lemma lookup_entries:
  "om_inv h \<Longrightarrow> b \<le> 2 ^ 32 \<Longrightarrow>
     concat (map (present h) [a..<b]) = map snd (filter (in_range a b) h)"
proof (induction b)
  case 0
  then show ?case by (simp add: in_range_def)
next
  case (Suc b)
  show ?case
  proof (cases "a \<le> b")
    case True
    with Suc show ?thesis
      by (simp add: filter_in_range_Suc present_entries)
  next
    case False
    then have "filter (in_range a (Suc b)) h = []"
      by (auto simp: filter_empty_conv in_range_def)
    with False show ?thesis by simp
  qed
qed

lemma lookup_range_entries:
  assumes "om_inv h"
  shows "lookup_range s e h = map snd (filter (\<lambda>(k, p). s \<le> k \<and> k \<le> e) h)"
proof -
  have "in_range (unat s) (Suc (unat e)) = (\<lambda>(k, p). s \<le> k \<and> k \<le> e)"
    by (auto simp: in_range_def word_le_nat_alt fun_eq_iff)
  then show ?thesis
    using unat_u32_bound [of e] assms by (simp add: lookup_range_eq lookup_entries del: upt_Suc)
qed

lemma history_store_find [map_simps]:
  "om_find (history_store n p h) k = (if k = n then Some p else om_find h k)"
  "om_inv h \<Longrightarrow> om_inv (history_store n p h)"
  by (simp_all add: history_store_def map_simps)

section \<open>The interface of the history\<close>

text \<open>
  What the publisher and the recovery server rely on: the history is a map, and a lookup lists
  what it holds of the range.
\<close>

locale packet_store =
  fixes store :: "u32 \<Rightarrow> 'p \<Rightarrow> 'h \<Rightarrow> 'h"
    and lookup :: "u32 \<Rightarrow> u32 \<Rightarrow> 'h \<Rightarrow> 'p list"
    and find :: "'h \<Rightarrow> u32 \<Rightarrow> 'p option"
    and invar :: "'h \<Rightarrow> bool"
  assumes store_invar: "invar h \<Longrightarrow> invar (store n p h)"
    and find_store: "invar h \<Longrightarrow> find (store n p h) k = (if k = n then Some p else find h k)"
    and lookup_found: "invar h \<Longrightarrow>
      lookup s e h = concat (map (\<lambda>n. case find h (of_nat n) of Some p \<Rightarrow> [p] | None \<Rightarrow> []) [unat s..<Suc (unat e)])"
begin

text \<open>A range that the history covers is returned whole and in order.\<close>

lemma lookup_complete:
  assumes "invar h" and "\<And>n. unat s \<le> n \<Longrightarrow> n \<le> unat e \<Longrightarrow> find h (of_nat n) = Some (f n)"
  shows "lookup s e h = map f [unat s..<Suc (unat e)]"
proof -
  have "map (\<lambda>n. case find h (of_nat n) of Some p \<Rightarrow> [p] | None \<Rightarrow> []) [unat s..<Suc (unat e)]
      = map (\<lambda>n. [f n]) [unat s..<Suc (unat e)]"
    using assms(2) by (intro map_cong) (simp_all del: upt_Suc)
  then show ?thesis by (simp only: lookup_found [OF assms(1)] concat_map_singleton)
qed

text \<open>A range has no more packets than numbers, and only packets of the history.\<close>

lemma lookup_count:
  assumes "invar h" and "s \<le> e"
  shows "length (lookup s e h) \<le> unat (e - s) + 1"
proof -
  have "length (concat (map (\<lambda>n. case find h (of_nat n) of Some p \<Rightarrow> [p] | None \<Rightarrow> []) ns)) \<le> length ns" for ns
    by (induction ns) (auto split: option.splits)
  from this [of "[unat s..<Suc (unat e)]"] show ?thesis
    using assms unat_sub [OF assms(2)] by (simp add: lookup_found word_le_nat_alt del: upt_Suc)
qed

lemma lookup_all:
  assumes "invar h" and "\<And>k p. find h k = Some p \<Longrightarrow> P p"
  shows "list_all P (lookup s e h)"
  using assms by (auto simp: lookup_found list_all_iff simp del: upt_Suc split: option.splits)

text \<open>A packet that is stored outside a range changes nothing about it.\<close>

lemma lookup_store_outside:
  assumes "invar h" and "k < s \<or> e < k"
  shows "lookup s e (store k p h) = lookup s e h"
proof -
  have "find (store k p h) (of_nat n) = find h (of_nat n)" if "unat s \<le> n" "n \<le> unat e" for n
  proof -
    have "unat (of_nat n :: u32) = n"
      using that(2) unat_u32_bound [of e] by (intro unat_of_nat_u32) linarith
    with assms that show ?thesis by (auto simp: find_store word_less_nat_alt)
  qed
  then show ?thesis
    unfolding lookup_found [OF assms(1)] lookup_found [OF store_invar [OF assms(1)]]
    by (intro arg_cong [where f = concat] map_cong) (simp_all del: upt_Suc)
qed

end

interpretation history: packet_store history_store lookup_range om_find om_inv
  by unfold_locales (simp_all add: map_simps lookup_range_eq present_def [abs_def] del: upt_Suc)

section \<open>Property of the history\<close>

text \<open>
  C20. A lookup returns exactly the stored packets whose numbers lie in the closed range, in
  ascending order, also when the range ends at the largest sequence number, where the 32 bit loop
  counter cannot be increased any more.
\<close>

theorem lookup_range_exact:
  assumes "om_inv h"
  shows "lookup_range s e h = map snd (filter (\<lambda>(k, p). s \<le> k \<and> k \<le> e) h) \<and>
    lookup_range s e (history_store n p h) =
      map snd (filter (\<lambda>(k, p). s \<le> k \<and> k \<le> e) (om_assign n p h))"
  using lookup_range_entries [OF assms] lookup_range_entries [of "history_store n p h"]
    history_store_find(2) [OF assms]
  by (simp add: history_store_def)

theorem lookup_range_exact_witness:
  "lookup_range (- 2) (- 1) (history_store (- 1) [7] [(4, [1]), (- 2, [2])]) = [[2], [7]]"
proof -
  have "(4 :: u32) < - 2" by code_simp
  then have "om_inv [(4 :: u32, [1 :: u8]), (- 2, [2])]" by simp
  from lookup_range_exact [OF this, of "- 2" "- 1" "- 1" "[7]"]
  have "lookup_range (- 2) (- 1) (history_store (- 1) [7] [(4, [1]), (- 2, [2])]) =
      map snd (filter (\<lambda>(k, p). - 2 \<le> k \<and> k \<le> - 1)
        (om_assign (- 1) [7] [(4 :: u32, [1 :: u8]), (- 2, [2])]))" by blast
  also have "\<dots> = [[2], [7]]" by code_simp
  finally show ?thesis .
qed

end
