(* ===== verification/Stream_Socket.thy ===== *)
theory Stream_Socket
  imports Byte_Order
begin

text \<open>
  A connected TCP socket and the two transfer loops of \<open>src/common/recovery.cpp\<close>. The kernel
  is a script: how many bytes each coming \<open>send\<close> takes, and in which pieces the peer's bytes
  arrive. When a script is used up, the next call does not return.
\<close>

datatype send_answer = Sent nat | Send_error errno

datatype recv_event = Arrived bytes | Peer_closed | Recv_error errno

record tcp_socket =
  send_answers :: "send_answer list"
  sent_bytes :: bytes
  recv_events :: "recv_event list"

section \<open>Sending\<close>

text \<open>
  \<open>send\<close> never takes more than it is offered. The code passes no \<open>MSG_NOSIGNAL\<close> and sets no handler, so
  a \<open>send\<close> on a connection that the peer has broken raises \<open>SIGPIPE\<close>, which ends the process before
  \<open>send\<close> can return \<open>EPIPE\<close>.
\<close>

function send_all :: "bytes \<Rightarrow> tcp_socket \<Rightarrow> tcp_socket outcome" where
  "send_all data sock =
     (if data = [] then (None, sock)
      else case send_answers sock of
        [] \<Rightarrow> (Some Blocks, sock)
      | Send_error e # answers \<Rightarrow>
          if e = EPIPE then (Some Killed, sock\<lparr>send_answers := answers\<rparr>)
          else if e = EINTR then send_all data (sock\<lparr>send_answers := answers\<rparr>)
          else (Some (Throws (Socket_error ''send'' e)), sock\<lparr>send_answers := answers\<rparr>)
      | Sent n # answers \<Rightarrow>
          if n = 0
          then throw ''send returned zero bytes'' (sock\<lparr>send_answers := answers\<rparr>)
          else send_all (drop n data)
                 (sock\<lparr>send_answers := answers, sent_bytes := sent_bytes sock @ take n data\<rparr>))"
  by pat_completeness auto
termination
  by (relation "measure (\<lambda>(data, sock). length (send_answers sock))") auto

declare send_all.simps [simp del]

section \<open>Receiving\<close>

text \<open>
  \<open>recv\<close> takes what has arrived, up to the space that is offered; the rest stays queued. The
  end of the stream stays where it is.
\<close>

function recv_loop :: "bytes \<Rightarrow> nat \<Rightarrow> tcp_socket \<Rightarrow> (bytes option, tcp_socket) result" where
  "recv_loop got want sock =
     (if want \<le> length got then (Inr (Some got), sock)
      else case recv_events sock of
        [] \<Rightarrow> (Inl Blocks, sock)
      | Recv_error e # events \<Rightarrow>
          if e = EINTR then recv_loop got want (sock\<lparr>recv_events := events\<rparr>)
          else (Inl (Throws (Socket_error ''recv'' e)), sock\<lparr>recv_events := events\<rparr>)
      | Peer_closed # events \<Rightarrow>
          if got = [] then (Inr None, sock)
          else fail ''unexpected EOF on recovery socket'' sock
      | Arrived bs # events \<Rightarrow>
          let space = want - length got
          in recv_loop (got @ take space bs) want
               (sock\<lparr>recv_events :=
                  (if length bs \<le> space then events else Arrived (drop space bs) # events)\<rparr>))"
  by pat_completeness auto
termination
  by (relation "measures [\<lambda>(got, want, sock). want - length got,
      \<lambda>(got, want, sock). length (recv_events sock)]") auto

declare recv_loop.simps [simp del]

definition recv_exact_or_eof :: "nat \<Rightarrow> tcp_socket \<Rightarrow> (bytes option, tcp_socket) result" where
  "recv_exact_or_eof want sock = recv_loop [] want sock"

section \<open>What a send delivers\<close>

fun usable :: "send_answer \<Rightarrow> bool" where
  "usable (Sent n) \<longleftrightarrow> 0 < n"
| "usable (Send_error e) \<longleftrightarrow> e = EINTR"

fun is_sent :: "send_answer \<Rightarrow> bool" where
  "is_sent (Sent n) \<longleftrightarrow> True"
| "is_sent (Send_error e) \<longleftrightarrow> False"

definition sends :: "send_answer list \<Rightarrow> nat" where
  "sends answers = length (filter is_sent answers)"

lemma sends_simps [simp]:
  "sends [] = 0" "sends (Sent n # as) = Suc (sends as)" "sends (Send_error e # as) = sends as"
  "sends (as @ bs) = sends as + sends bs" "sends (replicate k (Sent n)) = k"
  by (simp_all add: sends_def)

text \<open>One step of the loop.\<close>

lemma send_all_steps:
  "send_all [] sock = (None, sock)"
  "data \<noteq> [] \<Longrightarrow> send_answers sock = [] \<Longrightarrow> send_all data sock = (Some Blocks, sock)"
  "data \<noteq> [] \<Longrightarrow> send_answers sock = Sent n # answers \<Longrightarrow> send_all data sock =
     (if n = 0 then throw ''send returned zero bytes'' (sock\<lparr>send_answers := answers\<rparr>)
      else send_all (drop n data)
        (sock\<lparr>send_answers := answers, sent_bytes := sent_bytes sock @ take n data\<rparr>))"
  "data \<noteq> [] \<Longrightarrow> send_answers sock = Send_error e # answers \<Longrightarrow> send_all data sock =
     (if e = EPIPE then (Some Killed, sock\<lparr>send_answers := answers\<rparr>)
      else if e = EINTR then send_all data (sock\<lparr>send_answers := answers\<rparr>)
      else (Some (Throws (Socket_error ''send'' e)), sock\<lparr>send_answers := answers\<rparr>))"
  by (simp_all add: send_all.simps)

text \<open>
  Whatever happens, the bytes that were sent are a prefix of the data, and nothing else of the
  socket's outgoing stream or of its queue changes.
\<close>

definition wrote :: "bytes \<Rightarrow> tcp_socket \<Rightarrow> tcp_socket outcome \<Rightarrow> bool" where
  "wrote data sock r \<longleftrightarrow> (\<exists>k \<le> length data. sent_bytes (snd r) = sent_bytes sock @ take k data \<and>
     recv_events (snd r) = recv_events sock \<and> (fst r = None \<longleftrightarrow> k = length data))"

lemma wrote_nothing:
  "wrote [] sock (None, sock)"
  "data \<noteq> [] \<Longrightarrow> wrote data sock (Some h, sock)"
  "data \<noteq> [] \<Longrightarrow> wrote data sock (Some h, sock\<lparr>send_answers := answers\<rparr>)"
  by (auto simp: wrote_def intro: exI [of _ 0])

lemma wrote_skip: "wrote data (sock\<lparr>send_answers := answers\<rparr>) r \<longleftrightarrow> wrote data sock r"
  by (simp add: wrote_def)

lemma wrote_more:
  assumes "wrote (drop n data) (sock\<lparr>send_answers := answers, sent_bytes := sent_bytes sock @ take n data\<rparr>) r"
  shows "wrote data sock r"
proof -
  obtain k where "k \<le> length (drop n data)" "recv_events (snd r) = recv_events sock"
    "sent_bytes (snd r) = sent_bytes sock @ take n data @ take k (drop n data)"
    "fst r = None \<longleftrightarrow> k = length (drop n data)"
    using assms by (auto simp: wrote_def)
  moreover have "take n data @ take k (drop n data) = take (min n (length data) + k) data"
    by (simp add: take_add min_def)
  ultimately show ?thesis
    unfolding wrote_def by (intro exI [of _ "min n (length data) + k"]) auto
qed

lemma send_all_wrote: "wrote data sock (send_all data sock)"
proof (induction data sock rule: send_all.induct)
  case (1 data sock)
  consider "data = []" | "data \<noteq> []" "send_answers sock = []"
    | n answers where "data \<noteq> []" "send_answers sock = Sent n # answers"
    | e answers where "data \<noteq> []" "send_answers sock = Send_error e # answers"
    by (metis list.exhaust send_answer.exhaust)
  then show ?case
  proof cases
    case (3 n answers)
    with "1.IH"(1) [OF 3 refl] show ?thesis
      by (cases "n = 0") (auto simp: send_all_steps throw_def wrote_nothing dest: wrote_more)
  next
    case (4 e answers)
    with "1.IH"(2) [OF 4 refl] show ?thesis
      by (cases "e = EINTR") (simp_all add: send_all_steps wrote_nothing wrote_skip)
  qed (simp_all add: send_all_steps wrote_nothing)
qed

text \<open>With answers that make progress, everything is sent.\<close>

lemma send_all_delivers:
  "list_all usable (send_answers sock) \<Longrightarrow> length data \<le> sends (send_answers sock) \<Longrightarrow>
     \<exists>answers. send_all data sock =
       (None, sock\<lparr>send_answers := answers, sent_bytes := sent_bytes sock @ data\<rparr>) \<and>
       list_all usable answers \<and> sends (send_answers sock) - length data \<le> sends answers"
proof (induction data sock rule: send_all.induct)
  case (1 data sock)
  consider "data = []" | n answers where "data \<noteq> []" "send_answers sock = Sent n # answers" "n \<noteq> 0"
    | answers where "data \<noteq> []" "send_answers sock = Send_error EINTR # answers"
    using "1.prems" by (cases "send_answers sock"; cases "hd (send_answers sock)"; cases data) auto
  then show ?case
  proof cases
    case 1
    then show ?thesis
      using "1.prems" by (auto simp: send_all_steps intro!: exI [of _ "send_answers sock"])
  next
    case (2 n answers)
    then have less: "length (drop n data) < length data" by (cases data) auto
    then have "length (drop n data) \<le> sends answers" using "1.prems"(2) 2(2) by simp
    with "1.IH"(1) [OF 2(1,2) refl 2(3)] "1.prems" 2 obtain rest where
      "send_all (drop n data)
         (sock\<lparr>send_answers := answers, sent_bytes := sent_bytes sock @ take n data\<rparr>)
       = (None, sock\<lparr>send_answers := rest, sent_bytes := sent_bytes sock @ data\<rparr>)"
      "list_all usable rest" "sends answers - length (drop n data) \<le> sends rest"
      by auto
    moreover have "Suc (sends answers) - length data \<le> sends answers - length (drop n data)"
      using less by arith
    ultimately show ?thesis
      using 2 by (intro exI [of _ rest]) (simp add: send_all_steps)
  next
    case (3 answers)
    with "1.IH"(2) [OF 3 refl] "1.prems" show ?thesis by (simp add: send_all_steps)
  qed
qed

text \<open>Only a broken connection ends the process.\<close>

definition unbroken :: "tcp_socket \<Rightarrow> bool" where
  "unbroken sock \<longleftrightarrow> Send_error EPIPE \<notin> set (send_answers sock)"

lemma send_all_unbroken:
  "unbroken sock \<Longrightarrow> fst (send_all data sock) \<noteq> Some Killed \<and> unbroken (snd (send_all data sock))"
proof (induction data sock rule: send_all.induct)
  case (1 data sock)
  consider "data = []" | "data \<noteq> []" "send_answers sock = []"
    | n answers where "data \<noteq> []" "send_answers sock = Sent n # answers"
    | e answers where "data \<noteq> []" "send_answers sock = Send_error e # answers"
    by (metis list.exhaust send_answer.exhaust)
  then show ?case
  proof cases
    case (3 n answers)
    with "1.IH"(1) [OF 3 refl] "1.prems" show ?thesis
      by (simp add: send_all_steps throw_def unbroken_def)
  next
    case (4 e answers)
    with "1.IH"(2) [OF 4 refl] "1.prems" show ?thesis
      by (auto simp: send_all_steps unbroken_def)
  qed (use "1.prems" in \<open>simp_all add: send_all_steps\<close>)
qed

section \<open>What a receive gets\<close>

fun arrived :: "recv_event \<Rightarrow> bytes" where
  "arrived (Arrived bs) = bs"
| "arrived (Recv_error e) = []"
| "arrived Peer_closed = []"

fun undisturbed :: "recv_event \<Rightarrow> bool" where
  "undisturbed (Arrived bs) \<longleftrightarrow> True"
| "undisturbed (Recv_error e) \<longleftrightarrow> e = EINTR"
| "undisturbed Peer_closed \<longleftrightarrow> False"

text \<open>The events bring the bytes \<open>bs\<close> in some pieces, interrupted or not, and nothing else.\<close>

definition delivers :: "recv_event list \<Rightarrow> bytes \<Rightarrow> bool" where
  "delivers events bs \<longleftrightarrow> list_all undisturbed events \<and> concat (map arrived events) = bs"

lemma delivers_simps [simp]:
  "delivers [] bs \<longleftrightarrow> bs = []"
  "delivers [Arrived cs] bs \<longleftrightarrow> cs = bs"
  by (auto simp: delivers_def)

lemma delivers_append:
  "delivers es bs \<Longrightarrow> delivers fs cs \<Longrightarrow> delivers (es @ fs) (bs @ cs)"
  by (simp add: delivers_def)

text \<open>One step of the loop, while bytes are missing.\<close>

lemma recv_loop_steps:
  "want \<le> length got \<Longrightarrow> recv_loop got want sock = (Inr (Some got), sock)"
  "\<not> want \<le> length got \<Longrightarrow> recv_events sock = [] \<Longrightarrow> recv_loop got want sock = (Inl Blocks, sock)"
  "\<not> want \<le> length got \<Longrightarrow> recv_events sock = Recv_error e # events \<Longrightarrow> recv_loop got want sock =
     (if e = EINTR then recv_loop got want (sock\<lparr>recv_events := events\<rparr>)
      else (Inl (Throws (Socket_error ''recv'' e)), sock\<lparr>recv_events := events\<rparr>))"
  "\<not> want \<le> length got \<Longrightarrow> recv_events sock = Peer_closed # events \<Longrightarrow> recv_loop got want sock =
     (if got = [] then (Inr None, sock) else fail ''unexpected EOF on recovery socket'' sock)"
  "\<not> want \<le> length got \<Longrightarrow> recv_events sock = Arrived bs # events \<Longrightarrow> recv_loop got want sock =
     recv_loop (got @ take (want - length got) bs) want (sock\<lparr>recv_events :=
       (if length bs \<le> want - length got then events else Arrived (drop (want - length got) bs) # events)\<rparr>)"
  by (simp_all add: recv_loop.simps Let_def)

text \<open>What one arrival takes of the bytes that are waited for.\<close>

lemma delivers_arrival:
  assumes "delivers (Arrived ds # events) (bs @ cs)"
  shows "\<exists>bs'. bs = take (length bs) ds @ bs' \<and>
    delivers (if length ds \<le> length bs then events else Arrived (drop (length bs) ds) # events) (bs' @ cs)"
proof (cases "length ds \<le> length bs")
  case True
  have "ds @ concat (map arrived events) = bs @ cs" "list_all undisturbed events"
    using assms by (simp_all add: delivers_def)
  then have cut: "ds = take (length ds) bs" "concat (map arrived events) = drop (length ds) bs @ cs"
    using True by (auto simp: append_eq_append_conv_if)
  then have "bs = ds @ drop (length ds) bs" by (metis append_take_drop_id)
  with True cut(2) assms show ?thesis
    by (intro exI [of _ "drop (length ds) bs"]) (simp add: delivers_def)
next
  case False
  with assms show ?thesis
    by (intro exI [of _ "[]"]) (auto simp: delivers_def append_eq_append_conv_if)
qed

lemma recv_loop_delivers:
  "delivers (recv_events sock) (bs @ cs) \<Longrightarrow> length got + length bs = want \<Longrightarrow>
     \<exists>events. recv_loop got want sock = (Inr (Some (got @ bs)), sock\<lparr>recv_events := events\<rparr>) \<and>
       delivers events cs"
proof (induction got want sock arbitrary: bs rule: recv_loop.induct)
  case (1 got want sock)
  show ?case
  proof (cases "bs = []")
    case True
    with "1.prems" show ?thesis
      by (auto simp: recv_loop_steps intro!: exI [of _ "recv_events sock"])
  next
    case False
    with "1.prems" have more: "\<not> want \<le> length got" by (cases bs) auto
    from False "1.prems" obtain e events where events: "recv_events sock = e # events"
      by (cases "recv_events sock") auto
    show ?thesis
    proof (cases e)
      case Peer_closed
      with "1.prems" events show ?thesis by (simp add: delivers_def)
    next
      case (Recv_error err)
      with "1.prems" events have "err = EINTR" by (simp add: delivers_def)
      with "1.IH"(2) [OF more events Recv_error, of bs] "1.prems" more events Recv_error
      show ?thesis by (simp add: recv_loop_steps delivers_def)
    next
      case (Arrived ds)
      have space: "want - length got = length bs" using "1.prems"(2) by simp
      obtain bs' where bs: "bs = take (length bs) ds @ bs'" and rest: "delivers (if length ds \<le> length bs
          then events else Arrived (drop (length bs) ds) # events) (bs' @ cs)"
        using delivers_arrival [of ds events bs cs] "1.prems"(1) events Arrived by auto
      have all: "(got @ take (length bs) ds) @ bs' = got @ bs" using bs by (metis append_assoc)
      from arg_cong [OF all, of length] "1.prems"(2)
      have "length (got @ take (length bs) ds) + length bs' = want" by simp
      moreover define s' where "s' = sock\<lparr>recv_events := if length ds \<le> length bs
          then events else Arrived (drop (length bs) ds) # events\<rparr>"
      moreover from rest have "delivers (recv_events s') (bs' @ cs)" by (simp add: s'_def)
      ultimately obtain es where "recv_loop (got @ take (length bs) ds) want s' =
          (Inr (Some (got @ bs)), s'\<lparr>recv_events := es\<rparr>)" "delivers es cs"
        using "1.IH"(1) [OF more events Arrived refl, of bs', unfolded space] unfolding all by blast
      moreover have "recv_loop got want sock = recv_loop (got @ take (length bs) ds) want s'"
        using recv_loop_steps(5) [OF more, of sock ds events, unfolded space] events Arrived
        by (simp add: s'_def)
      moreover have "s'\<lparr>recv_events := es\<rparr> = sock\<lparr>recv_events := es\<rparr>" for es by (simp add: s'_def)
      ultimately show ?thesis by auto
    qed
  qed
qed

lemma recv_exact_delivers:
  "delivers (recv_events sock) (bs @ cs) \<Longrightarrow> length bs = want \<Longrightarrow>
     \<exists>events. recv_exact_or_eof want sock = (Inr (Some bs), sock\<lparr>recv_events := events\<rparr>) \<and>
       delivers events cs"
  using recv_loop_delivers [of sock bs cs "[]" want] by (simp add: recv_exact_or_eof_def)

text \<open>A receive sends nothing, and returns as many bytes as were asked for.\<close>

lemma recv_loop_frame:
  "sent_bytes (snd (recv_loop got want sock)) = sent_bytes sock \<and>
   send_answers (snd (recv_loop got want sock)) = send_answers sock"
proof (induction got want sock rule: recv_loop.induct)
  case (1 got want sock)
  then show ?case
    by (subst (1 2) recv_loop.simps)
      (auto simp: fail_def Let_def split: list.split recv_event.split)
qed

lemma recv_loop_not_killed: "fst (recv_loop got want sock) \<noteq> Inl Killed"
proof (induction got want sock rule: recv_loop.induct)
  case (1 got want sock)
  then show ?case
    by (subst recv_loop.simps) (auto simp: fail_def Let_def split: list.split recv_event.split)
qed

lemma recv_loop_size:
  "length got \<le> want \<Longrightarrow> fst (recv_loop got want sock) = Inr (Some bs) \<Longrightarrow> length bs = want"
proof (induction got want sock rule: recv_loop.induct)
  case (1 got want sock)
  show ?case
  proof (cases "want \<le> length got")
    case True
    with "1.prems" show ?thesis by (simp add: recv_loop.simps)
  next
    case more: False
    with "1.prems" obtain e events where events: "recv_events sock = e # events"
      by (cases "recv_events sock") (auto simp: recv_loop.simps)
    show ?thesis
    proof (cases e)
      case (Arrived ds)
      with more events "1.prems"(2) show ?thesis
        by (intro "1.IH"(1) [OF more events Arrived refl])
          (simp_all add: recv_loop.simps [of got] Let_def)
    next
      case Peer_closed
      with more events "1.prems" show ?thesis
        by (simp add: recv_loop.simps [of got] fail_def split: if_splits)
    next
      case (Recv_error err)
      with more events "1.prems" "1.IH"(2) [OF more events Recv_error] show ?thesis
        by (simp add: recv_loop.simps [of got] split: if_splits)
    qed
  qed
qed

text \<open>When the peer closes early: nothing at all is the end of the stream, part of it is an error.\<close>

lemma recv_loop_closed:
  "delivers es bs \<Longrightarrow> recv_events sock = es @ Peer_closed # rest \<Longrightarrow>
   length got + length bs < want \<Longrightarrow>
     recv_loop got want sock =
       (if got @ bs = [] then (Inr None, sock\<lparr>recv_events := Peer_closed # rest\<rparr>)
        else fail ''unexpected EOF on recovery socket'' (sock\<lparr>recv_events := Peer_closed # rest\<rparr>))"
proof (induction es arbitrary: got bs sock)
  case Nil
  have same: "sock\<lparr>recv_events := Peer_closed # rest\<rparr> = sock"
    using Nil.prems(2) by (cases sock) simp
  show ?case
    unfolding same using Nil.prems by (subst recv_loop.simps) simp
next
  case (Cons e es)
  let ?s = "sock\<lparr>recv_events := es @ Peer_closed # rest\<rparr>"
  have want: "\<not> want \<le> length got" using Cons.prems(3) by simp
  show ?case
  proof (cases e)
    case (Arrived ds)
    then obtain cs where bs: "bs = ds @ cs" and es: "delivers es cs"
      using Cons.prems(1) by (auto simp: delivers_def)
    then have fits: "length ds \<le> want - length got" using Cons.prems(3) by simp
    then have "recv_loop got want sock = recv_loop (got @ ds) want ?s"
      using want Cons.prems(2) Arrived by (subst recv_loop.simps) (simp add: Let_def)
    also have "\<dots> = (if (got @ ds) @ cs = [] then (Inr None, ?s\<lparr>recv_events := Peer_closed # rest\<rparr>)
        else fail ''unexpected EOF on recovery socket'' (?s\<lparr>recv_events := Peer_closed # rest\<rparr>))"
      using es Cons.prems(3) bs by (intro Cons.IH) simp_all
    finally show ?thesis by (simp add: bs)
  next
    case Peer_closed
    with Cons.prems(1) show ?thesis by (simp add: delivers_def)
  next
    case (Recv_error err)
    with Cons.prems(1) have "err = EINTR" "delivers es bs" by (simp_all add: delivers_def)
    moreover from this have "recv_loop got want sock = recv_loop got want ?s"
      using want Cons.prems(2) Recv_error by (subst recv_loop.simps) simp
    ultimately show ?thesis
      using Cons.IH [of bs ?s got] Cons.prems(3) by simp
  qed
qed

text \<open>When the bytes end without the peer closing, the call does not return.\<close>

lemma recv_loop_starved:
  "delivers es bs \<Longrightarrow> recv_events sock = es \<Longrightarrow> length got + length bs < want \<Longrightarrow>
     fst (recv_loop got want sock) = Inl Blocks"
proof (induction es arbitrary: got bs sock)
  case Nil
  then show ?case by (subst recv_loop.simps) simp
next
  case (Cons e es)
  let ?s = "sock\<lparr>recv_events := es\<rparr>"
  have want: "\<not> want \<le> length got" using Cons.prems(3) by simp
  show ?case
  proof (cases e)
    case (Arrived ds)
    then obtain cs where bs: "bs = ds @ cs" and es: "delivers es cs"
      using Cons.prems(1) by (auto simp: delivers_def)
    then have fits: "length ds \<le> want - length got" using Cons.prems(3) by simp
    then have "recv_loop got want sock = recv_loop (got @ ds) want ?s"
      using want Cons.prems(2) Arrived by (subst recv_loop.simps) (simp add: Let_def)
    with Cons.IH [OF es, of ?s "got @ ds"] Cons.prems(3) bs show ?thesis by simp
  next
    case Peer_closed
    with Cons.prems(1) show ?thesis by (simp add: delivers_def)
  next
    case (Recv_error err)
    with Cons.prems(1) have "err = EINTR" "delivers es bs" by (simp_all add: delivers_def)
    moreover from this have "recv_loop got want sock = recv_loop got want ?s"
      using want Cons.prems(2) Recv_error by (subst recv_loop.simps) simp
    ultimately show ?thesis
      using Cons.IH [of bs ?s got] Cons.prems(3) by simp
  qed
qed

section \<open>The interface of a connection\<close>

text \<open>What two sends in a row put on the wire is a prefix of both, and all of both if they end normally.\<close>

definition sends_prefix :: "('s \<Rightarrow> bytes) \<Rightarrow> 's \<Rightarrow> bytes \<Rightarrow> 's outcome \<Rightarrow> bool" where
  "sends_prefix sent s data r \<longleftrightarrow> (\<exists>k. k \<le> length data \<and>
     sent (snd r) = sent s @ take k data \<and> (fst r = None \<longrightarrow> k = length data))"

text \<open>
  What can be written to: \<open>sent\<close> is what has left, and with \<open>room s n\<close> the next \<open>n\<close> bytes will be taken.
\<close>

locale byte_sink =
  fixes send :: "bytes \<Rightarrow> 's \<Rightarrow> 's outcome"
    and sent :: "'s \<Rightarrow> bytes"
    and room :: "'s \<Rightarrow> nat \<Rightarrow> bool"
  assumes send_prefix: "sends_prefix sent s data (send data s)"
    and send_room: "room s (length data + n) \<Longrightarrow>
      \<exists>t. send data s = (None, t) \<and> sent t = sent s @ data \<and> room t n"
begin

lemma send_then:
  assumes "\<And>t. sends_prefix sent t ys (k t)"
  shows "sends_prefix sent s (xs @ ys) (and_then (send xs s) k)"
proof (cases "send xs s")
  case (Pair h t)
  obtain i where i: "i \<le> length xs" "sent t = sent s @ take i xs" "h = None \<longrightarrow> i = length xs"
    using send_prefix [of s xs] by (auto simp: sends_prefix_def Pair)
  show ?thesis
  proof (cases h)
    case None
    obtain j where "j \<le> length ys" "sent (snd (k t)) = sent t @ take j ys"
      "fst (k t) = None \<longrightarrow> j = length ys"
      using assms [of t] by (auto simp: sends_prefix_def)
    with i None show ?thesis
      by (auto simp: sends_prefix_def Pair intro!: exI [of _ "length xs + j"])
  next
    case (Some e)
    with i show ?thesis by (auto simp: sends_prefix_def Pair intro!: exI [of _ i])
  qed
qed

lemma send_two:
  assumes "room s (length xs + (length ys + n))"
  shows "\<exists>t. and_then (send xs s) (send ys) = (None, t) \<and> sent t = sent s @ xs @ ys \<and> room t n"
proof -
  obtain t where t: "send xs s = (None, t)" "sent t = sent s @ xs" "room t (length ys + n)"
    using send_room [OF assms] by blast
  with send_room [OF t(3)] show ?thesis by auto
qed

end

text \<open>What can be read from: with \<open>pending s bs\<close> the bytes \<open>bs\<close> will arrive, and no more.\<close>

locale byte_source =
  fixes recv :: "nat \<Rightarrow> 's \<Rightarrow> (bytes option, 's) result"
    and pending :: "'s \<Rightarrow> bytes \<Rightarrow> bool"
  assumes recv_pending: "pending s (bs @ cs) \<Longrightarrow> length bs = n \<Longrightarrow>
      \<exists>t. recv n s = (Inr (Some bs), t) \<and> pending t cs"
    and recv_starved: "pending s bs \<Longrightarrow> length bs < n \<Longrightarrow> fst (recv n s) = Inl Blocks"
    and recv_size: "fst (recv n s) = Inr (Some bs) \<Longrightarrow> length bs = n"

text \<open>A connection is both, and neither direction disturbs the other.\<close>

locale byte_stream = byte_sink send sent room + byte_source recv pending
  for send :: "bytes \<Rightarrow> 's \<Rightarrow> 's outcome"
    and sent :: "'s \<Rightarrow> bytes"
    and room :: "'s \<Rightarrow> nat \<Rightarrow> bool"
    and recv :: "nat \<Rightarrow> 's \<Rightarrow> (bytes option, 's) result"
    and pending :: "'s \<Rightarrow> bytes \<Rightarrow> bool" +
  assumes send_keeps: "pending (snd (send data s)) bs = pending s bs"
    and recv_keeps: "sent (snd (recv n s)) = sent s" "room (snd (recv n s)) k = room s k"
begin

lemma recv_exact:
  assumes "pending s (bs @ cs)" and "length bs = n"
  shows "\<exists>t. recv n s = (Inr (Some bs), t) \<and> pending t cs \<and> sent t = sent s \<and>
    (\<forall>k. room t k = room s k)"
proof -
  obtain t where "recv n s = (Inr (Some bs), t)" "pending t cs"
    using recv_pending [OF assms] by blast
  then show ?thesis using recv_keeps [of n s] by auto
qed

lemma send_exact:
  assumes "room s (length data + n)"
  shows "\<exists>t. send data s = (None, t) \<and> sent t = sent s @ data \<and> room t n \<and>
    (\<forall>bs. pending t bs = pending s bs)"
proof -
  obtain t where "send data s = (None, t)" "sent t = sent s @ data" "room t n"
    using send_room [OF assms] by blast
  then show ?thesis using send_keeps [of data s] by auto
qed

text \<open>A value of a known size, and a frame whose length comes first.\<close>

lemma recv_two:
  assumes "pending s (xs @ ys @ zs)"
  shows "\<exists>t u. recv (length xs) s = (Inr (Some xs), t) \<and> recv (length ys) t = (Inr (Some ys), u) \<and>
    pending u zs \<and> sent u = sent s \<and> (\<forall>k. room u k = room s k)"
proof -
  obtain t where t: "recv (length xs) s = (Inr (Some xs), t)" "pending t (ys @ zs)"
    "sent t = sent s" "\<forall>k. room t k = room s k"
    using recv_exact [OF assms refl] by blast
  with recv_exact [OF t(2) refl] show ?thesis by auto
qed

end

text \<open>The socket with its two transfer loops is a connection.\<close>

definition sock_room :: "tcp_socket \<Rightarrow> nat \<Rightarrow> bool" where
  "sock_room sock n \<longleftrightarrow> list_all usable (send_answers sock) \<and> n \<le> sends (send_answers sock)"

definition sock_pending :: "tcp_socket \<Rightarrow> bytes \<Rightarrow> bool" where
  "sock_pending sock bs \<longleftrightarrow> delivers (recv_events sock) bs"

interpretation socket: byte_stream send_all sent_bytes sock_room recv_exact_or_eof sock_pending
proof unfold_locales
  fix sock :: tcp_socket and data bs cs :: bytes and n k :: nat
  show "sends_prefix sent_bytes sock data (send_all data sock)"
    and "sock_pending (snd (send_all data sock)) bs = sock_pending sock bs"
    using send_all_wrote [of data sock] by (auto simp: wrote_def sends_prefix_def sock_pending_def)
  show "\<exists>t. send_all data sock = (None, t) \<and> sent_bytes t = sent_bytes sock @ data \<and> sock_room t n"
    if "sock_room sock (length data + n)"
  proof -
    have "list_all usable (send_answers sock)" "length data \<le> sends (send_answers sock)"
      using that by (simp_all add: sock_room_def)
    from send_all_delivers [OF this] show ?thesis
      using that by (auto simp: sock_room_def)
  qed
  show "\<exists>t. recv_exact_or_eof n sock = (Inr (Some bs), t) \<and> sock_pending t cs"
    if "sock_pending sock (bs @ cs)" "length bs = n"
    using recv_exact_delivers [of sock bs cs n] that by (auto simp: sock_pending_def)
  show "fst (recv_exact_or_eof n sock) = Inl Blocks" if "sock_pending sock bs" "length bs < n"
    using recv_loop_starved [of "recv_events sock" bs sock "[]" n] that
    by (simp add: sock_pending_def recv_exact_or_eof_def)
  show "length bs = n" if "fst (recv_exact_or_eof n sock) = Inr (Some bs)"
    using recv_loop_size [of "[]" n sock bs] that by (simp add: recv_exact_or_eof_def)
  show "sent_bytes (snd (recv_exact_or_eof n sock)) = sent_bytes sock"
    and "sock_room (snd (recv_exact_or_eof n sock)) k = sock_room sock k"
    using recv_loop_frame [of "[]" n sock] by (simp_all add: recv_exact_or_eof_def sock_room_def)
qed

section \<open>Properties of the transfer loops\<close>

text \<open>
  C18. \<open>send_all\<close>: whatever the kernel answers, the bytes that leave are a prefix of the data, in
  order, and the call returns normally exactly when that prefix is the whole. It takes down the
  process only when the peer has broken the connection.
\<close>

theorem send_all_sends_prefix:
  "(\<exists>k. k \<le> length data \<and> sent_bytes (snd (send_all data sock)) = sent_bytes sock @ take k data \<and>
     (fst (send_all data sock) = None) = (k = length data)) \<and>
   (fst (send_all data sock) \<noteq> Some Killed \<or> Send_error EPIPE \<in> set (send_answers sock))"
proof -
  obtain k where "k \<le> length data"
    "sent_bytes (snd (send_all data sock)) = sent_bytes sock @ take k data"
    "fst (send_all data sock) = None \<longleftrightarrow> k = length data"
    using send_all_wrote [of data sock] unfolding wrote_def by (elim exE conjE)
  then have "\<exists>k. k \<le> length data \<and> sent_bytes (snd (send_all data sock)) = sent_bytes sock @ take k data \<and>
      (fst (send_all data sock) = None) = (k = length data)"
    by (intro exI [of _ k] conjI)
  then show ?thesis using send_all_unbroken [of sock data] by (simp only: unbroken_def) blast
qed

theorem send_all_sends_prefix_witness:
  "fst (send_all [1, 2, 3] \<lparr>send_answers = [Sent 2, Send_error EINTR, Send_error (Errno 104)],
     sent_bytes = [], recv_events = []\<rparr>) \<noteq> Some Killed"
  using send_all_sends_prefix [of "[1, 2, 3]" "\<lparr>send_answers = [Sent 2, Send_error EINTR,
      Send_error (Errno 104)], sent_bytes = [], recv_events = []\<rparr>"]
  by simp

text \<open>
  C19. \<open>recv_exact_or_eof\<close> does not depend on how the stream is cut into pieces or on
  interruptions: it takes exactly the next bytes and leaves the others. When the peer closes
  first, it reports the end of the stream if nothing had arrived and throws if part had.
\<close>

theorem recv_exact_any_pieces:
  assumes "length bs = want" and "0 < want"
  shows "(\<forall>events cs. delivers events (bs @ cs) \<longrightarrow>
      (\<exists>rest. recv_exact_or_eof want (sock\<lparr>recv_events := events\<rparr>) =
         (Inr (Some bs), sock\<lparr>recv_events := rest\<rparr>) \<and> delivers rest cs)) \<and>
    (\<forall>events ds. delivers events ds \<and> length ds < want \<longrightarrow>
      recv_exact_or_eof want (sock\<lparr>recv_events := events @ [Peer_closed]\<rparr>) =
        (if ds = [] then (Inr None, sock\<lparr>recv_events := [Peer_closed]\<rparr>)
         else fail ''unexpected EOF on recovery socket'' (sock\<lparr>recv_events := [Peer_closed]\<rparr>)))"
proof (intro conjI allI impI)
  fix events cs
  assume "delivers events (bs @ cs)"
  then show "\<exists>rest. recv_exact_or_eof want (sock\<lparr>recv_events := events\<rparr>) =
      (Inr (Some bs), sock\<lparr>recv_events := rest\<rparr>) \<and> delivers rest cs"
    using recv_exact_delivers [of "sock\<lparr>recv_events := events\<rparr>" bs cs want] assms(1) by auto
next
  fix events ds
  assume "delivers events ds \<and> length ds < want"
  then show "recv_exact_or_eof want (sock\<lparr>recv_events := events @ [Peer_closed]\<rparr>) =
      (if ds = [] then (Inr None, sock\<lparr>recv_events := [Peer_closed]\<rparr>)
       else fail ''unexpected EOF on recovery socket'' (sock\<lparr>recv_events := [Peer_closed]\<rparr>))"
    using recv_loop_closed [of events ds "sock\<lparr>recv_events := events @ [Peer_closed]\<rparr>" "[]" "[]" want]
    by (simp add: recv_exact_or_eof_def)
qed

theorem recv_exact_any_pieces_witness:
  "\<exists>rest. recv_exact_or_eof 3 \<lparr>send_answers = [], sent_bytes = [],
      recv_events = [Arrived [1], Recv_error EINTR, Arrived [2, 3, 4]]\<rparr> =
    (Inr (Some [1, 2, 3]), \<lparr>send_answers = [], sent_bytes = [], recv_events = rest\<rparr>) \<and>
    delivers rest [4]"
proof -
  let ?s = "\<lparr>send_answers = [], sent_bytes = [], recv_events = []\<rparr> :: tcp_socket"
  let ?es = "[Arrived [1], Recv_error EINTR, Arrived [2, 3, 4]]"
  have "delivers ?es ([1, 2, 3] @ [4])" by (simp add: delivers_def)
  with recv_exact_any_pieces [of "[1, 2, 3]" 3 ?s] show ?thesis by fastforce
qed

end
