(* ===== verification/Exchange_Sim.thy ===== *)
theory Exchange_Sim
  imports Command_Line Wire_Codec Packet_History Stream_Socket
begin

text \<open>
  The publisher of \<open>src/exchange_sim/main.cpp\<close>: the message generator, the packet buffer and the
  loop that publishes packets.
\<close>

section \<open>The packet buffer\<close>

text \<open>
  The header and the messages are stored through a cursor into the buffer; the result is the
  packet's size and the buffer.
\<close>

fun write_slots :: "nat \<Rightarrow> message list \<Rightarrow> bytes \<Rightarrow> bytes" where
  "write_slots cursor [] buffer = buffer"
| "write_slots cursor (message # messages) buffer =
     write_slots (cursor + length (image_message message)) messages
       (overwrite cursor (image_message message) buffer)"

definition serialize_packet_to_buffer ::
    "u32 \<Rightarrow> u64 \<Rightarrow> message list \<Rightarrow> bytes \<Rightarrow> nat \<Rightarrow> exn + nat \<times> bytes" where
  "serialize_packet_to_buffer seq_num publish_tsc messages buffer buffer_size =
     (if 65535 < length messages then Inl (Runtime_error ''too many messages in one packet'')
      else
        let msg_count = of_nat (length messages) :: u16;
            packet_size = packet_size_bytes msg_count
        in if buffer_size < packet_size
           then Inl (Runtime_error ''packet would overflow the fixed publisher buffer'')
           else
             let buffer = overwrite 0
                   (image_header (make_packet_header seq_num msg_count publish_tsc)) buffer;
                 buffer = write_slots sizeof_PacketHeader messages buffer
             in Inr (packet_size, buffer))"

section \<open>\<open>MarketDataGenerator\<close>\<close>

record live_order =
  lo_order_id :: u64
  lo_side :: side
  lo_quantity :: u32
  lo_price :: u32

text \<open>
  The distributions draw from one engine, which is seeded at random. \<open>draw n lo hi\<close> is what a
  \<open>std::uniform_int_distribution\<close> over \<open>lo\<close> to \<open>hi\<close> returns as the \<open>n\<close>th draw; \<open>draws\<close> counts them.
\<close>

record generator =
  next_order_id :: u64
  gen_orders :: "live_order list"
  draws :: nat

type_synonym draw = "nat \<Rightarrow> nat \<Rightarrow> nat \<Rightarrow> nat"

definition uniform :: "draw \<Rightarrow> bool" where
  "uniform draw \<longleftrightarrow> (\<forall>n lo hi. lo \<le> hi \<longrightarrow> lo \<le> draw n lo hi \<and> draw n lo hi \<le> hi)"

definition init_generator :: generator where
  "init_generator = \<lparr>next_order_id = 1, gen_orders = [], draws = 0\<rparr>"

definition sample :: "draw \<Rightarrow> nat \<Rightarrow> nat \<Rightarrow> generator \<Rightarrow> nat \<times> generator" where
  "sample draw lo hi g = (draw (draws g) lo hi, g\<lparr>draws := Suc (draws g)\<rparr>)"

definition sample_price :: "draw \<Rightarrow> side \<Rightarrow> generator \<Rightarrow> u32 \<times> generator" where
  "sample_price draw side g =
     (let (price, g) = (case side of
            Buy \<Rightarrow> sample draw 9950 10000 g
          | Sell \<Rightarrow> sample draw 10001 10050 g)
      in (of_nat price, g))"

definition gen_add_order :: "draw \<Rightarrow> generator \<Rightarrow> message \<times> generator" where
  "gen_add_order draw g =
     (let (side_draw, g) = sample draw 0 1 g;
          side = (if side_draw = 0 then Buy else Sell);
          (price, g) = sample_price draw side g;
          (quantity, g) = sample draw 10 250 g;
          order = \<lparr>lo_order_id = next_order_id g, lo_side = side,
                   lo_quantity = of_nat quantity, lo_price = price\<rparr>;
          g = g\<lparr>next_order_id := next_order_id g + 1\<rparr>;
          g = g\<lparr>gen_orders := gen_orders g @ [order]\<rparr>
      in (AddMsg (make_add_order_msg (lo_order_id order) (lo_side order) (lo_price order)
            (lo_quantity order)), g))"

definition pick_order_index :: "draw \<Rightarrow> generator \<Rightarrow> nat \<times> generator" where
  "pick_order_index draw g = sample draw 0 (length (gen_orders g) - 1) g"

definition gen_modify_order :: "draw \<Rightarrow> generator \<Rightarrow> message \<times> generator" where
  "gen_modify_order draw g =
     (if gen_orders g = [] then gen_add_order draw g
      else
        let (index, g) = pick_order_index draw g;
            order = gen_orders g ! index;
            (price, g) = sample_price draw (lo_side order) g;
            (quantity, g) = sample draw 10 250 g;
            order = order\<lparr>lo_price := price, lo_quantity := of_nat quantity\<rparr>;
            g = g\<lparr>gen_orders := (gen_orders g)[index := order]\<rparr>
        in (ModifyMsg (make_modify_order_msg (lo_order_id order) (lo_price order)
              (lo_quantity order)), g))"

definition gen_delete_order :: "draw \<Rightarrow> generator \<Rightarrow> message \<times> generator" where
  "gen_delete_order draw g =
     (if gen_orders g = [] then gen_add_order draw g
      else
        let (index, g) = pick_order_index draw g;
            order_id = lo_order_id (gen_orders g ! index);
            orders = (gen_orders g)[index := last (gen_orders g)];
            g = g\<lparr>gen_orders := butlast orders\<rparr>
        in (DeleteMsg (make_delete_order_msg order_id), g))"

definition gen_next :: "draw \<Rightarrow> generator \<Rightarrow> message \<times> generator" where
  "gen_next draw g =
     (if length (gen_orders g) < 4 then gen_add_order draw g
      else
        let (action, g) = sample draw 0 99 g
        in if action < 45 then gen_add_order draw g
           else if action < 80 then gen_modify_order draw g
           else gen_delete_order draw g)"

fun gen_batch :: "draw \<Rightarrow> nat \<Rightarrow> generator \<Rightarrow> message list \<times> generator" where
  "gen_batch draw 0 g = ([], g)"
| "gen_batch draw (Suc n) g =
     (let (message, g) = gen_next draw g;
          (batch, g) = gen_batch draw n g
      in (message # batch, g))"

section \<open>Sending a datagram\<close>

text \<open>\<open>UdpMulticastSender::send\<close>, for the answer of \<open>sendto\<close>.\<close>

definition udp_send :: "send_answer \<Rightarrow> bytes \<Rightarrow> exn option" where
  "udp_send answer payload =
     (case answer of
        Send_error e \<Rightarrow> Some (Socket_error ''sendto'' e)
      | Sent n \<Rightarrow>
          if n \<noteq> length payload then Some (Runtime_error ''partial UDP datagram send'') else None)"

section \<open>The publishing loop\<close>

text \<open>
  The local variables of \<open>main\<close>. \<open>wire\<close> is the sequence of datagrams that were handed to the
  network, \<open>sim_tsc_reads\<close> counts the readings of the time stamp counter and the calls of \<open>sendto\<close>
  are numbered by \<open>sendtos\<close>.
\<close>

record publisher =
  pub_generator :: generator
  pub_history :: packet_history
  emitted_messages :: u64
  sent_packets :: u64
  dropped_packets :: u64
  sent_messages :: u64
  dropped_messages :: u64
  packet_sequence :: u32
  wire :: "bytes list"
  sendtos :: nat
  sim_tsc_reads :: nat
  sim_cout :: "string list"

definition init_publisher :: publisher where
  "init_publisher = \<lparr>pub_generator = init_generator, pub_history = [], emitted_messages = 0,
     sent_packets = 0, dropped_packets = 0, sent_messages = 0, dropped_messages = 0,
     packet_sequence = 1, wire = [], sendtos = 0, sim_tsc_reads = 0, sim_cout = []\<rparr>"

record sim_env =
  sim_opts :: sim_options
  sim_draw :: draw
  sim_tsc :: "nat \<Rightarrow> u64"
  sim_sendto :: "nat \<Rightarrow> bytes \<Rightarrow> send_answer"

definition sim_print :: "sim_env \<Rightarrow> string \<Rightarrow> publisher \<Rightarrow> publisher" where
  "sim_print env line s =
     (if so_quiet (sim_opts env) then s else s\<lparr>sim_cout := sim_cout s @ [line]\<rparr>)"

definition should_skip :: "sim_env \<Rightarrow> publisher \<Rightarrow> bool" where
  "should_skip env s \<longleftrightarrow>
     so_skip_every (sim_opts env) \<noteq> 0 \<and>
     unat (packet_sequence s) mod unat (so_skip_every (sim_opts env)) = 0"

text \<open>The branch that drops the packet or sends it.\<close>

definition send_or_drop ::
    "sim_env \<Rightarrow> u64 \<Rightarrow> message list \<Rightarrow> bytes \<Rightarrow> publisher \<Rightarrow> publisher outcome" where
  "send_or_drop env publish_tsc batch packet s =
     (if should_skip env s then
        let s = s\<lparr>dropped_packets := dropped_packets s + 1\<rparr>;
            s = s\<lparr>dropped_messages := dropped_messages s + of_nat (length batch)\<rparr>
        in (None, sim_print env
             (''dropped packet seq='' @ show_word (packet_sequence s) @
              '' msg_count='' @ show_dec (length batch) @
              '' publish_tsc='' @ show_word publish_tsc @ '' (intentional)'') s)
      else
        case udp_send (sim_sendto env (sendtos s) packet) packet of
          Some e \<Rightarrow> (Some (Throws e), s\<lparr>sendtos := Suc (sendtos s)\<rparr>)
        | None \<Rightarrow>
            let s = s\<lparr>sendtos := Suc (sendtos s), wire := wire s @ [packet]\<rparr>;
                s = s\<lparr>sent_packets := sent_packets s + 1\<rparr>;
                s = s\<lparr>sent_messages := sent_messages s + of_nat (length batch)\<rparr>
            in (None, sim_print env
                 (''sent packet seq='' @ show_word (packet_sequence s) @
                  '' msg_count='' @ show_dec (length batch) @
                  '' bytes='' @ show_dec (length packet) @
                  '' publish_tsc='' @ show_word publish_tsc) s))"

text \<open>The lines for the messages of the batch.\<close>

definition print_batch :: "sim_env \<Rightarrow> bool \<Rightarrow> message list \<Rightarrow> publisher \<Rightarrow> publisher" where
  "print_batch env skipped batch s =
     fold (\<lambda>index. sim_print env
         (''  '' @ (if skipped then ''drop '' else ''send '') @
          describe (packet_sequence s) index (view_of (batch ! index))))
       [0..<length batch] s"

text \<open>One round of the loop.\<close>

definition publish_packet :: "sim_env \<Rightarrow> publisher \<Rightarrow> publisher outcome" where
  "publish_packet env s =
     (let batch_size = min (so_messages_per_packet (sim_opts env))
            (so_messages (sim_opts env) - emitted_messages s);
          (batch, g) = gen_batch (sim_draw env) (unat batch_size) (pub_generator s);
          s = s\<lparr>pub_generator := g\<rparr>;
          publish_tsc = sim_tsc env (sim_tsc_reads s);
          s = s\<lparr>sim_tsc_reads := Suc (sim_tsc_reads s)\<rparr>
      in case serialize_packet_to_buffer (packet_sequence s) publish_tsc batch
             (replicate kPacketBufferSize 0) kPacketBufferSize of
           Inl e \<Rightarrow> (Some (Throws e), s)
         | Inr (packet_size, buffer) \<Rightarrow>
             let packet = subspan 0 packet_size buffer;
                 s = s\<lparr>pub_history := history_store (packet_sequence s) packet (pub_history s)\<rparr>;
                 skipped = should_skip env s
             in and_then (send_or_drop env publish_tsc batch packet s) (\<lambda>s.
                  let s = print_batch env skipped batch s;
                      s = s\<lparr>emitted_messages := emitted_messages s + of_nat (length batch)\<rparr>;
                      s = s\<lparr>packet_sequence := packet_sequence s + 1\<rparr>
                  in (None, s)))"

text \<open>
  The loop. With no messages per packet it would not end, so it is a partial function; the
  options that \<open>parse_args\<close> accepts rule that out.
\<close>

partial_function (option) publish_loop :: "sim_env \<Rightarrow> publisher \<Rightarrow> publisher outcome option" where
  "publish_loop env s =
     (if emitted_messages s < so_messages (sim_opts env)
      then (case fst (publish_packet env s) of
              Some h \<Rightarrow> Some (publish_packet env s)
            | None \<Rightarrow> publish_loop env (snd (publish_packet env s)))
      else Some (None, s))"

end
