(* ===== verification/Order_Book.thy ===== *)
theory Order_Book
  imports Wire_Codec Ordered_Map "HOL-Library.Product_Lexorder" "HOL-Library.Option_ord"
begin

text \<open>
  The limit order book of \<open>include/bmdfh/order_book.hpp\<close> and \<open>src/common/order_book.cpp\<close>: the live
  orders by id, the aggregated price levels of the two sides, and the application of one
  message, with the best bid and offer before and after it.
\<close>

section \<open>Levels and snapshots\<close>

datatype level = Level (level_price: u32) (level_quantity: u32)

text \<open>
  \<open>operator<=>\<close> is defaulted: a level compares its price, then its quantity, and a snapshot
  its bid, then its ask, an absent level being the smallest.
\<close>

instantiation level :: linorder
begin

definition less_eq_level :: "level \<Rightarrow> level \<Rightarrow> bool" where
  "less_eq_level a b \<longleftrightarrow> (level_price a, level_quantity a) \<le> (level_price b, level_quantity b)"

definition less_level :: "level \<Rightarrow> level \<Rightarrow> bool" where
  "less_level a b \<longleftrightarrow> (level_price a, level_quantity a) < (level_price b, level_quantity b)"

instance
  by standard (auto simp: less_eq_level_def less_level_def less_le_not_le intro: level.expand)

end

datatype bbo_snapshot = Bbo (best_bid: "level option") (best_ask: "level option")

instantiation bbo_snapshot :: linorder
begin

definition less_eq_bbo_snapshot :: "bbo_snapshot \<Rightarrow> bbo_snapshot \<Rightarrow> bool" where
  "less_eq_bbo_snapshot a b \<longleftrightarrow> (best_bid a, best_ask a) \<le> (best_bid b, best_ask b)"

definition less_bbo_snapshot :: "bbo_snapshot \<Rightarrow> bbo_snapshot \<Rightarrow> bool" where
  "less_bbo_snapshot a b \<longleftrightarrow> (best_bid a, best_ask a) < (best_bid b, best_ask b)"

instance
  by standard
    (auto simp: less_eq_bbo_snapshot_def less_bbo_snapshot_def less_le_not_le
      intro: bbo_snapshot.expand)

end

record apply_result =
  before_bbo :: bbo_snapshot
  after_bbo :: bbo_snapshot

definition bbo_changed :: "apply_result \<Rightarrow> bool" where
  "bbo_changed r \<longleftrightarrow> before_bbo r \<noteq> after_bbo r"

section \<open>State\<close>

record order_state =
  order_side :: side
  order_quantity :: u32
  order_price :: u32

record order_book =
  live_orders :: "(u64, order_state) omap"
  bids :: "(u32, u32) omap"
  asks :: "(u32, u32) omap"

definition empty_book :: order_book where
  "empty_book = \<lparr>live_orders = [], bids = [], asks = []\<rparr>"

section \<open>Operations\<close>

definition bbo :: "order_book \<Rightarrow> bbo_snapshot" where
  "bbo b = Bbo
     (case om_last (bids b) of None \<Rightarrow> None | Some (price, quantity) \<Rightarrow> Some (Level price quantity))
     (case om_first (asks b) of None \<Rightarrow> None | Some (price, quantity) \<Rightarrow> Some (Level price quantity))"

definition format_bbo :: "bbo_snapshot \<Rightarrow> string" where
  "format_bbo s =
     (case best_bid s of
        Some l \<Rightarrow> ''BID '' @ show_word (level_price l) @ '' x '' @ show_word (level_quantity l)
      | None \<Rightarrow> ''BID --'') @
     '' | '' @
     (case best_ask s of
        Some l \<Rightarrow> ''ASK '' @ show_word (level_price l) @ '' x '' @ show_word (level_quantity l)
      | None \<Rightarrow> ''ASK --'')"

definition top_of_book :: "order_book \<Rightarrow> string" where
  "top_of_book b = format_bbo (bbo b)"

definition live_order_count :: "order_book \<Rightarrow> nat" where
  "live_order_count b = length (live_orders b)"

text \<open>\<open>bids_[price] += quantity\<close> wraps at 32 bits.\<close>

definition add_level :: "side \<Rightarrow> u32 \<Rightarrow> u32 \<Rightarrow> order_book \<Rightarrow> order_book" where
  "add_level side price quantity b =
     (if side = Buy
      then b\<lparr>bids := om_assign price (om_index (bids b) price + quantity) (bids b)\<rparr>
      else b\<lparr>asks := om_assign price (om_index (asks b) price + quantity) (asks b)\<rparr>)"

definition subtract_level :: "side \<Rightarrow> u32 \<Rightarrow> u32 \<Rightarrow> order_book \<Rightarrow> order_book" where
  "subtract_level side price quantity b =
     (if side = Buy
      then case om_find (bids b) price of
             None \<Rightarrow> b
           | Some second \<Rightarrow>
               if second \<le> quantity then b\<lparr>bids := om_erase price (bids b)\<rparr>
               else b\<lparr>bids := om_assign price (second - quantity) (bids b)\<rparr>
      else case om_find (asks b) price of
             None \<Rightarrow> b
           | Some second \<Rightarrow>
               if second \<le> quantity then b\<lparr>asks := om_erase price (asks b)\<rparr>
               else b\<lparr>asks := om_assign price (second - quantity) (asks b)\<rparr>)"

definition erase_order :: "u64 \<Rightarrow> order_book \<Rightarrow> order_book" where
  "erase_order order_id b =
     (case om_find (live_orders b) order_id of
        None \<Rightarrow> b
      | Some order \<Rightarrow>
          let b = subtract_level (order_side order) (order_price order) (order_quantity order) b
          in b\<lparr>live_orders := om_erase order_id (live_orders b)\<rparr>)"

definition apply_add :: "add_order_msg \<Rightarrow> order_book \<Rightarrow> order_book" where
  "apply_add add b =
     (case decode_side add of
        None \<Rightarrow> b
      | Some side \<Rightarrow>
          let order_id = decode_order_id_add add;
              b = erase_order order_id b;
              state = \<lparr>order_side = side, order_quantity = decode_quantity_add add,
                       order_price = decode_price_add add\<rparr>;
              b = add_level (order_side state) (order_price state) (order_quantity state) b
          in b\<lparr>live_orders := om_assign order_id state (live_orders b)\<rparr>)"

text \<open>
  The iterator into \<open>live_orders_\<close> is written through before the quantity is tested; an
  order modified to quantity zero is erased.
\<close>

definition apply_modify :: "modify_order_msg \<Rightarrow> order_book \<Rightarrow> order_book" where
  "apply_modify modify b =
     (let order_id = decode_order_id_modify modify in
      case om_find (live_orders b) order_id of
        None \<Rightarrow> b
      | Some order \<Rightarrow>
          let b = subtract_level (order_side order) (order_price order) (order_quantity order) b;
              order = order\<lparr>order_price := decode_price_modify modify,
                            order_quantity := decode_quantity_modify modify\<rparr>;
              b = b\<lparr>live_orders := om_assign order_id order (live_orders b)\<rparr>
          in if order_quantity order = 0
             then b\<lparr>live_orders := om_erase order_id (live_orders b)\<rparr>
             else add_level (order_side order) (order_price order) (order_quantity order) b)"

definition apply_delete :: "delete_order_msg \<Rightarrow> order_book \<Rightarrow> order_book" where
  "apply_delete deleted b = erase_order (decode_order_id_delete deleted) b"

definition apply_trade :: "trade_msg \<Rightarrow> order_book \<Rightarrow> order_book" where
  "apply_trade trade b =
     (let order_id = decode_order_id_trade trade in
      case om_find (live_orders b) order_id of
        None \<Rightarrow> b
      | Some order \<Rightarrow>
          let executed_quantity = min (order_quantity order) (decode_quantity_trade trade);
              b = subtract_level (order_side order) (order_price order) executed_quantity b;
              order = order\<lparr>order_quantity := order_quantity order - executed_quantity\<rparr>;
              b = b\<lparr>live_orders := om_assign order_id order (live_orders b)\<rparr>
          in if order_quantity order = 0
             then b\<lparr>live_orders := om_erase order_id (live_orders b)\<rparr>
             else b)"

fun apply_message :: "message_view \<Rightarrow> order_book \<Rightarrow> order_book" where
  "apply_message (AddMsg a) b = apply_add a b"
| "apply_message (ModifyMsg m) b = apply_modify m b"
| "apply_message (DeleteMsg d) b = apply_delete d b"
| "apply_message (TradeMsg t) b = apply_trade t b"

text \<open>\<open>OrderBook::apply\<close>.\<close>

definition book_apply :: "message_view \<Rightarrow> order_book \<Rightarrow> apply_result \<times> order_book" where
  "book_apply message b =
     (let before = bbo b;
          b' = apply_message message b
      in (\<lparr>before_bbo = before, after_bbo = bbo b'\<rparr>, b'))"

definition apply_messages :: "message_view list \<Rightarrow> order_book \<Rightarrow> order_book" where
  "apply_messages ms b = fold apply_message ms b"

lemma apply_messages_simps [book_simps]:
  "apply_messages [] b = b"
  "apply_messages (m # ms) b = apply_messages ms (apply_message m b)"
  "apply_messages (ms @ ns) b = apply_messages ns (apply_messages ms b)"
  by (simp_all add: apply_messages_def)

end
