(* ===== verification/Book_Spec.thy ===== *)
theory Book_Spec
  imports Order_Book
begin

text \<open>
  What the order book promises: its live orders follow an abstract map of orders, its price
  levels are the sums of the resting quantities, and its best bid and offer are those of the
  live orders.
\<close>

section \<open>Specification\<close>

type_synonym abs_orders = "u64 \<Rightarrow> order_state option"

definition abs_book :: "order_book \<Rightarrow> abs_orders" where
  "abs_book b = om_find (live_orders b)"

fun spec_apply :: "message \<Rightarrow> abs_orders \<Rightarrow> abs_orders" where
  "spec_apply (AddMsg a) M =
     (case decode_side a of
        None \<Rightarrow> M
      | Some s \<Rightarrow> M(decode_order_id_add a \<mapsto>
          \<lparr>order_side = s, order_quantity = decode_quantity_add a,
           order_price = decode_price_add a\<rparr>))"
| "spec_apply (ModifyMsg m) M =
     (case M (decode_order_id_modify m) of
        None \<Rightarrow> M
      | Some ord \<Rightarrow>
          if decode_quantity_modify m = 0 then M(decode_order_id_modify m := None)
          else M(decode_order_id_modify m \<mapsto>
            ord\<lparr>order_price := decode_price_modify m, order_quantity := decode_quantity_modify m\<rparr>))"
| "spec_apply (DeleteMsg d) M = M(decode_order_id_delete d := None)"
| "spec_apply (TradeMsg t) M =
     (case M (decode_order_id_trade t) of
        None \<Rightarrow> M
      | Some ord \<Rightarrow>
          if order_quantity ord \<le> decode_quantity_trade t then M(decode_order_id_trade t := None)
          else M(decode_order_id_trade t \<mapsto>
            ord\<lparr>order_quantity := order_quantity ord - decode_quantity_trade t\<rparr>))"

fun levels :: "side \<Rightarrow> order_book \<Rightarrow> (u32, u32) omap" where
  "levels Buy b = bids b"
| "levels Sell b = asks b"

definition contribution :: "side \<Rightarrow> u32 \<Rightarrow> order_state \<Rightarrow> nat" where
  "contribution s p ord =
     (if order_side ord = s \<and> order_price ord = p then unat (order_quantity ord) else 0)"

text \<open>The quantity resting at a price, and the quantity of the whole book.\<close>

definition resting :: "side \<Rightarrow> u32 \<Rightarrow> order_book \<Rightarrow> nat" where
  "resting s p b = om_total (\<lambda>_. contribution s p) (live_orders b)"

definition open_volume :: "order_book \<Rightarrow> nat" where
  "open_volume b = om_total (\<lambda>_ ord. unat (order_quantity ord)) (live_orders b)"

fun added_volume :: "message \<Rightarrow> nat" where
  "added_volume (AddMsg a) = unat (decode_quantity_add a)"
| "added_volume (ModifyMsg m) = unat (decode_quantity_modify m)"
| "added_volume (DeleteMsg d) = 0"
| "added_volume (TradeMsg t) = 0"

fun positive_add :: "message \<Rightarrow> bool" where
  "positive_add (AddMsg a) \<longleftrightarrow> decode_quantity_add a \<noteq> 0"
| "positive_add _ \<longleftrightarrow> True"

definition book_wf :: "order_book \<Rightarrow> bool" where
  "book_wf b \<longleftrightarrow> om_inv (live_orders b) \<and> om_inv (bids b) \<and> om_inv (asks b)"

definition book_exact :: "order_book \<Rightarrow> bool" where
  "book_exact b \<longleftrightarrow> book_wf b \<and> (\<forall>s p. unat (om_index (levels s b) p) = resting s p b)"

definition book_tight :: "order_book \<Rightarrow> bool" where
  "book_tight b \<longleftrightarrow>
     (\<forall>s p. om_find (levels s b) p \<noteq> Some 0) \<and>
     (\<forall>i ord. om_find (live_orders b) i = Some ord \<longrightarrow> order_quantity ord \<noteq> 0)"

text \<open>The best level of a side over the live orders themselves.\<close>

definition better :: "side \<Rightarrow> u32 \<Rightarrow> u32 \<Rightarrow> bool" where
  "better s p p' \<longleftrightarrow> (case s of Buy \<Rightarrow> p' \<le> p | Sell \<Rightarrow> p \<le> p')"

definition best_level :: "side \<Rightarrow> order_book \<Rightarrow> level option \<Rightarrow> bool" where
  "best_level s b best \<longleftrightarrow>
     (case best of
        None \<Rightarrow> \<forall>i ord. om_find (live_orders b) i = Some ord \<longrightarrow> order_side ord \<noteq> s
      | Some l \<Rightarrow>
          (\<exists>i ord. om_find (live_orders b) i = Some ord \<and> order_side ord = s \<and>
             order_price ord = level_price l) \<and>
          (\<forall>i ord. om_find (live_orders b) i = Some ord \<and> order_side ord = s \<longrightarrow>
             better s (level_price l) (order_price ord)) \<and>
          unat (level_quantity l) = resting s (level_price l) b)"

section \<open>Frame facts\<close>

lemma levels_add_level [book_simps]:
  "levels s' (add_level s p q b) =
     (if s' = s then om_assign p (om_index (levels s b) p + q) (levels s b) else levels s' b)"
  by (cases s; cases s') (simp_all add: add_level_def)

lemma levels_subtract_level [book_simps]:
  "levels s' (subtract_level s p q b) =
     (if s' \<noteq> s then levels s' b
      else case om_find (levels s b) p of
        None \<Rightarrow> levels s b
      | Some v \<Rightarrow> if v \<le> q then om_erase p (levels s b)
                  else om_assign p (v - q) (levels s b))"
  by (cases s; cases s') (simp_all add: subtract_level_def split: option.split)

lemma live_orders_levels [book_simps]:
  "live_orders (add_level s p q b) = live_orders b"
  "live_orders (subtract_level s p q b) = live_orders b"
  by (simp_all add: add_level_def subtract_level_def split: option.split)

lemma levels_live_orders_update [book_simps]: "levels s (live_orders_update f b) = levels s b"
  by (cases s) simp_all

lemma book_wf_iff: "book_wf b \<longleftrightarrow> om_inv (live_orders b) \<and> (\<forall>s. om_inv (levels s b))"
  by (metis (full_types) book_wf_def levels.simps side.exhaust)

lemma book_wf_levels [book_simps]:
  "book_wf b \<Longrightarrow> book_wf (add_level s p q b)"
  "book_wf b \<Longrightarrow> book_wf (subtract_level s p q b)"
  by (auto simp: book_wf_iff book_simps map_simps split: option.split)

lemma index_subtract_level:
  assumes "book_wf b" and "q \<le> om_index (levels s b) p"
  shows "om_index (levels s' (subtract_level s p q b)) p' =
    (if s' = s \<and> p' = p then om_index (levels s b) p - q else om_index (levels s' b) p')"
proof (cases "s' = s")
  case True
  with assms show ?thesis
    by (cases "om_find (levels s b) p")
      (auto simp: book_simps map_simps book_wf_iff om_index_def [of "levels s b" p])
next
  case False
  then show ?thesis by (simp add: book_simps)
qed

lemma order_book_eqI:
  "live_orders b = live_orders c \<Longrightarrow> (\<And>s. levels s b = levels s c) \<Longrightarrow> b = (c :: order_book)"
  by (metis levels.simps old.unit.exhaust order_book.surjective)

section \<open>Normal forms of the operations\<close>

text \<open>Putting a new order in the book: its level first, then the order.\<close>

definition insert_order :: "u64 \<Rightarrow> order_state \<Rightarrow> order_book \<Rightarrow> order_book" where
  "insert_order i ord b =
     (let b = add_level (order_side ord) (order_price ord) (order_quantity ord) b
      in b\<lparr>live_orders := om_assign i ord (live_orders b)\<rparr>)"

lemma insert_order_simps [book_simps]:
  "live_orders (insert_order i ord b) = om_assign i ord (live_orders b)"
  "levels s (insert_order i ord b) =
     levels s (add_level (order_side ord) (order_price ord) (order_quantity ord) b)"
  by (simp_all add: insert_order_def Let_def book_simps)

lemma erase_order_simps [book_simps]:
  "om_find (live_orders b) i = None \<Longrightarrow> erase_order i b = b"
  "om_find (live_orders b) i = Some ord \<Longrightarrow>
     levels s (erase_order i b) =
       levels s (subtract_level (order_side ord) (order_price ord) (order_quantity ord) b)"
  by (simp_all add: erase_order_def Let_def book_simps)

lemma live_orders_erase_order [book_simps]:
  "live_orders (erase_order i b) = om_erase i (live_orders b)"
  by (cases "om_find (live_orders b) i")
    (simp_all add: erase_order_def Let_def book_simps om_erase_absent)

lemma apply_add_insert:
  "apply_add a b =
     (case decode_side a of
        None \<Rightarrow> b
      | Some s \<Rightarrow> insert_order (decode_order_id_add a)
          \<lparr>order_side = s, order_quantity = decode_quantity_add a,
           order_price = decode_price_add a\<rparr>
          (erase_order (decode_order_id_add a) b))"
  by (simp add: apply_add_def insert_order_def Let_def split: option.split)

lemma apply_modify_insert:
  assumes "book_wf b"
  shows "apply_modify m b =
     (case om_find (live_orders b) (decode_order_id_modify m) of
        None \<Rightarrow> b
      | Some ord \<Rightarrow>
          if decode_quantity_modify m = 0 then erase_order (decode_order_id_modify m) b
          else insert_order (decode_order_id_modify m)
            (ord\<lparr>order_price := decode_price_modify m, order_quantity := decode_quantity_modify m\<rparr>)
            (erase_order (decode_order_id_modify m) b))"
proof (cases "om_find (live_orders b) (decode_order_id_modify m)")
  case None
  then show ?thesis by (simp add: apply_modify_def)
next
  case (Some ord)
  with assms show ?thesis
    by (auto intro!: order_book_eqI
        simp: apply_modify_def Let_def book_simps book_wf_iff om_erase_assign om_assign_erase)
qed

lemma apply_trade_cases:
  assumes "book_wf b" and "om_find (live_orders b) (decode_order_id_trade t) = Some ord"
  shows "apply_trade t b =
    (if order_quantity ord \<le> decode_quantity_trade t then erase_order (decode_order_id_trade t) b
     else (subtract_level (order_side ord) (order_price ord) (decode_quantity_trade t) b)
       \<lparr>live_orders := om_assign (decode_order_id_trade t)
          (ord\<lparr>order_quantity := order_quantity ord - decode_quantity_trade t\<rparr>) (live_orders b)\<rparr>)"
proof (cases "order_quantity ord \<le> decode_quantity_trade t")
  case True
  with assms show ?thesis
    by (auto intro!: order_book_eqI simp: apply_trade_def Let_def book_simps min_def
        book_wf_iff om_erase_assign)
next
  case False
  then have "order_quantity ord - decode_quantity_trade t \<noteq> 0" by auto
  with False assms show ?thesis
    by (simp add: apply_trade_def Let_def min_def book_simps)
qed

end
