(* ===== verification/Book_Correct.thy ===== *)
theory Book_Correct
  imports Book_Spec
begin

text \<open>
  Every operation of the order book keeps its invariant, and the book refines the abstract
  map of orders.
\<close>

section \<open>Well-formedness and refinement\<close>

lemma book_wf_empty: "book_wf empty_book"
  by (simp add: book_wf_def empty_book_def)

lemma book_wf_live_orders:
  "book_wf b \<Longrightarrow> book_wf (b\<lparr>live_orders := om_assign i ord (live_orders b)\<rparr>)"
  "book_wf b \<Longrightarrow> book_wf (b\<lparr>live_orders := om_erase i (live_orders b)\<rparr>)"
  by (simp_all add: book_wf_def map_simps)

lemma book_wf_erase_order: "book_wf b \<Longrightarrow> book_wf (erase_order i b)"
  using book_wf_live_orders(2) [of "subtract_level _ _ _ b"]
  by (auto simp: erase_order_def Let_def book_simps split: option.split)

lemma book_wf_insert_order: "book_wf b \<Longrightarrow> book_wf (insert_order i ord b)"
  unfolding insert_order_def Let_def by (intro book_wf_live_orders book_wf_levels)

lemma book_wf_apply: "book_wf b \<Longrightarrow> book_wf (apply_message m b)"
proof (cases m)
  case (TradeMsg t)
  assume wf: "book_wf b"
  have "book_wf (c\<lparr>live_orders := om_assign i ord (live_orders b)\<rparr>)"
    if "book_wf c" for c i ord
    using wf that by (simp add: book_wf_def map_simps)
  then show ?thesis
    using wf TradeMsg
    by (cases "om_find (live_orders b) (decode_order_id_trade t)")
      (simp_all add: apply_trade_cases book_wf_erase_order book_wf_levels,
        simp add: apply_trade_def)
qed (auto simp: apply_add_insert apply_modify_insert apply_delete_def book_wf_erase_order
    book_wf_insert_order split: option.split)

lemma abs_book_insert: "abs_book (insert_order i ord b) = (abs_book b)(i \<mapsto> ord)"
  by (rule ext) (simp add: abs_book_def book_simps map_simps)

lemma abs_book_erase: "book_wf b \<Longrightarrow> abs_book (erase_order i b) = (abs_book b)(i := None)"
  by (rule ext) (simp add: abs_book_def book_simps map_simps book_wf_def)

lemma abs_book_apply: "book_wf b \<Longrightarrow> abs_book (apply_message m b) = spec_apply m (abs_book b)"
proof (cases m)
  case (TradeMsg t)
  assume wf: "book_wf b"
  show ?thesis
  proof (cases "om_find (live_orders b) (decode_order_id_trade t)")
    case None
    then show ?thesis by (simp add: TradeMsg apply_trade_def abs_book_def)
  next
    case (Some ord)
    then show ?thesis
      using wf by (auto simp: TradeMsg apply_trade_cases abs_book_erase)
        (auto simp: abs_book_def map_simps fun_eq_iff)
  qed
qed (auto simp: apply_add_insert apply_modify_insert apply_delete_def abs_book_erase
    abs_book_insert abs_book_def [symmetric] fun_upd_upd [of _ _ None] split: option.split)

section \<open>Volumes\<close>

lemma resting_le_volume: "book_wf b \<Longrightarrow> resting s p b \<le> open_volume b"
  unfolding resting_def open_volume_def
  by (rule om.total_mono) (simp_all add: book_wf_def contribution_def)

lemma resting_insert:
  "book_wf b \<Longrightarrow> om_find (live_orders b) i = None \<Longrightarrow>
     resting s p (insert_order i ord b) = resting s p b + contribution s p ord"
  using om.total_assign [of "live_orders b" "\<lambda>_. contribution s p" i ord]
  by (simp add: resting_def book_simps book_wf_def)

lemma resting_erase:
  "book_wf b \<Longrightarrow> resting s p (erase_order i b) +
     (case om_find (live_orders b) i of None \<Rightarrow> 0 | Some ord \<Rightarrow> contribution s p ord) = resting s p b"
  using om.total_erase [of "live_orders b" "\<lambda>_. contribution s p" i]
  by (simp add: resting_def book_simps book_wf_def)

lemma volume_insert:
  "book_wf b \<Longrightarrow> om_find (live_orders b) i = None \<Longrightarrow>
     open_volume (insert_order i ord b) = open_volume b + unat (order_quantity ord)"
  using om.total_assign [of "live_orders b" "\<lambda>_ ord. unat (order_quantity ord)" i ord]
  by (simp add: open_volume_def book_simps book_wf_def)

lemma volume_erase: "book_wf b \<Longrightarrow> open_volume (erase_order i b) \<le> open_volume b"
  using om.total_erase [of "live_orders b" "\<lambda>_ ord. unat (order_quantity ord)" i]
  by (simp add: open_volume_def book_simps book_wf_def)

section \<open>Exact levels\<close>

lemma book_exact_empty: "book_exact empty_book"
proof -
  have "levels s empty_book = []" for s
    by (cases s) (simp_all add: empty_book_def)
  then show ?thesis
    using book_wf_empty
    by (simp add: book_exact_def map_simps resting_def om_total_def) (simp add: empty_book_def)
qed

lemma exact_contribution:
  assumes "book_exact b" and "om_find (live_orders b) i = Some ord"
  shows "order_quantity ord \<le> om_index (levels (order_side ord) b) (order_price ord)"
proof -
  have "contribution (order_side ord) (order_price ord) ord
      \<le> resting (order_side ord) (order_price ord) b"
    unfolding resting_def using assms
    by (intro om.total_member) (simp_all add: book_exact_def book_wf_def)
  with assms show ?thesis
    by (simp add: book_exact_def contribution_def word_le_nat_alt)
qed

lemma book_exact_erase:
  assumes exact: "book_exact b"
  shows "book_exact (erase_order i b)"
proof (cases "om_find (live_orders b) i")
  case None
  with exact show ?thesis by (simp add: book_simps)
next
  case (Some ord)
  have wf: "book_wf b" using exact by (simp add: book_exact_def)
  have "unat (om_index (levels s (erase_order i b)) p) = resting s p (erase_order i b)" for s p
    using resting_erase [OF wf, of s p i] exact_contribution [OF exact Some] exact
    by (auto simp: Some erase_order_simps(2) [OF Some] index_subtract_level [OF wf]
        contribution_def unat_sub book_exact_def)
  then show ?thesis
    using book_wf_erase_order [OF wf] by (simp add: book_exact_def)
qed

lemma book_exact_insert:
  assumes exact: "book_exact b" and new: "om_find (live_orders b) i = None"
    and fits: "open_volume b + unat (order_quantity ord) < 2 ^ 32"
  shows "book_exact (insert_order i ord b)"
proof -
  have wf: "book_wf b" using exact by (simp add: book_exact_def)
  have "unat (om_index (levels s (insert_order i ord b)) p) = resting s p (insert_order i ord b)"
    for s p
  proof -
    have "unat (om_index (levels s b) p) + unat (order_quantity ord) < 2 ^ 32"
      using fits resting_le_volume [OF wf, of s p] exact by (simp add: book_exact_def)
    then have "unat (om_index (levels s b) p + order_quantity ord)
        = unat (om_index (levels s b) p) + unat (order_quantity ord)"
      by (simp add: unat_word_ariths)
    then show ?thesis
      using exact by (auto simp: resting_insert [OF wf new] book_simps map_simps
          contribution_def book_exact_def)
  qed
  then show ?thesis
    using book_wf_insert_order [OF wf] by (simp add: book_exact_def)
qed

text \<open>A trade for a part of an order.\<close>

lemma book_exact_partial_trade:
  assumes exact: "book_exact b" and found: "om_find (live_orders b) (decode_order_id_trade t) = Some ord"
    and part: "\<not> order_quantity ord \<le> decode_quantity_trade t"
  shows "book_exact (apply_trade t b) \<and> open_volume (apply_trade t b) \<le> open_volume b"
proof -
  let ?q = "decode_quantity_trade t" and ?i = "decode_order_id_trade t"
  let ?ord = "ord\<lparr>order_quantity := order_quantity ord - ?q\<rparr>"
  have wf: "book_wf b" using exact by (simp add: book_exact_def)
  have less: "unat (order_quantity ord - ?q) + unat ?q = unat (order_quantity ord)"
    using part by (simp add: unat_sub word_le_nat_alt)
  have post: "live_orders (apply_trade t b) = om_assign ?i ?ord (live_orders b)"
    "\<And>s. levels s (apply_trade t b)
      = levels s (subtract_level (order_side ord) (order_price ord) ?q b)"
    using part by (simp_all add: apply_trade_cases [OF wf found] book_simps)
  have room: "?q \<le> om_index (levels (order_side ord) b) (order_price ord)"
    using exact_contribution [OF exact found] part by auto
  have "unat (om_index (levels s (apply_trade t b)) p) = resting s p (apply_trade t b)" for s p
  proof -
    have moved: "resting s p (apply_trade t b) + contribution s p ord
        = resting s p b + contribution s p ?ord"
      using om.total_assign [of "live_orders b" "\<lambda>_. contribution s p" ?i ?ord] wf found
      by (simp add: resting_def post book_wf_def)
    have "unat (om_index (levels s b) p) = resting s p b"
      using exact by (simp add: book_exact_def)
    with moved less room show ?thesis
      by (cases "s = order_side ord \<and> p = order_price ord")
        (auto simp: post index_subtract_level [OF wf] unat_sub contribution_def)
  qed
  moreover have "open_volume (apply_trade t b) \<le> open_volume b"
    using om.total_assign [of "live_orders b" "\<lambda>_ ord. unat (order_quantity ord)" ?i ?ord]
      wf found less by (simp add: open_volume_def post book_wf_def)
  ultimately show ?thesis
    using book_wf_apply [OF wf, of "TradeMsg t"] by (simp add: book_exact_def)
qed

lemma book_exact_trade:
  assumes exact: "book_exact b"
  shows "book_exact (apply_trade t b) \<and> open_volume (apply_trade t b) \<le> open_volume b"
proof (cases "om_find (live_orders b) (decode_order_id_trade t)")
  case None
  with exact show ?thesis by (simp add: apply_trade_def)
next
  case (Some ord)
  have wf: "book_wf b" using exact by (simp add: book_exact_def)
  show ?thesis
  proof (cases "order_quantity ord \<le> decode_quantity_trade t")
    case True
    with exact wf show ?thesis
      by (simp add: apply_trade_cases [OF wf Some] book_exact_erase volume_erase)
  next
    case False
    with book_exact_partial_trade [OF exact Some] show ?thesis by blast
  qed
qed

lemma book_exact_apply:
  assumes exact: "book_exact b" and fits: "open_volume b + added_volume m < 2 ^ 32"
  shows "book_exact (apply_message m b)"
    and "open_volume (apply_message m b) \<le> open_volume b + added_volume m"
proof -
  have wf: "book_wf b" using exact by (simp add: book_exact_def)
  have gone: "om_find (live_orders (erase_order i b)) i = None" for i
    using wf by (simp add: book_simps map_simps book_wf_def)
  have exact_replace: "book_exact (insert_order i ord (erase_order i b))"
    and volume_replace: "open_volume (insert_order i ord (erase_order i b))
      \<le> open_volume b + unat (order_quantity ord)"
    if "open_volume b + unat (order_quantity ord) < 2 ^ 32" for i ord
    using that volume_erase [OF wf, of i] book_exact_erase [OF exact, of i]
    by (simp_all add: book_exact_insert gone volume_insert book_wf_erase_order [OF wf])
  have "book_exact (apply_message m b) \<and> open_volume (apply_message m b) \<le> open_volume b + added_volume m"
    using exact fits volume_erase [OF wf] book_exact_erase [OF exact] book_exact_trade
    by (cases m) (auto simp: apply_add_insert apply_modify_insert [OF wf] apply_delete_def
        intro!: exact_replace order.trans [OF volume_replace] intro: trans_le_add1
        split: option.split)
  then show "book_exact (apply_message m b)"
    and "open_volume (apply_message m b) \<le> open_volume b + added_volume m" by simp_all
qed

section \<open>No empty levels\<close>

lemma book_tight_empty: "book_tight empty_book"
proof -
  have "levels s empty_book = []" for s
    by (cases s) (simp_all add: empty_book_def)
  then show ?thesis by (simp add: book_tight_def om.find_empty) (simp add: empty_book_def map_simps)
qed

lemma find_subtract_level_nonzero:
  assumes "book_wf b" and "\<forall>s p. om_find (levels s b) p \<noteq> Some 0"
  shows "om_find (levels s (subtract_level s' p' q b)) p \<noteq> Some 0"
  using assms by (auto simp: book_simps map_simps book_wf_iff split: option.split)

lemma book_tight_erase: "book_wf b \<Longrightarrow> book_tight b \<Longrightarrow> book_tight (erase_order i b)"
  by (cases "om_find (live_orders b) i")
    (auto simp: book_tight_def find_subtract_level_nonzero erase_order_simps
      live_orders_erase_order map_simps book_wf_def)

lemma book_tight_insert:
  assumes "book_exact (insert_order i ord b)" and "book_tight b" and "order_quantity ord \<noteq> 0"
  shows "book_tight (insert_order i ord b)"
proof -
  let ?c = "insert_order i ord b"
  have live: "om_find (live_orders ?c) i = Some ord"
    by (simp add: book_simps map_simps)
  have "om_index (levels (order_side ord) ?c) (order_price ord) \<noteq> 0"
    using exact_contribution [OF assms(1) live] assms(3) by (metis word_le_0_iff)
  moreover have "om_find (levels s ?c) p = om_find (levels s b) p"
    if "s \<noteq> order_side ord \<or> p \<noteq> order_price ord" for s p
    using that by (auto simp: book_simps map_simps)
  ultimately have "om_find (levels s ?c) p \<noteq> Some 0" for s p
    using assms(2) unfolding book_tight_def om_index_def
    by (cases "s = order_side ord \<and> p = order_price ord") auto
  moreover have "order_quantity ord' \<noteq> 0" if "om_find (live_orders ?c) j = Some ord'" for j ord'
    using that assms(2,3) by (auto simp: book_simps map_simps book_tight_def split: if_splits)
  ultimately show ?thesis by (simp add: book_tight_def)
qed

lemma book_tight_trade:
  assumes "book_wf b" and "book_tight b"
  shows "book_tight (apply_trade t b)"
proof (cases "om_find (live_orders b) (decode_order_id_trade t)")
  case None
  with assms show ?thesis by (simp add: apply_trade_def)
next
  case (Some ord)
  have "order_quantity ord - decode_quantity_trade t \<noteq> 0"
    if "\<not> order_quantity ord \<le> decode_quantity_trade t"
    using that by auto
  then show ?thesis
    using assms Some
    by (auto simp: apply_trade_cases book_tight_erase)
      (auto simp: book_tight_def find_subtract_level_nonzero levels_live_orders_update map_simps
        split: if_splits)
qed

lemma book_tight_apply:
  assumes exact: "book_exact b" and tight: "book_tight b" and "positive_add m"
    and fits: "open_volume b + added_volume m < 2 ^ 32"
  shows "book_tight (apply_message m b)"
proof -
  have wf: "book_wf b" using exact by (simp add: book_exact_def)
  note exact' = book_exact_apply(1) [OF exact fits]
  show ?thesis
  proof (cases m)
    case (AddMsg a)
    with assms exact' show ?thesis
      by (auto simp: apply_add_insert book_tight_insert book_tight_erase [OF wf]
          split: option.splits)
  next
    case (ModifyMsg m')
    with assms exact' show ?thesis
      by (auto simp: apply_modify_insert [OF wf] book_tight_insert book_tight_erase [OF wf]
          split: option.splits)
  next
    case (DeleteMsg d)
    with tight show ?thesis by (simp add: apply_delete_def book_tight_erase [OF wf])
  next
    case (TradeMsg t)
    with tight show ?thesis by (simp add: book_tight_trade [OF wf])
  qed
qed

section \<open>Best bid and offer\<close>

lemma level_iff_order:
  assumes exact: "book_exact b" and tight: "book_tight b"
  shows "om_find (levels s b) p \<noteq> None \<longleftrightarrow>
    (\<exists>i ord. om_find (live_orders b) i = Some ord \<and> order_side ord = s \<and> order_price ord = p)"
proof
  assume "om_find (levels s b) p \<noteq> None"
  then have "om_index (levels s b) p \<noteq> 0"
    using tight by (auto simp: om_index_def book_tight_def)
  then have "0 < om_total (\<lambda>_. contribution s p) (live_orders b)"
    using exact by (simp add: book_exact_def resting_def unat_eq_0 [symmetric])
  then obtain i ord where "om_find (live_orders b) i = Some ord" "0 < contribution s p ord"
    using om.total_pos_member [of "live_orders b" "\<lambda>_. contribution s p"] exact
    by (auto simp: book_exact_def book_wf_def)
  then show "\<exists>i ord. om_find (live_orders b) i = Some ord \<and> order_side ord = s \<and> order_price ord = p"
    by (auto simp: contribution_def split: if_splits)
next
  assume "\<exists>i ord. om_find (live_orders b) i = Some ord \<and> order_side ord = s \<and> order_price ord = p"
  then obtain i ord where live: "om_find (live_orders b) i = Some ord"
    and at: "order_side ord = s" "order_price ord = p" by blast
  have "order_quantity ord \<noteq> 0" using tight live by (auto simp: book_tight_def)
  with exact_contribution [OF exact live] at show "om_find (levels s b) p \<noteq> None"
    by (cases "om_find (levels s b) p") (simp_all add: om_index_def word_le_0_iff)
qed

lemma level_quantity_exact:
  "book_exact b \<Longrightarrow> om_find (levels s b) p = Some q \<Longrightarrow> unat q = resting s p b"
  by (metis book_exact_def om_index_def option.simps(5))

lemma best_bid_correct:
  assumes "book_exact b" and "book_tight b"
  shows "best_level Buy b (best_bid (bbo b))"
proof (cases "om_last (bids b)")
  case None
  then have "\<forall>p. om_find (levels Buy b) p = None"
    using assms(1) om.final_None_iff [of "bids b"] by (simp add: book_exact_def book_wf_def)
  then have "order_side ord \<noteq> Buy" if "om_find (live_orders b) i = Some ord" for i ord
    using level_iff_order [OF assms, of Buy "order_price ord"] that by auto
  with None show ?thesis by (simp add: best_level_def bbo_def)
next
  case (Some e)
  obtain p q where e: "e = (p, q)" by (cases e)
  have top: "om_find (levels Buy b) p = Some q" "\<forall>p'. om_find (levels Buy b) p' \<noteq> None \<longrightarrow> p' \<le> p"
    using assms(1) Some om.final_iff [of "bids b" p q] by (simp_all add: e book_exact_def book_wf_def)
  show ?thesis
    using level_iff_order [OF assms, of Buy] top level_quantity_exact [OF assms(1) top(1)]
    by (auto simp: best_level_def bbo_def Some e better_def)
qed

lemma best_ask_correct:
  assumes "book_exact b" and "book_tight b"
  shows "best_level Sell b (best_ask (bbo b))"
proof (cases "om_first (asks b)")
  case None
  then have "\<forall>p. om_find (levels Sell b) p = None"
    using assms(1) om.first_None_iff [of "asks b"] by (simp add: book_exact_def book_wf_def)
  then have "order_side ord \<noteq> Sell" if "om_find (live_orders b) i = Some ord" for i ord
    using level_iff_order [OF assms, of Sell "order_price ord"] that by auto
  with None show ?thesis by (simp add: best_level_def bbo_def)
next
  case (Some e)
  obtain p q where e: "e = (p, q)" by (cases e)
  have top: "om_find (levels Sell b) p = Some q" "\<forall>p'. om_find (levels Sell b) p' \<noteq> None \<longrightarrow> p \<le> p'"
    using assms(1) Some om.first_iff [of "asks b" p q] by (simp_all add: e book_exact_def book_wf_def)
  show ?thesis
    using level_iff_order [OF assms, of Sell] top level_quantity_exact [OF assms(1) top(1)]
    by (auto simp: best_level_def bbo_def Some e better_def)
qed

section \<open>Runs of messages\<close>

definition run_volume :: "message list \<Rightarrow> nat" where
  "run_volume ms = sum_list (map added_volume ms)"

lemma apply_messages_invariant:
  assumes "book_exact b" and "open_volume b + run_volume ms < 2 ^ 32"
  shows "book_exact (apply_messages ms b) \<and>
    (book_tight b \<and> list_all positive_add ms \<longrightarrow> book_tight (apply_messages ms b))"
  using assms
proof (induction ms arbitrary: b)
  case Nil
  then show ?case by (simp add: book_simps)
next
  case (Cons m ms)
  have fits: "open_volume b + added_volume m < 2 ^ 32"
    using Cons.prems by (simp add: run_volume_def)
  note step = book_exact_apply [OF Cons.prems(1) fits]
  have "open_volume (apply_message m b) + run_volume ms < 2 ^ 32"
    using step(2) Cons.prems(2) by (simp add: run_volume_def)
  from Cons.IH [OF step(1) this] show ?case
    using book_tight_apply [OF Cons.prems(1) _ _ fits] by (auto simp: book_simps)
qed

lemma abs_book_messages:
  "book_wf b \<Longrightarrow> abs_book (apply_messages ms b) = fold spec_apply ms (abs_book b)"
  by (induction ms arbitrary: b) (simp_all add: book_simps abs_book_apply book_wf_apply)

lemma book_wf_messages: "book_wf b \<Longrightarrow> book_wf (apply_messages ms b)"
  by (induction ms arbitrary: b) (simp_all add: book_simps book_wf_apply)

lemma open_volume_empty: "open_volume empty_book = 0"
  by (simp add: open_volume_def empty_book_def om_total_def)

section \<open>Undoing an addition\<close>

lemma om_assign_same: "om_inv m \<Longrightarrow> om_find m k = Some v \<Longrightarrow> om_assign k v m = m"
  by (rule om_ext) (auto simp: map_simps)

lemma level_add_subtract:
  assumes inv: "om_inv m" and nz: "om_find m p \<noteq> Some 0"
    and fits: "unat (om_index m p) + unat (q :: u32) < 2 ^ 32"
  shows "(if om_index m p + q \<le> q then om_erase p (om_assign p (om_index m p + q) m)
      else om_assign p (om_index m p + q - q) (om_assign p (om_index m p + q) m)) = m"
proof (cases "om_find m p")
  case None
  then show ?thesis
    by (simp add: om_index_def om_erase_assign [OF inv] om_erase_absent)
next
  case (Some v)
  with nz have v: "om_index m p = v" "0 < unat v" by (simp_all add: om_index_def unat_gt_0)
  then have "unat (v + q) = unat v + unat q"
    using fits by (simp add: unat_word_ariths)
  then have "\<not> v + q \<le> q" using v by (simp add: word_le_nat_alt)
  with Some v show ?thesis
    by (simp add: om_assign_assign [OF inv] om_assign_same [OF inv])
qed

lemma erase_inserted_order:
  assumes wf: "book_wf b" and nz: "om_find (levels (order_side ord) b) (order_price ord) \<noteq> Some 0"
    and new: "om_find (live_orders b) i = None"
    and fits: "unat (om_index (levels (order_side ord) b) (order_price ord)) +
      unat (order_quantity ord) < 2 ^ 32"
  shows "erase_order i (insert_order i ord b) = b"
proof (rule order_book_eqI)
  have inv: "om_inv (live_orders b)" "\<And>s. om_inv (levels s b)"
    using wf by (simp_all add: book_wf_iff)
  show "live_orders (erase_order i (insert_order i ord b)) = live_orders b"
    using inv(1) new by (simp add: book_simps om_erase_assign om_erase_absent)
  have "om_find (live_orders (insert_order i ord b)) i = Some ord"
    by (simp add: book_simps map_simps)
  from erase_order_simps(2) [OF this]
  show "levels s (erase_order i (insert_order i ord b)) = levels s b" for s
    using level_add_subtract [OF inv(2) nz fits] by (auto simp: book_simps map_simps split: if_splits)
qed

section \<open>Properties of the order book\<close>

text \<open>
  C13. The order book refines a map of orders: every message changes the live orders the way the
  specification \<open>spec_apply\<close> says, for messages of every kind and with any contents, and keeps
  the three containers sorted and free of duplicates.
\<close>

theorem order_book_refines_spec:
  assumes "book_wf b"
  shows "abs_book (apply_message m b) = spec_apply m (abs_book b) \<and> book_wf (apply_message m b)"
  using abs_book_apply [OF assms] book_wf_apply [OF assms] by simp

theorem order_book_refines_spec_witness:
  "abs_book (apply_message (TradeMsg (make_trade_msg 1 5 5)) empty_book) 1 = None"
  using order_book_refines_spec [OF book_wf_empty, of "TradeMsg (make_trade_msg 1 5 5)"]
  by (simp add: abs_book_def empty_book_def wire_simps om.find_empty)

text \<open>
  C14. As long as the quantities that a run of messages adds fit 32 bits together with those in the
  book, every price level is the sum of the quantities that rest there, also with orders of
  quantity zero. If moreover no order is added with quantity zero, the best bid and offer are those
  of the live orders, with exact quantities.
\<close>

theorem bbo_of_run:
  assumes "book_exact b" and "book_tight b" and "open_volume b + run_volume ms < 2 ^ 32"
  shows "book_exact (apply_messages ms b) \<and>
    (list_all positive_add ms \<longrightarrow>
      best_level Buy (apply_messages ms b) (best_bid (bbo (apply_messages ms b))) \<and>
      best_level Sell (apply_messages ms b) (best_ask (bbo (apply_messages ms b))))"
  using apply_messages_invariant [OF assms(1,3)] assms(2) best_bid_correct best_ask_correct by blast

theorem bbo_of_run_witness:
  "best_level Buy (apply_messages [AddMsg (make_add_order_msg 1 Buy 100 7)] empty_book)
     (best_bid (bbo (apply_messages [AddMsg (make_add_order_msg 1 Buy 100 7)] empty_book)))"
proof -
  have "open_volume empty_book + run_volume [AddMsg (make_add_order_msg 1 Buy 100 7)] < 2 ^ 32"
    by (simp add: open_volume_empty run_volume_def wire_simps)
  from bbo_of_run [OF book_exact_empty book_tight_empty this] show ?thesis
    by (simp add: wire_simps)
qed

text \<open>
  Adding an order with a new number and deleting it gives back the very same book.
\<close>

theorem add_then_delete:
  assumes exact: "book_exact b" and tight: "book_tight b"
    and new: "om_find (live_orders b) i = None" and fits: "open_volume b + unat q < 2 ^ 32"
  shows "apply_message (DeleteMsg (make_delete_order_msg i))
    (apply_message (AddMsg (make_add_order_msg i s p q)) b) = b"
proof -
  have wf: "book_wf b" using exact by (simp add: book_exact_def)
  let ?ord = "\<lparr>order_side = s, order_quantity = q, order_price = p\<rparr>"
  have "erase_order i b = b" using new by (simp add: erase_order_def)
  then have add: "apply_message (AddMsg (make_add_order_msg i s p q)) b = insert_order i ?ord b"
    by (simp add: apply_add_insert wire_simps)
  have sum: "unat (om_index (levels s b) p) + unat q < 2 ^ 32"
    using exact resting_le_volume [OF wf, of s p] fits by (simp add: book_exact_def)
  have "erase_order i (insert_order i ?ord b) = b"
    using tight new sum wf by (intro erase_inserted_order) (simp_all add: book_tight_def)
  with add show ?thesis by (simp only: apply_message.simps apply_delete_def decode_make_delete)
qed

theorem add_then_delete_witness:
  "apply_message (DeleteMsg (make_delete_order_msg 3))
    (apply_message (AddMsg (make_add_order_msg 3 Sell 100 9)) empty_book) = empty_book"
  by (rule add_then_delete [OF book_exact_empty book_tight_empty])
    (simp_all add: open_volume_empty, simp add: empty_book_def om.find_empty)

text \<open>
  C15. A modification of a live order to a quantity other than zero is a deletion followed by an
  addition with the same number and side. Modifications, deletions and trades of orders that are
  not live leave the book as it is.
\<close>

theorem modify_is_delete_and_add:
  assumes "book_wf b"
  shows "case om_find (live_orders b) i of
      Some ord \<Rightarrow> q \<noteq> 0 \<longrightarrow> apply_message (ModifyMsg (make_modify_order_msg i p q)) b =
        apply_message (AddMsg (make_add_order_msg i (order_side ord) p q))
          (apply_message (DeleteMsg (make_delete_order_msg i)) b)
    | None \<Rightarrow> apply_message (ModifyMsg (make_modify_order_msg i p q)) b = b \<and>
        apply_message (DeleteMsg (make_delete_order_msg i)) b = b \<and>
        apply_message (TradeMsg (make_trade_msg i p q)) b = b"
proof (cases "om_find (live_orders b) i")
  case None
  then show ?thesis
    by (simp add: apply_modify_def apply_delete_def apply_trade_def erase_order_def wire_simps)
next
  case (Some ord)
  have "om_find (live_orders (erase_order i b)) i = None"
    using assms by (simp add: book_simps map_simps book_wf_iff)
  then have "erase_order i (erase_order i b) = erase_order i b"
    by (rule erase_order_simps(1))
  then show ?thesis
    using assms Some
    by (cases ord) (simp add: apply_modify_insert apply_add_insert apply_delete_def wire_simps)
qed

theorem modify_is_delete_and_add_witness:
  "apply_message (ModifyMsg (make_modify_order_msg 1 101 4))
     (apply_message (AddMsg (make_add_order_msg 1 Buy 100 7)) empty_book) =
   apply_message (AddMsg (make_add_order_msg 1 Buy 101 4))
     (apply_message (DeleteMsg (make_delete_order_msg 1))
       (apply_message (AddMsg (make_add_order_msg 1 Buy 100 7)) empty_book))"
proof -
  let ?b = "apply_message (AddMsg (make_add_order_msg 1 Buy 100 7)) empty_book"
  have wf: "book_wf ?b" by (rule book_wf_apply [OF book_wf_empty])
  have "om_find (live_orders ?b) 1 = Some \<lparr>order_side = Buy, order_quantity = 7, order_price = 100\<rparr>"
    by (simp add: apply_add_insert book_simps map_simps wire_simps)
  with modify_is_delete_and_add [OF wf, of 1 101 4] show ?thesis by simp
qed

text \<open>
  C16. A price level is a 32 bit sum: adding an order with a new number leaves its level at the
  sum of the old quantity and the order's, modulo \<open>2 ^ 32\<close>. The order itself keeps its quantity,
  so from there on the level is too small.
\<close>

theorem add_level_modulo:
  assumes "om_find (live_orders b) i = None"
  shows "unat (om_index (levels s (apply_message (AddMsg (make_add_order_msg i s p q)) b)) p) =
    (unat (om_index (levels s b) p) + unat q) mod 2 ^ 32"
  using assms by (simp add: apply_add_insert book_simps map_simps wire_simps unat_word_ariths)

theorem add_level_modulo_witness:
  "unat (om_index (levels Buy (apply_message (AddMsg (make_add_order_msg 2 Buy 100 1))
     (apply_message (AddMsg (make_add_order_msg 1 Buy 100 (- 1))) empty_book))) 100) = 0"
proof -
  let ?b = "apply_message (AddMsg (make_add_order_msg 1 Buy 100 (- 1))) empty_book"
  have "om_find (live_orders ?b) 2 = None"
    by (simp add: apply_add_insert book_simps map_simps wire_simps empty_book_def om_find_def)
  moreover have "om_index (levels Buy ?b) 100 = - 1"
    by (simp add: apply_add_insert book_simps map_simps wire_simps empty_book_def om_index_def
        om_find_def)
  moreover have "unat (- 1 :: u32) = 4294967295"
    by (simp add: unsigned_minus_1_eq_mask mask_eq_exp_minus_1)
  ultimately show ?thesis
    using add_level_modulo [of ?b 2 Buy 100 1] by simp
qed

text \<open>An order of quantity zero next to another one at a price that had no level.\<close>

lemma fresh_add: "om_find (live_orders b) i = None \<Longrightarrow>
    apply_message (AddMsg (make_add_order_msg i s p q)) b =
      insert_order i \<lparr>order_side = s, order_quantity = q, order_price = p\<rparr> b"
  by (simp add: apply_add_insert wire_simps erase_order_simps(1))

lemma zero_order_loses_level:
  assumes wf: "book_wf b" and i: "om_find (live_orders b) i = Some z" and j: "om_find (live_orders b) j = None"
    and z: "om_find (levels s b) p = Some 0"
  shows "let c = apply_message (DeleteMsg (make_delete_order_msg j))
      (apply_message (AddMsg (make_add_order_msg j s p q)) b)
    in om_find (live_orders c) i = Some z \<and> om_find (levels s c) p = None"
proof -
  let ?ord = "\<lparr>order_side = s, order_quantity = q, order_price = p\<rparr>"
  let ?b = "insert_order j ?ord b"
  have live: "om_find (live_orders ?b) j = Some ?ord" by (simp add: book_simps map_simps)
  have "om_inv (live_orders b)" "om_inv (levels s b)" using wf by (simp_all add: book_wf_iff)
  moreover have "om_index (levels s b) p = 0" using z by (simp add: om_index_def)
  moreover have "i \<noteq> j" using i j by auto
  moreover have "apply_message (DeleteMsg (make_delete_order_msg j))
      (apply_message (AddMsg (make_add_order_msg j s p q)) b) = erase_order j ?b"
    by (simp only: fresh_add [OF j]) (simp add: apply_delete_def wire_simps)
  ultimately show ?thesis
    using i by (simp add: Let_def live_orders_erase_order erase_order_simps(2) [OF live] del: apply_message.simps)
      (simp add: book_simps map_simps)
qed

lemma top_level_reported:
  assumes wf: "book_wf b" and "om_find (levels s b) p = Some q"
    and "\<forall>p'. om_find (levels s b) p' \<noteq> None \<longrightarrow> better s p p'"
  shows "(case s of Buy \<Rightarrow> best_bid (bbo b) | Sell \<Rightarrow> best_ask (bbo b)) = Some (Level p q)"
proof (cases s)
  case Buy
  then have "om_last (bids b) = Some (p, q)"
    using assms om.final_iff [of "bids b" p q] by (simp add: book_wf_def better_def)
  with Buy show ?thesis by (simp add: bbo_def)
next
  case Sell
  then have "om_first (asks b) = Some (p, q)"
    using assms om.first_iff [of "asks b" p q] by (simp add: book_wf_def better_def)
  with Sell show ?thesis by (simp add: bbo_def)
qed

text \<open>
  C17. On either side of any book, an order that is added with a new number and quantity zero is
  live and has a level at its price, with the quantity that was there or, if nothing was there, a
  level of quantity zero; the best bid or offer reports it when no level of its side is better.
  Such a level does not last: another order that comes to it and is deleted takes it away, while
  the order of quantity zero is still live. A modification to quantity zero, in contrast, removes
  the order and gives back the very book from before the addition.
\<close>

theorem zero_quantity_order:
  assumes "book_wf b" and "om_find (live_orders b) i = None" and "om_find (levels s b) p \<noteq> Some 0"
  shows "let zero = \<lparr>order_side = s, order_quantity = 0, order_price = p\<rparr>;
      c = apply_message (AddMsg (make_add_order_msg i s p 0)) b
    in om_find (live_orders c) i = Some zero \<and> live_order_count c = live_order_count b + 1 \<and>
      om_find (levels s c) p = Some (om_index (levels s b) p) \<and>
      ((\<forall>p'. om_find (levels s b) p' \<noteq> None \<longrightarrow> better s p p') \<longrightarrow>
        (case s of Buy \<Rightarrow> best_bid (bbo c) | Sell \<Rightarrow> best_ask (bbo c)) =
          Some (Level p (om_index (levels s b) p))) \<and>
      (om_find (levels s b) p = None \<longrightarrow> om_find (live_orders b) j = None \<longrightarrow> j \<noteq> i \<longrightarrow>
        (let d = apply_message (DeleteMsg (make_delete_order_msg j))
            (apply_message (AddMsg (make_add_order_msg j s p q)) c)
         in om_find (live_orders d) i = Some zero \<and> om_find (levels s d) p = None)) \<and>
      apply_message (ModifyMsg (make_modify_order_msg i p' 0)) c = b"
proof -
  let ?zero = "\<lparr>order_side = s, order_quantity = 0, order_price = p\<rparr>"
  let ?c = "insert_order i ?zero b"
  note c = fresh_add [OF assms(2), of s p 0]
  have wf: "book_wf ?c" by (rule book_wf_insert_order [OF assms(1)])
  have live: "om_find (live_orders ?c) i = Some ?zero"
    and level: "om_find (levels s ?c) p = Some (om_index (levels s b) p)"
    by (simp_all add: book_simps map_simps)
  have "live_order_count ?c = live_order_count b + 1"
    using assms(1,2) om.count_assign [of "live_orders b" i]
    by (simp add: live_order_count_def book_simps book_wf_def)
  moreover have "om_find (levels s ?c) p' = (if p' = p then Some (om_index (levels s b) p)
      else om_find (levels s b) p')" for p'
    by (simp add: book_simps map_simps)
  then have "(\<forall>p'. om_find (levels s b) p' \<noteq> None \<longrightarrow> better s p p') \<longrightarrow>
      (case s of Buy \<Rightarrow> best_bid (bbo ?c) | Sell \<Rightarrow> best_ask (bbo ?c)) =
        Some (Level p (om_index (levels s b) p))"
    using top_level_reported [OF wf level] by (auto simp: better_def split: side.splits)
  moreover have "erase_order i ?c = b"
    using assms unsigned_less [where 'a = nat, of "om_index (levels s b) p"]
    by (intro erase_inserted_order) simp_all
  then have "apply_message (ModifyMsg (make_modify_order_msg i p' 0)) ?c = b"
    using live by (simp add: apply_modify_insert [OF wf] wire_simps)
  moreover have "om_find (levels s b) p = None \<longrightarrow> om_find (live_orders b) j = None \<longrightarrow> j \<noteq> i \<longrightarrow>
      (let d = apply_message (DeleteMsg (make_delete_order_msg j))
          (apply_message (AddMsg (make_add_order_msg j s p q)) ?c)
       in om_find (live_orders d) i = Some ?zero \<and> om_find (levels s d) p = None)"
    using zero_order_loses_level [OF wf live, of j s p q] level
    by (auto simp: book_simps map_simps om_index_def)
  ultimately show ?thesis
    unfolding Let_def c using live level by blast
qed

theorem zero_quantity_order_witness:
  "best_ask (bbo (apply_message (AddMsg (make_add_order_msg 1 Sell 100 0)) empty_book)) = Some (Level 100 0)"
proof -
  have none: "om_find (live_orders empty_book) k = None" "om_find (levels Sell empty_book) p = None" for k p
    by (simp_all add: empty_book_def om.find_empty)
  then have "om_find (levels Sell empty_book) 100 \<noteq> Some 0" by simp
  from zero_quantity_order [OF book_wf_empty none(1) this, of 1 2 7 0] none show ?thesis
    by (simp add: Let_def om_index_def del: apply_message.simps levels.simps)
qed

end
