(* ===== verification/Generator_Correct.thy ===== *)
theory Generator_Correct
  imports Exchange_Sim Book_Correct
begin

text \<open>
  The generator of \<open>src/exchange_sim/main.cpp\<close> and the books of its readers: the live orders that
  the generator keeps are those of any order book that has applied its messages, and its
  messages only refer to them.
\<close>

section \<open>The generator's invariant\<close>

definition gen_state :: "live_order \<Rightarrow> order_state" where
  "gen_state o' = \<lparr>order_side = lo_side o', order_quantity = lo_quantity o', order_price = lo_price o'\<rparr>"

definition gen_book :: "generator \<Rightarrow> abs_orders" where
  "gen_book g = map_of (map (\<lambda>o'. (lo_order_id o', gen_state o')) (gen_orders g))"

definition in_band :: "side \<Rightarrow> u32 \<Rightarrow> bool" where
  "in_band s p \<longleftrightarrow>
     (case s of Buy \<Rightarrow> 9950 \<le> p \<and> p \<le> 10000 | Sell \<Rightarrow> 10001 \<le> p \<and> p \<le> 10050)"

definition fair_order :: "live_order \<Rightarrow> bool" where
  "fair_order o' \<longleftrightarrow> 10 \<le> lo_quantity o' \<and> lo_quantity o' \<le> 250 \<and>
     in_band (lo_side o') (lo_price o')"

definition gen_inv :: "generator \<Rightarrow> bool" where
  "gen_inv g \<longleftrightarrow> distinct (map lo_order_id (gen_orders g)) \<and>
     (\<forall>o' \<in> set (gen_orders g). lo_order_id o' < next_order_id g \<and> fair_order o')"

text \<open>A message that makes sense for a reader whose live orders are \<open>M\<close>.\<close>

fun targeted :: "abs_orders \<Rightarrow> message \<Rightarrow> bool" where
  "targeted M (AddMsg a) \<longleftrightarrow> decode_side a \<noteq> None \<and> M (decode_order_id_add a) = None \<and>
     decode_quantity_add a \<noteq> 0"
| "targeted M (ModifyMsg m) \<longleftrightarrow> M (decode_order_id_modify m) \<noteq> None \<and> decode_quantity_modify m \<noteq> 0"
| "targeted M (DeleteMsg d) \<longleftrightarrow> M (decode_order_id_delete d) \<noteq> None"
| "targeted M (TradeMsg t) \<longleftrightarrow> M (decode_order_id_trade t) \<noteq> None"

definition banded :: "abs_orders \<Rightarrow> bool" where
  "banded M \<longleftrightarrow> (\<forall>i ord. M i = Some ord \<longrightarrow> in_band (order_side ord) (order_price ord))"

section \<open>Lists of orders\<close>

text \<open>Overwriting an element with the last one and dropping the last removes the element.\<close>

lemma swap_remove:
  assumes "distinct (map f xs)" and "i < length xs"
  shows "distinct (map f (butlast (xs[i := last xs])))"
    and "set (butlast (xs[i := last xs])) = set xs - {xs ! i}"
proof -
  obtain ys y where xs: "xs = ys @ [y]" using assms(2) by (cases xs rule: rev_cases) auto
  have dys: "distinct (map f ys)" "f y \<notin> f ` set ys" and dist: "distinct ys" "y \<notin> set ys"
    using assms(1) by (auto simp: xs distinct_map)
  have "distinct (map f (butlast (xs[i := last xs]))) \<and>
      set (butlast (xs[i := last xs])) = set xs - {xs ! i}"
  proof (cases "i = length ys")
    case True
    with dys dist show ?thesis by (auto simp: xs)
  next
    case False
    then have i: "i < length ys" using assms(2) by (simp add: xs)
    have "butlast (xs[i := last xs]) = ys[i := y]"
      using i by (simp add: xs list_update_append)
    moreover have "distinct (map f (ys[i := y]))"
      using dys i by (auto simp: map_update intro!: distinct_list_update)
    moreover have "set (ys[i := y]) = set xs - {xs ! i}"
      using i dist by (auto simp: set_update_distinct xs nth_append)
    ultimately show ?thesis by simp
  qed
  then show "distinct (map f (butlast (xs[i := last xs])))"
    and "set (butlast (xs[i := last xs])) = set xs - {xs ! i}" by auto
qed

lemma gen_book_Some_iff:
  "distinct (map lo_order_id (gen_orders g)) \<Longrightarrow>
     gen_book g i = Some st \<longleftrightarrow> (\<exists>o' \<in> set (gen_orders g). lo_order_id o' = i \<and> gen_state o' = st)"
  by (auto simp: gen_book_def o_def)

lemma gen_book_None_iff:
  "gen_book g i = None \<longleftrightarrow> (\<forall>o' \<in> set (gen_orders g). lo_order_id o' \<noteq> i)"
  by (force simp: gen_book_def map_of_eq_None_iff)

lemma gen_book_eqI:
  assumes "distinct (map lo_order_id (gen_orders g))"
    and "\<And>i st. M i = Some st \<longleftrightarrow>
      (\<exists>o' \<in> set (gen_orders g). lo_order_id o' = i \<and> gen_state o' = st)"
  shows "M = gen_book g"
  using assms(2) gen_book_Some_iff [OF assms(1)] by (intro ext) (metis option.exhaust)

lemma gen_inv_banded: "gen_inv g \<Longrightarrow> banded (gen_book g)"
  by (auto simp: banded_def gen_inv_def gen_book_Some_iff fair_order_def gen_state_def)

section \<open>Draws\<close>

lemma uniform_bounds: "uniform draw \<Longrightarrow> lo \<le> hi \<Longrightarrow> lo \<le> draw n lo hi \<and> draw n lo hi \<le> hi"
  by (simp add: uniform_def)

lemma sample_price_band:
  assumes "uniform draw"
  shows "in_band s (fst (sample_price draw s g))"
    and "gen_orders (snd (sample_price draw s g)) = gen_orders g"
    and "next_order_id (snd (sample_price draw s g)) = next_order_id g"
  using uniform_bounds [OF assms, of 9950 10000 "draws g"]
    uniform_bounds [OF assms, of 10001 10050 "draws g"]
  by (cases s; simp add: sample_price_def sample_def in_band_def word_le_nat_alt unat_of_nat_u32)+

lemma quantity_range:
  assumes "uniform draw"
  shows "(10 :: u32) \<le> of_nat (draw n 10 250) \<and> of_nat (draw n 10 250) \<le> (250 :: u32)"
  using uniform_bounds [OF assms, of 10 250 n] by (simp add: word_le_nat_alt unat_of_nat_u32)

lemma word_less_succ: "w \<noteq> - 1 \<Longrightarrow> w < w + (1 :: 'a::len word)"
  by (metis add.commute add_eq_0_iff2 lessI unatSuc word_less_nat_alt)

section \<open>One message\<close>

text \<open>What the generator draws for an addition and for a modification.\<close>

lemma gen_add_order_draws:
  assumes draw: "uniform draw" and step: "gen_add_order draw g = (m, g')"
  obtains s p q where "in_band s p" "10 \<le> q" "q \<le> 250"
    "m = AddMsg (make_add_order_msg (next_order_id g) s p q)"
    "gen_orders g' = gen_orders g @
      [\<lparr>lo_order_id = next_order_id g, lo_side = s, lo_quantity = q, lo_price = p\<rparr>]"
    "next_order_id g' = next_order_id g + 1"
proof -
  define s where "s = (if draw (draws g) 0 1 = 0 then Buy else Sell)"
  define r where "r = sample_price draw s (g\<lparr>draws := Suc (draws g)\<rparr>)"
  define q where "q = (of_nat (draw (draws (snd r)) 10 250) :: u32)"
  have r: "gen_orders (snd r) = gen_orders g" "next_order_id (snd r) = next_order_id g"
    "in_band s (fst r)"
    using sample_price_band [OF draw, of s "g\<lparr>draws := Suc (draws g)\<rparr>"] by (simp_all add: r_def)
  moreover have "10 \<le> q" "q \<le> 250" using quantity_range [OF draw] by (simp_all add: q_def)
  moreover have "gen_add_order draw g = (AddMsg (make_add_order_msg (next_order_id (snd r)) s (fst r) q),
      snd r\<lparr>draws := Suc (draws (snd r)), next_order_id := next_order_id (snd r) + 1,
        gen_orders := gen_orders (snd r) @ [\<lparr>lo_order_id = next_order_id (snd r), lo_side = s,
          lo_quantity = q, lo_price = fst r\<rparr>]\<rparr>)"
    by (simp add: gen_add_order_def Let_def sample_def split_def s_def r_def q_def)
  ultimately show thesis using step by (intro that [of s "fst r" q]) auto
qed

lemma gen_modify_order_draws:
  assumes draw: "uniform draw" and some: "gen_orders g \<noteq> []" and step: "gen_modify_order draw g = (m, g')"
  obtains i p q where "i < length (gen_orders g)" "in_band (lo_side (gen_orders g ! i)) p"
    "10 \<le> q" "q \<le> 250"
    "m = ModifyMsg (make_modify_order_msg (lo_order_id (gen_orders g ! i)) p q)"
    "gen_orders g' = (gen_orders g)[i := (gen_orders g ! i)\<lparr>lo_price := p, lo_quantity := q\<rparr>]"
    "next_order_id g' = next_order_id g"
proof -
  define i where "i = draw (draws g) 0 (length (gen_orders g) - 1)"
  define r where "r = sample_price draw (lo_side (gen_orders g ! i)) (g\<lparr>draws := Suc (draws g)\<rparr>)"
  define q where "q = (of_nat (draw (draws (snd r)) 10 250) :: u32)"
  have "i < length (gen_orders g)"
    using uniform_bounds [OF draw, of 0 "length (gen_orders g) - 1" "draws g"] some
    by (cases "gen_orders g") (auto simp: i_def)
  moreover have "gen_orders (snd r) = gen_orders g" "next_order_id (snd r) = next_order_id g"
    "in_band (lo_side (gen_orders g ! i)) (fst r)"
    using sample_price_band [OF draw, of "lo_side (gen_orders g ! i)" "g\<lparr>draws := Suc (draws g)\<rparr>"]
    by (simp_all add: r_def)
  moreover have "10 \<le> q" "q \<le> 250" using quantity_range [OF draw] by (simp_all add: q_def)
  moreover have "gen_modify_order draw g =
      (ModifyMsg (make_modify_order_msg (lo_order_id (gen_orders g ! i)) (fst r) q),
       snd r\<lparr>draws := Suc (draws (snd r)),
         gen_orders := (gen_orders (snd r))[i := (gen_orders g ! i)\<lparr>lo_price := fst r, lo_quantity := q\<rparr>]\<rparr>)"
    using some by (simp add: gen_modify_order_def pick_order_index_def Let_def sample_def split_def
        r_def i_def q_def)
  ultimately show thesis using step by (intro that [of i "fst r" q]) auto
qed

lemma gen_add_order_correct:
  assumes draw: "uniform draw" and inv: "gen_inv g" and room: "next_order_id g \<noteq> - 1"
    and step: "gen_add_order draw g = (m, g')"
  shows "gen_inv g' \<and> targeted (gen_book g) m \<and> spec_apply m (gen_book g) = gen_book g' \<and>
    next_order_id g' = next_order_id g + 1 \<and> wf_message m \<and> added_volume m \<le> 250"
proof -
  obtain s p q where p: "in_band s p" and q: "10 \<le> q" "q \<le> 250"
    and m: "m = AddMsg (make_add_order_msg (next_order_id g) s p q)"
    and orders: "gen_orders g' = gen_orders g @
      [\<lparr>lo_order_id = next_order_id g, lo_side = s, lo_quantity = q, lo_price = p\<rparr>]"
    and next_id: "next_order_id g' = next_order_id g + 1"
    by (rule gen_add_order_draws [OF draw step])
  have later: "next_order_id g < next_order_id g + 1"
    using room by (rule word_less_succ)
  have fresh: "gen_book g (next_order_id g) = None"
    using inv by (auto simp: gen_book_None_iff gen_inv_def)
  have inv': "gen_inv g'"
    using inv q p later by (auto simp: gen_inv_def orders next_id fair_order_def intro: less_trans)
  moreover have "spec_apply m (gen_book g) = gen_book g'"
  proof (rule gen_book_eqI)
    show "distinct (map lo_order_id (gen_orders g'))" using inv' by (simp add: gen_inv_def)
    show "spec_apply m (gen_book g) i = Some st \<longleftrightarrow>
        (\<exists>o' \<in> set (gen_orders g'). lo_order_id o' = i \<and> gen_state o' = st)" for i st
      using inv gen_book_Some_iff [of g i st]
      by (auto simp: m orders wire_simps gen_state_def gen_inv_def)
  qed
  moreover have "q \<noteq> 0" "unat q \<le> 250" using q by (auto simp: word_le_nat_alt)
  ultimately show ?thesis
    using fresh next_id by (simp add: m wire_simps del: wf_message.simps)
qed

text \<open>One order replaced by another with its number.\<close>

lemma gen_orders_update:
  assumes "distinct (map lo_order_id (gen_orders g))" and "i < length (gen_orders g)"
    and "gen_orders g' = (gen_orders g)[i := new]" and "lo_order_id new = lo_order_id (gen_orders g ! i)"
  shows "map lo_order_id (gen_orders g') = map lo_order_id (gen_orders g)"
    and "set (gen_orders g') = insert new (set (gen_orders g) - {gen_orders g ! i})"
    and "gen_book g' = (gen_book g)(lo_order_id new \<mapsto> gen_state new)"
proof -
  show ids: "map lo_order_id (gen_orders g') = map lo_order_id (gen_orders g)"
    using assms(2-4) by (simp add: map_update list_update_same_conv)
  show set': "set (gen_orders g') = insert new (set (gen_orders g) - {gen_orders g ! i})"
    using assms by (simp add: set_update_distinct distinct_map)
  have only: "o' = gen_orders g ! i" if "o' \<in> set (gen_orders g)" "lo_order_id o' = lo_order_id new" for o'
    using assms(1,2,4) that by (auto simp: distinct_map inj_on_def)
  show "gen_book g' = (gen_book g)(lo_order_id new \<mapsto> gen_state new)"
  proof (rule gen_book_eqI [symmetric])
    show "distinct (map lo_order_id (gen_orders g'))" using ids assms(1) by simp
    show "((gen_book g)(lo_order_id new \<mapsto> gen_state new)) j = Some st \<longleftrightarrow>
        (\<exists>o' \<in> set (gen_orders g'). lo_order_id o' = j \<and> gen_state o' = st)" for j st
      using only gen_book_Some_iff [OF assms(1), of j st] assms(4) by (auto simp: set')
  qed
qed

lemma gen_modify_order_correct:
  assumes draw: "uniform draw" and inv: "gen_inv g" and some: "gen_orders g \<noteq> []"
    and step: "gen_modify_order draw g = (m, g')"
  shows "gen_inv g' \<and> targeted (gen_book g) m \<and> spec_apply m (gen_book g) = gen_book g' \<and>
    next_order_id g' = next_order_id g \<and> wf_message m \<and> added_volume m \<le> 250"
proof -
  obtain i p q where i: "i < length (gen_orders g)" and p: "in_band (lo_side (gen_orders g ! i)) p"
    and q: "10 \<le> q" "q \<le> 250"
    and m: "m = ModifyMsg (make_modify_order_msg (lo_order_id (gen_orders g ! i)) p q)"
    and orders: "gen_orders g' = (gen_orders g)[i := (gen_orders g ! i)\<lparr>lo_price := p, lo_quantity := q\<rparr>]"
    and next_id: "next_order_id g' = next_order_id g"
    by (rule gen_modify_order_draws [OF draw some step])
  let ?old = "gen_orders g ! i"
  have old: "?old \<in> set (gen_orders g)" using i by simp
  have dist: "distinct (map lo_order_id (gen_orders g))" using inv by (simp add: gen_inv_def)
  note update = gen_orders_update [OF dist i orders, simplified]
  have "gen_inv g'"
    using inv q p old by (auto simp: gen_inv_def update(1,2) next_id fair_order_def)
  moreover have "gen_book g (lo_order_id ?old) = Some (gen_state ?old)"
    using old gen_book_Some_iff [OF dist] by auto
  moreover have "q \<noteq> 0" "unat q \<le> 250" using q by (auto simp: word_le_nat_alt)
  ultimately show ?thesis
    using next_id by (simp add: m wire_simps update(3) gen_state_def del: wf_message.simps)
qed

lemma gen_delete_order_correct:
  assumes draw: "uniform draw" and inv: "gen_inv g" and some: "gen_orders g \<noteq> []"
    and step: "gen_delete_order draw g = (m, g')"
  shows "gen_inv g' \<and> targeted (gen_book g) m \<and> spec_apply m (gen_book g) = gen_book g' \<and>
    next_order_id g' = next_order_id g \<and> wf_message m \<and> added_volume m \<le> 250"
proof -
  define i where "i = draw (draws g) 0 (length (gen_orders g) - 1)"
  define old where "old = gen_orders g ! i"
  have i: "i < length (gen_orders g)"
    using uniform_bounds [OF draw, of 0 "length (gen_orders g) - 1" "draws g"] some
    by (cases "gen_orders g") (auto simp: i_def)
  have m: "m = DeleteMsg (make_delete_order_msg (lo_order_id old))"
    and orders: "gen_orders g' = butlast ((gen_orders g)[i := last (gen_orders g)])"
    and next_id: "next_order_id g' = next_order_id g"
    using step some by (auto simp: gen_delete_order_def pick_order_index_def Let_def sample_def
        old_def i_def)
  have dist: "distinct (map lo_order_id (gen_orders g))" using inv by (simp add: gen_inv_def)
  have dist': "distinct (map lo_order_id (gen_orders g'))"
    and set': "set (gen_orders g') = set (gen_orders g) - {old}"
    using swap_remove [OF dist i] by (simp_all add: orders old_def)
  have old: "old \<in> set (gen_orders g)" using i by (simp add: old_def)
  have only: "o' = old" if "o' \<in> set (gen_orders g)" "lo_order_id o' = lo_order_id old" for o'
    using dist old that by (auto simp: distinct_map inj_on_def)
  have inv': "gen_inv g'"
    using inv dist' by (auto simp: gen_inv_def set' next_id)
  have there: "gen_book g (lo_order_id old) = Some (gen_state old)"
    using old gen_book_Some_iff [OF dist] by auto
  have "spec_apply m (gen_book g) = gen_book g'"
  proof (rule gen_book_eqI [OF dist'])
    show "spec_apply m (gen_book g) j = Some st \<longleftrightarrow>
        (\<exists>o' \<in> set (gen_orders g'). lo_order_id o' = j \<and> gen_state o' = st)" for j st
      using only gen_book_Some_iff [OF dist, of j st] by (auto simp: m wire_simps set')
  qed
  with inv' there next_id show ?thesis
    by (simp add: m wire_simps del: wf_message.simps)
qed

lemma gen_next_correct:
  assumes "uniform draw" and "gen_inv g" and "next_order_id g \<noteq> - 1"
    and "gen_next draw g = (m, g')"
  shows "gen_inv g' \<and> targeted (gen_book g) m \<and> spec_apply m (gen_book g) = gen_book g' \<and>
    unat (next_order_id g') \<le> Suc (unat (next_order_id g)) \<and> wf_message m \<and> added_volume m \<le> 250"
proof -
  let ?h = "g\<lparr>draws := Suc (draws g)\<rparr>"
  have same: "gen_inv ?h = gen_inv g" "gen_book ?h = gen_book g" "next_order_id ?h = next_order_id g"
    "gen_orders ?h = gen_orders g"
    by (simp_all add: gen_inv_def gen_book_def)
  have suc: "unat (next_order_id g + 1) \<le> Suc (unat (next_order_id g))"
    by (metis add.commute unatSuc unat_0 le_refl zero_le)
  note add = gen_add_order_correct [OF assms(1), of _ m g']
    and modify = gen_modify_order_correct [OF assms(1), of _ m g']
    and delete = gen_delete_order_correct [OF assms(1), of _ m g']
  show ?thesis
  proof (cases "length (gen_orders g) < 4")
    case True
    with assms suc add [of g] show ?thesis by (simp add: gen_next_def)
  next
    case False
    then have some: "gen_orders ?h \<noteq> []" by auto
    from False assms(4) consider "gen_add_order draw ?h = (m, g')"
      | "gen_modify_order draw ?h = (m, g')" | "gen_delete_order draw ?h = (m, g')"
      by (auto simp: gen_next_def sample_def split: if_splits)
    then show ?thesis
      using assms(2,3) suc some add [of ?h] modify [of ?h] delete [of ?h]
      by cases (simp_all add: same)
  qed
qed

section \<open>A batch of messages\<close>

fun targeted_run :: "abs_orders \<Rightarrow> message list \<Rightarrow> bool" where
  "targeted_run M [] \<longleftrightarrow> True"
| "targeted_run M (m # ms) \<longleftrightarrow> targeted M m \<and> targeted_run (spec_apply m M) ms"

lemma targeted_run_append:
  "targeted_run M (ms @ ns) \<longleftrightarrow> targeted_run M ms \<and> targeted_run (fold spec_apply ms M) ns"
  by (induction ms arbitrary: M) auto

lemma targeted_positive: "targeted M m \<Longrightarrow> positive_add m"
  by (cases m) simp_all

lemma targeted_run_positive: "targeted_run M ms \<Longrightarrow> list_all positive_add ms"
  by (induction ms arbitrary: M) (auto intro: targeted_positive)

lemma gen_batch_correct:
  "uniform draw \<Longrightarrow> gen_inv g \<Longrightarrow> unat (next_order_id g) + n < 2 ^ 64 \<Longrightarrow>
   gen_batch draw n g = (ms, g') \<Longrightarrow>
     gen_inv g' \<and> length ms = n \<and> list_all wf_message ms \<and> targeted_run (gen_book g) ms \<and>
     fold spec_apply ms (gen_book g) = gen_book g' \<and> run_volume ms \<le> 250 * n \<and>
     unat (next_order_id g') \<le> unat (next_order_id g) + n"
proof (induction n arbitrary: g ms)
  case 0
  then show ?case by (simp add: run_volume_def)
next
  case (Suc n)
  obtain m h ns where next': "gen_next draw g = (m, h)" and rest: "gen_batch draw n h = (ns, g')"
    and ms: "ms = m # ns"
    using Suc.prems(4) by (auto simp: Let_def split: prod.splits)
  have "unat (- 1 :: u64) = 2 ^ 64 - 1"
    by (simp add: unsigned_minus_1_eq_mask mask_eq_exp_minus_1)
  then have "next_order_id g \<noteq> - 1" using Suc.prems(3) by auto
  from gen_next_correct [OF Suc.prems(1,2) this next'] Suc.IH [OF Suc.prems(1) _ _ rest] Suc.prems(3)
  show ?case by (auto simp: ms run_volume_def)
qed

lemma init_generator_inv:
  "gen_inv init_generator" "gen_book init_generator = Map.empty" "next_order_id init_generator = 1"
  by (simp_all add: gen_inv_def gen_book_def init_generator_def)

section \<open>The packet buffer\<close>

lemma write_slots_images:
  "list_all wf_message ms \<Longrightarrow> length ms * 24 \<le> length buf \<Longrightarrow>
     write_slots (length pre) ms (pre @ buf) =
       pre @ concat (map image_message ms) @ drop (length ms * 24) buf"
proof (induction ms arbitrary: pre buf)
  case Nil
  then show ?case by simp
next
  case (Cons m ms)
  let ?im = "image_message m"
  have im: "length ?im = 24" using Cons.prems(1) by (simp add: length_image_message)
  have "write_slots (length (pre @ ?im)) ms ((pre @ ?im) @ drop 24 buf) =
      (pre @ ?im) @ concat (map image_message ms) @ drop (length ms * 24) (drop 24 buf)"
    using Cons.prems by (intro Cons.IH) auto
  then show ?case by (simp add: overwrite_append im add.commute)
qed

lemma serialize_packet_to_buffer_image:
  assumes wf: "list_all wf_message ms" and len: "length ms \<le> 65535"
    and fits: "14 + length ms * 24 \<le> size_limit" "size_limit \<le> length buf"
  shows "serialize_packet_to_buffer seq tsc ms buf size_limit =
    Inr (14 + length ms * 24, packet_image seq ms tsc @ drop (14 + length ms * 24) buf)"
proof -
  let ?h = "image_header (make_packet_header seq (of_nat (length ms)) tsc)"
  have count: "packet_size_bytes (of_nat (length ms)) = 14 + length ms * 24"
    using len by (simp add: packet_size_bytes_def size_simps unat_of_nat)
  have h: "length ?h = 14" by (simp add: length_image_header)
  have "overwrite 0 ?h buf = ?h @ drop 14 buf"
    using overwrite_append [of "[]" ?h buf] h by simp
  moreover have "write_slots (length ?h) ms (?h @ drop 14 buf) =
      ?h @ concat (map image_message ms) @ drop (length ms * 24) (drop 14 buf)"
    using fits by (intro write_slots_images [OF wf]) simp
  ultimately show ?thesis
    using len fits by (simp add: serialize_packet_to_buffer_def Let_def count packet_image_def
        h sizeof_PacketHeader_def add.commute)
qed

lemma serialize_packet_to_buffer_fits:
  "serialize_packet_to_buffer seq tsc ms buf size_limit = Inr (n, buf') \<Longrightarrow>
     n = 14 + length ms * 24 \<and> n \<le> size_limit"
  by (auto simp: serialize_packet_to_buffer_def packet_size_bytes_def size_simps unat_of_nat Let_def
      split: if_splits)

section \<open>Properties of the generator and its buffer\<close>

text \<open>
  C33. The generator's messages make sense to every reader that applies them in order: they add
  orders under new numbers with a positive quantity, and they modify and delete only orders that
  are live, for any number of messages and any draws; the orders it keeps are then the reader's,
  all with quantities from 10 to 250 and prices on their own side of 10000.
\<close>

theorem generator_messages_valid:
  assumes "uniform draw" and "Suc n < 2 ^ 64"
    and "gen_batch draw n init_generator = (ms, g)"
  shows "length ms = n \<and> list_all wf_message ms \<and> targeted_run Map.empty ms \<and>
    fold spec_apply ms Map.empty = gen_book g \<and>
    (\<forall>o' \<in> set (gen_orders g). fair_order o')"
proof -
  have "unat (next_order_id init_generator) + n < 2 ^ 64"
    using assms(2) by (simp add: init_generator_inv)
  from gen_batch_correct [OF assms(1) init_generator_inv(1) this assms(3)] show ?thesis
    by (auto simp: init_generator_inv gen_inv_def)
qed

theorem generator_messages_valid_witness:
  "targeted_run Map.empty (fst (gen_batch (\<lambda>n lo hi. hi) 9 init_generator))"
proof -
  have "uniform (\<lambda>n lo hi. hi)" by (simp add: uniform_def)
  from generator_messages_valid [OF this, of 9] show ?thesis
    by (cases "gen_batch (\<lambda>n lo hi. hi) 9 init_generator") simp
qed

text \<open>
  C34. The simulator's own packet writer, which stores the structs through a cursor into a fixed
  buffer, writes the bytes of \<open>serialize_packet\<close> and leaves the rest of the buffer alone, for every
  batch that the buffer can hold; a batch that it cannot hold is refused.
\<close>

theorem packet_writers_agree:
  assumes "list_all wf_message ms" and "size_limit \<le> length buf"
  shows "(if 14 + length ms * 24 \<le> size_limit \<and> length ms \<le> 65535
    then \<exists>packet. serialize_packet seq ms tsc = Inr packet \<and>
      serialize_packet_to_buffer seq tsc ms buf size_limit =
        Inr (length packet, packet @ drop (length packet) buf)
    else \<exists>e. serialize_packet_to_buffer seq tsc ms buf size_limit = Inl e)"
proof (cases "14 + length ms * 24 \<le> size_limit \<and> length ms \<le> 65535")
  case True
  then show ?thesis
    using serialize_packet_image [OF assms(1)] serialize_packet_to_buffer_image [OF assms(1) _ _ assms(2)]
    by (simp add: length_packet_image [OF assms(1)])
next
  case False
  have "\<exists>e. serialize_packet_to_buffer seq tsc ms buf size_limit = Inl e"
  proof (cases "serialize_packet_to_buffer seq tsc ms buf size_limit")
    case (Inr r)
    moreover have "length ms \<le> 65535"
      using Inr by (simp add: serialize_packet_to_buffer_def split: if_splits)
    ultimately show ?thesis
      using serialize_packet_to_buffer_fits [of seq tsc ms buf size_limit] False by (cases r) auto
  qed simp
  with False show ?thesis by auto
qed

theorem packet_writers_agree_witness:
  "\<exists>packet. serialize_packet 5 [DeleteMsg (make_delete_order_msg 3)] 9 = Inr packet \<and>
     serialize_packet_to_buffer 5 9 [DeleteMsg (make_delete_order_msg 3)] (replicate 1024 0) 1024 =
       Inr (length packet, packet @ drop (length packet) (replicate 1024 0))"
proof -
  have "list_all wf_message [DeleteMsg (make_delete_order_msg 3)]"
    by (simp add: wire_simps del: wf_message.simps)
  from packet_writers_agree [OF this, of 1024 "replicate 1024 0" 5 9] show ?thesis by simp
qed

end
