(* ===== verification/Recovery_Client.thy ===== *)
theory Recovery_Client
  imports Stream_Socket Decimal_Text
begin

text \<open>
  \<open>RecoveryClient\<close> of \<open>include/bmdfh/recovery.hpp\<close> and \<open>src/common/recovery.cpp\<close>: the wire
  structs of the recovery protocol, the connection, and a request with its answer.
\<close>

section \<open>Wire structs\<close>

definition kMaxRecoveryPacketSize :: nat where "kMaxRecoveryPacketSize = 4096"

record recovery_request_wire =
  rq_start_seq :: u32
  rq_end_seq :: u32

definition image_request :: "recovery_request_wire \<Rightarrow> bytes" where
  "image_request w = le_bytes 4 (rq_start_seq w) @ le_bytes 4 (rq_end_seq w)"

definition as_request :: "bytes \<Rightarrow> recovery_request_wire" where
  "as_request bs = \<lparr>rq_start_seq = le_word (subspan 0 4 bs), rq_end_seq = le_word (subspan 4 4 bs)\<rparr>"

text \<open>The response and the frame have one field each, a \<open>packet_count\<close> and a \<open>packet_size\<close>.\<close>

definition image_response :: "u32 \<Rightarrow> bytes" where
  "image_response packet_count = le_bytes 4 packet_count"

definition image_frame :: "u16 \<Rightarrow> bytes" where
  "image_frame packet_size = le_bytes 2 packet_size"

section \<open>Addresses\<close>

text \<open>
  \<open>inet_pton(AF_INET, ...)\<close>: four octets in decimal without leading zeros, separated by dots.
\<close>

fun inet_octets :: "nat list \<Rightarrow> nat option \<Rightarrow> string \<Rightarrow> nat list option" where
  "inet_octets done current [] =
     (case current of
        None \<Rightarrow> None
      | Some v \<Rightarrow> if length done = 3 then Some (done @ [v]) else None)"
| "inet_octets done current (ch # src) =
     (if is_digit ch
      then let v = (case current of None \<Rightarrow> 0 | Some v \<Rightarrow> v) * 10 + digit_value ch
           in if current = Some 0 \<or> 255 < v then None else inet_octets done (Some v) src
      else case current of
        None \<Rightarrow> None
      | Some v \<Rightarrow>
          if ch = CHR ''.'' \<and> length done < 3 then inet_octets (done @ [v]) None src else None)"

definition inet_pton :: "string \<Rightarrow> nat list option" where
  "inet_pton src = inet_octets [] None src"

section \<open>The connection\<close>

text \<open>The outcome of the next \<open>socket\<close> and \<open>connect\<close> calls.\<close>

datatype attempt = No_socket errno | Not_connected errno | Connected tcp_socket

record recovery_client =
  host :: string
  connection :: "tcp_socket option"
  attempts :: "attempt list"

definition close_connection :: "recovery_client \<Rightarrow> recovery_client" where
  "close_connection c = c\<lparr>connection := None\<rparr>"

definition ensure_connected :: "recovery_client \<Rightarrow> recovery_client outcome" where
  "ensure_connected c =
     (if connection c \<noteq> None then (None, c)
      else case attempts c of
        [] \<Rightarrow> (Some Blocks, c)
      | attempt # rest \<Rightarrow>
          let c = c\<lparr>attempts := rest\<rparr>
          in case attempt of
            No_socket e \<Rightarrow> (Some (Throws (Socket_error ''socket'' e)), c)
          | _ \<Rightarrow>
              if inet_pton (host c) = None
              then throw (''invalid recovery host: '' @ host c) (close_connection c)
              else case attempt of
                Connected sock \<Rightarrow> (None, c\<lparr>connection := Some sock\<rparr>)
              | Not_connected e \<Rightarrow>
                  (Some (Throws (Socket_error ''connect'' e)), close_connection c)
              | No_socket e \<Rightarrow> (Some (Throws (Socket_error ''socket'' e)), c))"

text \<open>
  The transfer loops on \<open>socket_fd_\<close>. Without a connection it is \<open>-1\<close> and the system call fails
  with \<open>EBADF\<close>.
\<close>

definition EBADF :: errno where "EBADF = Errno 9"

definition client_send :: "bytes \<Rightarrow> recovery_client \<Rightarrow> recovery_client outcome" where
  "client_send data c =
     (case connection c of
        None \<Rightarrow> (Some (Throws (Socket_error ''send'' EBADF)), c)
      | Some sock \<Rightarrow> let (h, sock) = send_all data sock in (h, c\<lparr>connection := Some sock\<rparr>))"

definition client_recv :: "nat \<Rightarrow> recovery_client \<Rightarrow> (bytes option, recovery_client) result" where
  "client_recv want c =
     (case connection c of
        None \<Rightarrow> (Inl (Throws (Socket_error ''recv'' EBADF)), c)
      | Some sock \<Rightarrow>
          let (r, sock) = recv_exact_or_eof want sock in (r, c\<lparr>connection := Some sock\<rparr>))"

section \<open>\<open>request_packets\<close>\<close>

text \<open>Up to and including the \<open>send_all\<close> of the request.\<close>

definition send_request :: "u32 \<Rightarrow> u32 \<Rightarrow> recovery_client \<Rightarrow> recovery_client outcome" where
  "send_request start_seq end_seq c =
     and_then (ensure_connected c)
       (client_send (image_request \<lparr>rq_start_seq = htonl start_seq, rq_end_seq = htonl end_seq\<rparr>))"

text \<open>The loop over the frames.\<close>

fun receive_frames ::
    "nat \<Rightarrow> bytes list \<Rightarrow> recovery_client \<Rightarrow> (bytes list, recovery_client) result" where
  "receive_frames 0 packets c = (Inr packets, c)"
| "receive_frames (Suc n) packets c =
     on_result (client_recv 2 c) (\<lambda>frame_wire c.
       case frame_wire of
         None \<Rightarrow> fail ''recovery server closed during packet replay'' (close_connection c)
       | Some frame_wire \<Rightarrow>
           let packet_size = unat (ntohs (le_word frame_wire))
           in if packet_size = 0 \<or> kMaxRecoveryPacketSize < packet_size
              then fail ''recovery server returned an invalid packet size'' c
              else on_result (client_recv packet_size c) (\<lambda>packet c.
                case packet of
                  None \<Rightarrow> fail ''recovery server closed during packet replay'' (close_connection c)
                | Some packet \<Rightarrow> receive_frames n (packets @ [packet]) c))"

text \<open>From the response on. The expected count is computed with 64 bits.\<close>

definition receive_response ::
    "u32 \<Rightarrow> u32 \<Rightarrow> recovery_client \<Rightarrow> (bytes list, recovery_client) result" where
  "receive_response start_seq end_seq c =
     on_result (client_recv 4 c) (\<lambda>response_wire c.
       case response_wire of
         None \<Rightarrow> fail ''recovery server closed the connection'' (close_connection c)
       | Some response_wire \<Rightarrow>
           let packet_count = unat (ntohl (le_word response_wire));
               expected_count = unat (end_seq - start_seq) + 1
           in if expected_count < packet_count
              then fail ''recovery server returned more packets than requested'' c
              else receive_frames packet_count [] c)"

definition client_request_packets ::
    "u32 \<Rightarrow> u32 \<Rightarrow> recovery_client \<Rightarrow> (bytes list, recovery_client) result" where
  "client_request_packets start_seq end_seq c =
     (if end_seq < start_seq then (Inr [], c)
      else after (send_request start_seq end_seq c) (receive_response start_seq end_seq))"

section \<open>The request on the wire\<close>

lemma request_image_layout:
  "image_request \<lparr>rq_start_seq = htonl a, rq_end_seq = htonl b\<rparr> = be_bytes 4 a @ be_bytes 4 b"
  by (simp add: image_request_def wire_simps)

lemma as_request_image: "as_request (image_request w) = w"
  by (simp add: as_request_def image_request_def subspan_append_left subspan_append_right
      subspan_all)

lemma length_image_request [simp]: "length (image_request w) = 8"
  by (simp add: image_request_def)

lemma length_image_response [simp]: "length (image_response n) = 4"
  by (simp add: image_response_def)

lemma length_image_frame [simp]: "length (image_frame n) = 2"
  by (simp add: image_frame_def)

section \<open>Decoding the answer\<close>

text \<open>The bytes of an answer that holds the given packets.\<close>

definition encode_frame :: "bytes \<Rightarrow> bytes" where
  "encode_frame packet = image_frame (htons (of_nat (length packet))) @ packet"

definition encode_response :: "bytes list \<Rightarrow> bytes" where
  "encode_response packets =
     image_response (htonl (of_nat (length packets))) @ concat (map encode_frame packets)"

definition frameable :: "bytes \<Rightarrow> bool" where
  "frameable packet \<longleftrightarrow> packet \<noteq> [] \<and> length packet \<le> kMaxRecoveryPacketSize"

section \<open>The client's connection\<close>

definition client_sent :: "recovery_client \<Rightarrow> bytes" where
  "client_sent c = (case connection c of None \<Rightarrow> [] | Some sock \<Rightarrow> sent_bytes sock)"

definition client_room :: "recovery_client \<Rightarrow> nat \<Rightarrow> bool" where
  "client_room c n \<longleftrightarrow> (case connection c of None \<Rightarrow> False | Some sock \<Rightarrow> sock_room sock n)"

definition client_pending :: "recovery_client \<Rightarrow> bytes \<Rightarrow> bool" where
  "client_pending c bs \<longleftrightarrow> (case connection c of None \<Rightarrow> False | Some sock \<Rightarrow> sock_pending sock bs)"

lemmas client_simps = client_send_def client_recv_def client_sent_def client_room_def client_pending_def

text \<open>The operations on a connected client are those of its socket.\<close>

lemma client_connected:
  assumes "connection c = Some sock"
  shows "fst (client_send data c) = fst (send_all data sock)"
    "snd (client_send data c) = c\<lparr>connection := Some (snd (send_all data sock))\<rparr>"
    "fst (client_recv n c) = fst (recv_exact_or_eof n sock)"
    "snd (client_recv n c) = c\<lparr>connection := Some (snd (recv_exact_or_eof n sock))\<rparr>"
  using assms by (simp_all add: client_simps split: prod.split)

lemma client_unconnected:
  "connection c = None \<Longrightarrow> client_send data c = (Some (Throws (Socket_error ''send'' EBADF)), c)"
  "connection c = None \<Longrightarrow> client_recv n c = (Inl (Throws (Socket_error ''recv'' EBADF)), c)"
  by (simp_all add: client_simps)

text \<open>With the transfer loops on its descriptor the client is a connection as its socket is.\<close>

interpretation client: byte_stream client_send client_sent client_room client_recv client_pending
proof unfold_locales
  fix c :: recovery_client and data bs cs :: bytes and n k :: nat
  note views = client_sent_def client_room_def client_pending_def
  show "sends_prefix client_sent c data (client_send data c)"
    using socket.send_prefix [of "the (connection c)" data]
    by (cases "connection c")
      (auto simp: sends_prefix_def client_connected client_unconnected views intro: exI [of _ 0])
  show "\<exists>d. client_send data c = (None, d) \<and> client_sent d = client_sent c @ data \<and> client_room d n"
    if "client_room c (length data + n)"
  proof (cases "connection c")
    case (Some sock)
    with that socket.send_room [of sock data n] show ?thesis by (auto simp: client_simps)
  qed (use that in \<open>simp add: client_simps\<close>)
  show "\<exists>d. client_recv n c = (Inr (Some bs), d) \<and> client_pending d cs"
    if "client_pending c (bs @ cs)" "length bs = n"
  proof (cases "connection c")
    case (Some sock)
    with that socket.recv_pending [of sock bs cs n] show ?thesis by (auto simp: client_simps)
  qed (use that in \<open>simp add: client_simps\<close>)
  show "fst (client_recv n c) = Inl Blocks" if "client_pending c bs" "length bs < n"
    using that socket.recv_starved [of "the (connection c)" bs n]
    by (cases "connection c") (simp_all add: client_connected views)
  show "length bs = n" if "fst (client_recv n c) = Inr (Some bs)"
    using that socket.recv_size [of n "the (connection c)" bs]
    by (cases "connection c") (simp_all add: client_connected client_unconnected)
  show "client_pending (snd (client_send data c)) bs = client_pending c bs"
    by (cases "connection c")
      (simp_all add: client_connected client_unconnected views socket.send_keeps)
  show "client_sent (snd (client_recv n c)) = client_sent c"
    and "client_room (snd (client_recv n c)) k = client_room c k"
    by (cases "connection c",
        simp_all add: client_connected client_unconnected views socket.recv_keeps)+
qed

section \<open>Receiving the answer\<close>

lemma receive_frames_delivers:
  assumes "list_all frameable packets" and "client_pending c (concat (map encode_frame packets) @ cs)"
  shows "\<exists>d. receive_frames (length packets) prior c = (Inr (prior @ packets), d) \<and>
    client_pending d cs \<and> (\<forall>k. client_room d k = client_room c k)"
  using assms
proof (induction packets arbitrary: prior c)
  case Nil
  then show ?case by simp
next
  case (Cons packet packets)
  let ?frame = "image_frame (htons (of_nat (length packet)))"
  have fits: "packet \<noteq> []" "length packet \<le> 4096"
    using Cons.prems(1) by (simp_all add: frameable_def kMaxRecoveryPacketSize_def)
  then have size: "unat (ntohs (le_word ?frame)) = length packet"
    by (simp add: image_frame_def ntohs_htons unat_of_nat_u16)
  have "client_pending c (?frame @ packet @ concat (map encode_frame packets) @ cs)"
    using Cons.prems(2) by (simp add: encode_frame_def [of packet])
  from client.recv_two [OF this] obtain t u where
    "client_recv 2 c = (Inr (Some ?frame), t)" "client_recv (length packet) t = (Inr (Some packet), u)"
    and u: "client_pending u (concat (map encode_frame packets) @ cs)" "\<forall>k. client_room u k = client_room c k"
    by auto
  with size fits have "receive_frames (length (packet # packets)) prior c
      = receive_frames (length packets) (prior @ [packet]) u"
    by (simp add: kMaxRecoveryPacketSize_def Let_def)
  with Cons.IH [OF _ u(1), of "prior @ [packet]"] Cons.prems(1) u(2) show ?case by simp
qed

lemma receive_response_delivers:
  assumes "list_all frameable packets" and "client_pending c (encode_response packets @ cs)"
    and "length packets \<le> unat (hi - lo) + 1" and "length packets < 2 ^ 32"
  shows "\<exists>d. receive_response lo hi c = (Inr packets, d) \<and>
    client_pending d cs \<and> (\<forall>k. client_room d k = client_room c k)"
proof -
  let ?head = "image_response (htonl (of_nat (length packets)))"
  have count: "unat (ntohl (le_word ?head)) = length packets"
    using assms(4) by (simp add: image_response_def ntohl_htonl unat_of_nat_u32)
  have "client_pending c (?head @ concat (map encode_frame packets) @ cs)"
    using assms(2) by (simp add: encode_response_def)
  from client.recv_exact [OF this, of 4] obtain t where t: "client_recv 4 c = (Inr (Some ?head), t)"
    "client_pending t (concat (map encode_frame packets) @ cs)" "\<forall>k. client_room t k = client_room c k"
    by auto
  from receive_frames_delivers [OF assms(1) t(2), of "[]"] t(1,3) count assms(3)
  show ?thesis by (simp add: receive_response_def Let_def)
qed

text \<open>The same receive with the client that it leaves.\<close>

lemma client_recv_delivers:
  assumes "connection c = Some sock" and "delivers (recv_events sock) (bs @ cs)"
    and "length bs = want"
  shows "\<exists>events. client_recv want c =
      (Inr (Some bs), c\<lparr>connection := Some (sock\<lparr>recv_events := events\<rparr>)\<rparr>) \<and>
    delivers events cs"
proof -
  obtain events where "recv_exact_or_eof want sock = (Inr (Some bs), sock\<lparr>recv_events := events\<rparr>)"
    "delivers events cs"
    using recv_exact_delivers [OF assms(2,3)] by auto
  then show ?thesis
    by (intro exI [of _ events]) (simp add: client_recv_def assms(1))
qed

section \<open>What a request can return\<close>

lemma receive_frames_bounds:
  "receive_frames n packets c = (Inr result, c') \<Longrightarrow> list_all frameable packets \<Longrightarrow>
     length result = length packets + n \<and> list_all frameable result"
proof (induction n arbitrary: packets c)
  case 0
  then show ?case by simp
next
  case (Suc n)
  obtain frame c1 where frame: "client_recv 2 c = (Inr (Some frame), c1)"
    using Suc.prems(1)
    by (cases "client_recv 2 c"; cases "fst (client_recv 2 c)") (auto simp: fail_def split: option.splits)
  let ?n = "unat (ntohs (le_word frame))"
  obtain packet c2 where size: "?n \<noteq> 0" "?n \<le> kMaxRecoveryPacketSize"
    and packet: "client_recv ?n c1 = (Inr (Some packet), c2)"
    and rest: "receive_frames n (packets @ [packet]) c2 = (Inr result, c')"
    using Suc.prems(1) frame
    by (cases "client_recv ?n c1"; cases "fst (client_recv ?n c1)")
      (auto simp: fail_def Let_def split: option.splits if_splits)
  have "frameable packet"
    using client.recv_size [of ?n c1 packet] packet size by (auto simp: frameable_def)
  with Suc.IH [OF rest] Suc.prems(2) show ?case by simp
qed

text \<open>
  C21. Whatever the server sends, a request that returns never returns more packets than the range
  has numbers, and no packet that is empty or larger than 4096 bytes. A range that is empty
  returns nothing and touches no socket.
\<close>

theorem request_packets_bounds:
  assumes "client_request_packets lo hi c = (Inr packets, c')"
  shows "(if hi < lo then packets = [] \<and> c' = c else length packets \<le> unat (hi - lo) + 1) \<and>
    (\<forall>p \<in> set packets. p \<noteq> [] \<and> length p \<le> 4096)"
proof (cases "hi < lo")
  case True
  with assms show ?thesis by (simp add: client_request_packets_def)
next
  case False
  obtain c1 where run: "receive_response lo hi c1 = (Inr packets, c')"
    using assms False
    by (cases "send_request lo hi c"; cases "fst (send_request lo hi c)")
      (auto simp: client_request_packets_def)
  obtain response c2 where response: "client_recv 4 c1 = (Inr (Some response), c2)"
    using run
    by (cases "client_recv 4 c1"; cases "fst (client_recv 4 c1)")
      (auto simp: receive_response_def fail_def split: option.splits)
  let ?n = "unat (ntohl (le_word response))"
  have count: "?n \<le> unat (hi - lo) + 1" and frames: "receive_frames ?n [] c2 = (Inr packets, c')"
    using run response by (auto simp: receive_response_def fail_def Let_def split: if_splits)
  from receive_frames_bounds [OF frames] count False show ?thesis
    by (auto simp: list_all_iff frameable_def kMaxRecoveryPacketSize_def)
qed

definition demo_answered :: recovery_client where
  "demo_answered = \<lparr>host = ''127.0.0.1'', connection = Some \<lparr>send_answers = replicate 8 (Sent 1),
     sent_bytes = [], recv_events = [Arrived [0, 0], Arrived [0, 1, 0, 2, 9], Arrived [9]]\<rparr>,
     attempts = []\<rparr>"

theorem request_packets_bounds_witness:
  "\<exists>packets c'. client_request_packets 7 7 demo_answered = (Inr packets, c') \<and>
     length packets \<le> unat ((7 :: u32) - 7) + 1"
proof -
  have "fst (client_request_packets 7 7 demo_answered) = Inr [[9, 9]]" by code_simp
  then obtain c' where run: "client_request_packets 7 7 demo_answered = (Inr [[9, 9]], c')"
    by (cases "client_request_packets 7 7 demo_answered") simp
  from request_packets_bounds [OF run] show ?thesis
    using run by (intro exI [of _ "[[9, 9]]"] exI [of _ c']) simp
qed

text \<open>The frames before an invalid one are received, its size is read, and nothing more.\<close>

lemma receive_frames_invalid:
  assumes "packet_size = 0 \<or> 4096 < unat packet_size"
  shows "connection c = Some sock \<Longrightarrow> list_all frameable packets \<Longrightarrow> length packets < n \<Longrightarrow>
    delivers (recv_events sock)
      (concat (map encode_frame packets) @ image_frame (htons packet_size) @ unread) \<Longrightarrow>
    \<exists>events. receive_frames n prior c =
        fail ''recovery server returned an invalid packet size''
          (c\<lparr>connection := Some (sock\<lparr>recv_events := events\<rparr>)\<rparr>) \<and>
      delivers events unread"
proof (induction packets arbitrary: n prior c sock)
  case Nil
  then obtain k where n: "n = Suc k" by (cases n) auto
  from client_recv_delivers [OF Nil.prems(1), of "image_frame (htons packet_size)" unread 2] Nil.prems(4)
  obtain es where "client_recv 2 c = (Inr (Some (image_frame (htons packet_size))),
      c\<lparr>connection := Some (sock\<lparr>recv_events := es\<rparr>)\<rparr>)" "delivers es unread" by auto
  moreover have "ntohs (le_word (image_frame (htons packet_size))) = packet_size"
    by (simp add: image_frame_def ntohs_htons)
  ultimately show ?case
    using assms by (intro exI [of _ es]) (auto simp: n Let_def kMaxRecoveryPacketSize_def)
next
  case (Cons packet packets)
  then obtain k where n: "n = Suc k" by (cases n) auto
  let ?frame = "image_frame (htons (of_nat (length packet)))"
  let ?rest = "concat (map encode_frame packets) @ image_frame (htons packet_size) @ unread"
  have fits: "packet \<noteq> []" "length packet \<le> 4096"
    using Cons.prems(2) by (simp_all add: frameable_def kMaxRecoveryPacketSize_def)
  then have size: "unat (ntohs (le_word ?frame)) = length packet"
    by (simp add: image_frame_def ntohs_htons unat_of_nat_u16)
  have "delivers (recv_events sock) (?frame @ packet @ ?rest)"
    using Cons.prems(4) by (simp add: encode_frame_def [of packet])
  from client_recv_delivers [OF Cons.prems(1) this, of 2] obtain es where es:
    "client_recv 2 c = (Inr (Some ?frame), c\<lparr>connection := Some (sock\<lparr>recv_events := es\<rparr>)\<rparr>)"
    "delivers es (packet @ ?rest)" by auto
  let ?c = "c\<lparr>connection := Some (sock\<lparr>recv_events := es\<rparr>)\<rparr>"
  from client_recv_delivers [of ?c "sock\<lparr>recv_events := es\<rparr>" packet ?rest "length packet"] es(2)
  obtain fs where fs: "client_recv (length packet) ?c =
      (Inr (Some packet), c\<lparr>connection := Some (sock\<lparr>recv_events := fs\<rparr>)\<rparr>)" "delivers fs ?rest" by auto
  let ?d = "c\<lparr>connection := Some (sock\<lparr>recv_events := fs\<rparr>)\<rparr>"
  have "receive_frames n prior c = receive_frames k (prior @ [packet]) ?d"
    using es(1) fs(1) size fits by (simp add: n kMaxRecoveryPacketSize_def Let_def)
  moreover from Cons.IH [of ?d "sock\<lparr>recv_events := fs\<rparr>" k "prior @ [packet]"] Cons.prems n fs(2)
  obtain events where "receive_frames k (prior @ [packet]) ?d =
      fail ''recovery server returned an invalid packet size''
        (c\<lparr>connection := Some (sock\<lparr>recv_events := events\<rparr>)\<rparr>)" "delivers events unread" by auto
  ultimately show ?case by auto
qed

text \<open>
  C22. An answer that announces no more packets than were asked for, and in which a frame of an
  invalid size follows any number of valid ones, is refused as soon as that size is read. The
  packets before it are dropped, but the connection stays open with the rest of the answer unread:
  the next request on it would take that rest for its own answer.
\<close>

theorem invalid_frame_leaves_connection:
  assumes "connection c = Some sock" and "unat count \<le> unat (hi - lo) + 1"
    and "list_all frameable packets" and "length packets < unat count"
    and "delivers (recv_events sock) (image_response (htonl count) @
      concat (map encode_frame packets) @ image_frame (htons packet_size) @ unread)"
    and "packet_size = 0 \<or> 4096 < unat packet_size"
  shows "\<exists>events. receive_response lo hi c =
      fail ''recovery server returned an invalid packet size''
        (c\<lparr>connection := Some (sock\<lparr>recv_events := events\<rparr>)\<rparr>) \<and>
    delivers events unread"
proof -
  let ?rest = "concat (map encode_frame packets) @ image_frame (htons packet_size) @ unread"
  from client_recv_delivers [OF assms(1,5), of 4] obtain es where es:
    "client_recv 4 c = (Inr (Some (image_response (htonl count))),
       c\<lparr>connection := Some (sock\<lparr>recv_events := es\<rparr>)\<rparr>)"
    "delivers es ?rest" by auto
  let ?c = "c\<lparr>connection := Some (sock\<lparr>recv_events := es\<rparr>)\<rparr>"
  from receive_frames_invalid [OF assms(6) _ assms(3,4), of ?c "sock\<lparr>recv_events := es\<rparr>" unread "[]"] es(2)
  obtain events where "receive_frames (unat count) [] ?c =
      fail ''recovery server returned an invalid packet size''
        (c\<lparr>connection := Some (sock\<lparr>recv_events := events\<rparr>)\<rparr>)" "delivers events unread" by auto
  moreover have "ntohl (le_word (image_response (htonl count))) = count"
    by (simp add: image_response_def ntohl_htonl)
  ultimately show ?thesis
    using es(1) assms(2) by (intro exI [of _ events]) (simp add: receive_response_def Let_def)
qed

theorem invalid_frame_leaves_connection_witness:
  "\<exists>events. receive_response 1 2 (demo_answered\<lparr>connection := Some \<lparr>send_answers = [],
      sent_bytes = [], recv_events = [Arrived [0, 0, 0, 2, 0, 1], Arrived [9, 0, 0, 5]]\<rparr>\<rparr>) =
    fail ''recovery server returned an invalid packet size''
      (demo_answered\<lparr>connection := Some \<lparr>send_answers = [], sent_bytes = [],
         recv_events = events\<rparr>\<rparr>) \<and> delivers events [5]"
proof -
  let ?s = "\<lparr>send_answers = [], sent_bytes = [],
    recv_events = [Arrived [0, 0, 0, 2, 0, 1], Arrived [9, 0, 0, 5]]\<rparr>"
  have wire: "image_response (htonl 2) @ concat (map encode_frame [[9]]) @ image_frame (htons 0) @ [5] =
      [0, 0, 0, 2, 0, 1, 9, 0, 0, 5]"
    by code_simp
  have good: "list_all frameable [[9]]" by code_simp
  from invalid_frame_leaves_connection
    [of "demo_answered\<lparr>connection := Some ?s\<rparr>" ?s 2 2 1 "[[9]]" 0 "[5]", OF _ _ good]
  show ?thesis unfolding wire by (simp add: delivers_def)
qed

end
