(* ===== verification/Recovery_Server.thy ===== *)
theory Recovery_Server
  imports Recovery_Client Packet_History
begin

text \<open>
  \<open>RecoveryServer\<close> of \<open>include/bmdfh/recovery.hpp\<close> and \<open>src/common/recovery.cpp\<close>: the loop over one
  client's requests and the accept loop of the server's thread.
\<close>

section \<open>Serving a client\<close>

text \<open>The size that is sent is the low 16 bits of the packet's size, after the bounds check.\<close>

fun send_frames :: "bytes list \<Rightarrow> tcp_socket \<Rightarrow> tcp_socket outcome" where
  "send_frames [] sock = (None, sock)"
| "send_frames (packet # packets) sock =
     (if packet = [] \<or> 65535 < length packet
      then throw ''recovery packet size is out of bounds'' sock
      else and_then (send_all (image_frame (htons (of_nat (length packet)))) sock)
             (\<lambda>sock. and_then (send_all packet sock) (send_frames packets)))"

definition send_response :: "bytes list \<Rightarrow> tcp_socket \<Rightarrow> tcp_socket outcome" where
  "send_response packets sock =
     (let packet_count = of_nat (length packets) :: u32
      in and_then (send_all (image_response (htonl packet_count)) sock) (send_frames packets))"

text \<open>
  The history is shared with the publisher's thread, so each iteration may find a later one.
  The list holds what the successive iterations find; it ends when the loop finds \<open>stop_\<close> set.
\<close>

fun handle_client :: "packet_history list \<Rightarrow> tcp_socket \<Rightarrow> tcp_socket outcome" where
  "handle_client [] sock = (None, sock)"
| "handle_client (packet_history # later) sock =
     (case recv_exact_or_eof 8 sock of
        (Inl h, sock) \<Rightarrow> (Some h, sock)
      | (Inr None, sock) \<Rightarrow> (None, sock)
      | (Inr (Some request_bytes), sock) \<Rightarrow>
          let request_wire = as_request request_bytes;
              start_seq = ntohl (rq_start_seq request_wire);
              end_seq = ntohl (rq_end_seq request_wire);
              packets = lookup_range start_seq end_seq packet_history
          in and_then (send_response packets sock) (handle_client later))"

section \<open>The accept loop\<close>

text \<open>
  One round of \<open>run\<close>: how \<open>poll\<close> ends, then how \<open>accept\<close> does. An accepted client comes with
  what its loop will find in the history. The script ends when the loop finds \<open>stop_\<close> set.
\<close>

datatype listen_answer =
    Poll_error errno
  | Poll_quiet
  | Accept_error errno
  | Accepted tcp_socket "packet_history list"

text \<open>\<open>std::exception::what\<close>, with the system's \<open>strerror\<close>.\<close>

fun what :: "(errno \<Rightarrow> string) \<Rightarrow> exn \<Rightarrow> string" where
  "what strerror (Runtime_error message) = message"
| "what strerror (Socket_error action e) = action @ '': '' @ strerror e"

text \<open>The state: the lines on \<open>std::cerr\<close> and the client sockets that were closed.\<close>

record server_state =
  server_cerr :: "string list"
  closed_clients :: "tcp_socket list"

definition log_error :: "string \<Rightarrow> server_state \<Rightarrow> server_state" where
  "log_error line s = s\<lparr>server_cerr := server_cerr s @ [line]\<rparr>"

definition close_client :: "tcp_socket \<Rightarrow> server_state \<Rightarrow> server_state" where
  "close_client sock s = s\<lparr>closed_clients := closed_clients s @ [sock]\<rparr>"

fun server_run ::
    "(errno \<Rightarrow> string) \<Rightarrow> listen_answer list \<Rightarrow> server_state \<Rightarrow> server_state outcome" where
  "server_run strerror [] s = (None, s)"
| "server_run strerror (answer # answers) s =
     (case answer of
        Poll_error e \<Rightarrow>
          if e = EINTR then server_run strerror answers s
          else (None, log_error
            (''recovery_server error: '' @ what strerror (Socket_error ''poll'' e)) s)
      | Poll_quiet \<Rightarrow> server_run strerror answers s
      | Accept_error e \<Rightarrow>
          if e = EINTR then server_run strerror answers s
          else server_run strerror answers (log_error
            (''recovery_server error: '' @ what strerror (Socket_error ''accept'' e)) s)
      | Accepted client histories \<Rightarrow>
          (case handle_client histories client of
             (Some Blocks, client) \<Rightarrow> (Some Blocks, s)
           | (Some Killed, client) \<Rightarrow> (Some Killed, s)
           | (Some (Throws e), client) \<Rightarrow>
               server_run strerror answers (close_client client
                 (log_error (''recovery_server client error: '' @ what strerror e) s))
           | (None, client) \<Rightarrow> server_run strerror answers (close_client client s)))"

section \<open>What a response puts on the wire\<close>

lemma send_frames_delivers:
  assumes "list_all frameable packets" and "sock_room sock (length (concat (map encode_frame packets)) + n)"
  shows "\<exists>t. send_frames packets sock = (None, t) \<and>
    sent_bytes t = sent_bytes sock @ concat (map encode_frame packets) \<and> sock_room t n \<and>
    (\<forall>bs. sock_pending t bs = sock_pending sock bs)"
  using assms
proof (induction packets arbitrary: sock)
  case Nil
  then show ?case by simp
next
  case (Cons packet packets)
  let ?frame = "image_frame (htons (of_nat (length packet)))"
  let ?rest = "concat (map encode_frame packets)"
  have "sock_room sock (length ?frame + (length packet + (length ?rest + n)))"
    using Cons.prems(2) by (simp add: encode_frame_def [of packet] add.assoc)
  from socket.send_exact [OF this] obtain t where t: "send_all ?frame sock = (None, t)"
    "sent_bytes t = sent_bytes sock @ ?frame" "sock_room t (length packet + (length ?rest + n))"
    "\<forall>bs. sock_pending t bs = sock_pending sock bs" by blast
  from socket.send_exact [OF t(3)] obtain u where u: "send_all packet t = (None, u)"
    "sent_bytes u = sent_bytes t @ packet" "sock_room u (length ?rest + n)"
    "\<forall>bs. sock_pending u bs = sock_pending t bs" by blast
  have "packet \<noteq> []" "length packet \<le> 65535"
    using Cons.prems(1) by (simp_all add: frameable_def kMaxRecoveryPacketSize_def)
  with t u Cons.IH [OF _ u(3)] Cons.prems(1) show ?case
    by (auto simp: encode_frame_def [of packet])
qed

lemma length_encode_response:
  "length (encode_response packets) = 4 + length (concat (map encode_frame packets))"
  by (simp add: encode_response_def)

lemma send_response_delivers:
  assumes "list_all frameable packets" and "sock_room sock (length (encode_response packets) + n)"
  shows "\<exists>t. send_response packets sock = (None, t) \<and>
    sent_bytes t = sent_bytes sock @ encode_response packets \<and> sock_room t n \<and>
    (\<forall>bs. sock_pending t bs = sock_pending sock bs)"
proof -
  let ?head = "image_response (htonl (of_nat (length packets)))"
  have "sock_room sock (length ?head + (length (concat (map encode_frame packets)) + n))"
    using assms(2) by (simp add: length_encode_response add.assoc)
  from socket.send_exact [OF this] obtain t where t: "send_all ?head sock = (None, t)"
    "sent_bytes t = sent_bytes sock @ ?head"
    "sock_room t (length (concat (map encode_frame packets)) + n)"
    "\<forall>bs. sock_pending t bs = sock_pending sock bs" by blast
  with send_frames_delivers [OF assms(1) t(3)] show ?thesis
    by (auto simp: send_response_def encode_response_def)
qed

text \<open>A request that arrives in any pieces is answered from the history.\<close>

lemma serve_request:
  assumes "sock_pending sock (image_request \<lparr>rq_start_seq = htonl lo, rq_end_seq = htonl hi\<rparr> @ cs)"
    and "list_all frameable (lookup_range lo hi history)"
    and "sock_room sock (length (encode_response (lookup_range lo hi history)) + n)"
  shows "\<exists>t. handle_client (history # later) sock = handle_client later t \<and>
    sent_bytes t = sent_bytes sock @ encode_response (lookup_range lo hi history) \<and>
    sock_room t n \<and> sock_pending t cs"
proof -
  from socket.recv_exact [OF assms(1), of 8] obtain t where
    t: "recv_exact_or_eof 8 sock = (Inr (Some (image_request \<lparr>rq_start_seq = htonl lo, rq_end_seq = htonl hi\<rparr>)), t)"
    "sock_pending t cs" "sent_bytes t = sent_bytes sock" "\<forall>k. sock_room t k = sock_room sock k"
    by auto
  with assms(3) have "sock_room t (length (encode_response (lookup_range lo hi history)) + n)" by blast
  from send_response_delivers [OF assms(2) this] t show ?thesis
    by (auto simp: as_request_image ntohl_htonl Let_def)
qed

text \<open>As long as no client breaks its connection, the server does not end the process.\<close>

definition keeps_pipe :: "tcp_socket outcome \<Rightarrow> bool" where
  "keeps_pipe r \<longleftrightarrow> fst r \<noteq> Some Killed \<and> unbroken (snd r)"

lemma keeps_pipe_simps [simp]: "keeps_pipe (h, sock) \<longleftrightarrow> h \<noteq> Some Killed \<and> unbroken sock"
  by (simp add: keeps_pipe_def)

lemma keeps_pipe_and_then:
  "keeps_pipe r \<Longrightarrow> (\<And>t. unbroken t \<Longrightarrow> keeps_pipe (k t)) \<Longrightarrow> keeps_pipe (and_then r k)"
  by (cases r; cases "fst r") (auto simp: keeps_pipe_def)

lemma keeps_pipe_send_all: "unbroken sock \<Longrightarrow> keeps_pipe (send_all data sock)"
  by (simp add: keeps_pipe_def send_all_unbroken)

lemma keeps_pipe_send_frames: "unbroken sock \<Longrightarrow> keeps_pipe (send_frames packets sock)"
  by (induction packets arbitrary: sock)
    (auto simp: throw_def intro!: keeps_pipe_and_then keeps_pipe_send_all)

lemma keeps_pipe_handle_client: "unbroken sock \<Longrightarrow> keeps_pipe (handle_client histories sock)"
proof (induction histories arbitrary: sock)
  case Nil
  then show ?case by (simp add: keeps_pipe_def)
next
  case (Cons history later)
  obtain r t where run: "recv_exact_or_eof 8 sock = (r, t)" by (cases "recv_exact_or_eof 8 sock")
  have "unbroken t"
    using Cons.prems recv_loop_frame [of "[]" 8 sock] run
    by (simp add: unbroken_def recv_exact_or_eof_def)
  moreover have "r \<noteq> Inl Killed"
    using recv_loop_not_killed [of "[]" 8 sock] run by (simp add: recv_exact_or_eof_def)
  moreover have "keeps_pipe (and_then (send_response packets t) (handle_client later))" for packets
    using \<open>unbroken t\<close> Cons.IH unfolding send_response_def Let_def
    by (intro keeps_pipe_and_then keeps_pipe_send_all keeps_pipe_send_frames)
  ultimately show ?case
    by (auto simp: run Let_def split: sum.split option.split)
qed

section \<open>Properties of the server\<close>

text \<open>The packets that a response sends before it stops at one that has no valid size.\<close>

definition sizable :: "bytes \<Rightarrow> bool" where
  "sizable packet \<longleftrightarrow> packet \<noteq> [] \<and> length packet \<le> 65535"

lemma send_frames_prefix:
  "sends_prefix sent_bytes sock (concat (map encode_frame (takeWhile sizable packets))) (send_frames packets sock) \<and>
   (fst (send_frames packets sock) = None \<longrightarrow> list_all sizable packets)"
proof (induction packets arbitrary: sock)
  case Nil
  then show ?case by (simp add: sends_prefix_def)
next
  case (Cons packet packets)
  show ?case
  proof (cases "sizable packet")
    case False
    then show ?thesis by (auto simp: sizable_def throw_def sends_prefix_def)
  next
    case True
    let ?rest = "concat (map encode_frame (takeWhile sizable packets))"
    have "sends_prefix sent_bytes t (packet @ ?rest) (and_then (send_all packet t) (send_frames packets))" for t
      using Cons.IH by (intro socket.send_then) blast
    then have "sends_prefix sent_bytes sock (image_frame (htons (of_nat (length packet))) @ packet @ ?rest)
        (and_then (send_all (image_frame (htons (of_nat (length packet)))) sock)
          (\<lambda>sock. and_then (send_all packet sock) (send_frames packets)))"
      by (rule socket.send_then)
    moreover have "packet \<noteq> []" "length packet \<le> 65535" using True by (simp_all add: sizable_def)
    ultimately show ?thesis
      using True Cons.IH by (auto simp: encode_frame_def [of packet] and_then_case split: option.splits)
  qed
qed

text \<open>
  C23. Whatever the kernel answers, what the server puts on the wire for a response is a prefix of
  the count and of the frames of its packets, each with the packet's true size, up to the first
  packet whose size does not fit; it is all of them if the response ends normally, and then every
  packet's size fitted.
\<close>

theorem send_response_prefix:
  "\<exists>k. sent_bytes (snd (send_response packets sock)) = sent_bytes sock @
     take k (be_bytes 4 (of_nat (length packets) :: u32) @
       concat (map (\<lambda>packet. be_bytes 2 (of_nat (length packet) :: u16) @ packet)
         (takeWhile sizable packets))) \<and>
     (fst (send_response packets sock) = None \<longrightarrow> list_all sizable packets \<and>
       sent_bytes (snd (send_response packets sock)) = sent_bytes sock @ encode_response packets)"
proof -
  define data where "data = image_response (htonl (of_nat (length packets))) @
    concat (map encode_frame (takeWhile sizable packets))"
  have layout: "data = be_bytes 4 (of_nat (length packets) :: u32) @
      concat (map (\<lambda>packet. be_bytes 2 (of_nat (length packet) :: u16) @ packet)
        (takeWhile sizable packets))"
    by (simp add: data_def image_response_def image_frame_def encode_frame_def [abs_def] wire_simps)
  have "sends_prefix sent_bytes sock data (send_response packets sock)"
    using send_frames_prefix unfolding send_response_def Let_def data_def
    by (intro socket.send_then) blast
  moreover have "fst (send_response packets sock) = None \<longrightarrow> list_all sizable packets"
    using send_frames_prefix by (auto simp: send_response_def Let_def and_then_case split: option.splits)
  moreover have "list_all sizable packets \<Longrightarrow> data = encode_response packets"
    by (simp add: data_def encode_response_def list_all_iff takeWhile_eq_all_conv [THEN iffD2])
  ultimately show ?thesis
    unfolding layout [symmetric] by (auto simp: sends_prefix_def)
qed

theorem send_response_prefix_witness:
  "fst (send_response [[1], [], [2]]
     \<lparr>send_answers = replicate 99 (Sent 1), sent_bytes = [], recv_events = []\<rparr>) \<noteq> None"
  using send_response_prefix [of "[[1], [], [2]]"
      "\<lparr>send_answers = replicate 99 (Sent 1), sent_bytes = [], recv_events = []\<rparr>"]
  by (auto simp: sizable_def)

text \<open>
  C24. One client can stop the whole server. As long as it keeps its connection it occupies the
  server's only thread: after it has answered a request, the loop waits for the next one inside
  \<open>recv\<close>, and neither another client nor the destructor, which joins the thread, can go on. The feed
  handler keeps its connection after a replay. And a client that breaks its connection after a
  request takes down the process, publisher included, by the \<open>SIGPIPE\<close> of the server's \<open>send\<close>.
\<close>

theorem client_stops_server:
  assumes "delivers (recv_events client) (image_request \<lparr>rq_start_seq = htonl lo, rq_end_seq = htonl hi\<rparr>)"
  shows "(list_all usable (send_answers client) \<and> list_all frameable (lookup_range lo hi history) \<and>
      length (encode_response (lookup_range lo hi history)) \<le> sends (send_answers client) \<longrightarrow>
      server_run strerror (Accepted client (history # history' # later) # answers) s = (Some Blocks, s)) \<and>
    (send_answers client = Send_error EPIPE # rest \<longrightarrow>
      server_run strerror (Accepted client (history # later) # answers) s = (Some Killed, s))"
proof (intro conjI impI)
  have request: "sock_pending client (image_request \<lparr>rq_start_seq = htonl lo, rq_end_seq = htonl hi\<rparr> @ [])"
    using assms by (simp add: sock_pending_def)
  {
    assume served: "list_all usable (send_answers client) \<and> list_all frameable (lookup_range lo hi history) \<and>
      length (encode_response (lookup_range lo hi history)) \<le> sends (send_answers client)"
    then have "sock_room client (length (encode_response (lookup_range lo hi history)) + 0)"
      by (simp add: sock_room_def)
    with served obtain t where
      t: "handle_client (history # history' # later) client = handle_client (history' # later) t"
      "sock_pending t []"
      using serve_request [OF request, of history 0 "history' # later"] by blast
    have "fst (recv_exact_or_eof 8 t) = Inl Blocks"
      using socket.recv_starved [OF t(2), of 8] by simp
    then have "fst (handle_client (history # history' # later) client) = Some Blocks"
      unfolding t(1) by (cases "recv_exact_or_eof 8 t") simp
    then show "server_run strerror (Accepted client (history # history' # later) # answers) s = (Some Blocks, s)"
      by (cases "handle_client (history # history' # later) client") (simp del: handle_client.simps)
  }
  assume broken: "send_answers client = Send_error EPIPE # rest"
  obtain es where "recv_exact_or_eof 8 client =
      (Inr (Some (image_request \<lparr>rq_start_seq = htonl lo, rq_end_seq = htonl hi\<rparr>)), client\<lparr>recv_events := es\<rparr>)"
    using recv_exact_delivers [of client "image_request _" "[]" 8] assms by auto
  moreover have "send_all (image_response n) (client\<lparr>recv_events := es\<rparr>) =
      (Some Killed, client\<lparr>recv_events := es, send_answers := rest\<rparr>)" for n
  proof -
    have "image_response n \<noteq> []" using length_image_response [of n] by (metis list.size(3) zero_neq_numeral)
    then show ?thesis using broken by (simp add: send_all_steps)
  qed
  ultimately have "fst (handle_client (history # later) client) = Some Killed"
    by (simp add: send_response_def Let_def)
  then show "server_run strerror (Accepted client (history # later) # answers) s = (Some Killed, s)"
    by (cases "handle_client (history # later) client") (simp del: handle_client.simps)
qed

theorem client_stops_server_witness:
  "server_run (\<lambda>e. ''error'') [Accepted \<lparr>send_answers = [Send_error EPIPE], sent_bytes = [],
      recv_events = [Arrived (image_request \<lparr>rq_start_seq = htonl 7, rq_end_seq = htonl 7\<rparr>)]\<rparr>
      [[(7, [9, 9])]]] \<lparr>server_cerr = [], closed_clients = []\<rparr> =
    (Some Killed, \<lparr>server_cerr = [], closed_clients = []\<rparr>) \<and>
   server_run (\<lambda>e. ''error'') (Accepted \<lparr>send_answers = replicate 8 (Sent 1), sent_bytes = [],
      recv_events = [Arrived (image_request \<lparr>rq_start_seq = htonl 7, rq_end_seq = htonl 7\<rparr>)]\<rparr>
      [[(7, [9, 9])], [(7, [9, 9])]] # [Accept_error EINTR]) \<lparr>server_cerr = [], closed_clients = []\<rparr> =
    (Some Blocks, \<lparr>server_cerr = [], closed_clients = []\<rparr>)"
proof -
  let ?es = "[Arrived (image_request \<lparr>rq_start_seq = htonl 7, rq_end_seq = htonl 7\<rparr>)]"
  let ?broken = "\<lparr>send_answers = [Send_error EPIPE], sent_bytes = [], recv_events = ?es\<rparr>"
  let ?kept = "\<lparr>send_answers = replicate 8 (Sent 1), sent_bytes = [], recv_events = ?es\<rparr>"
  have found: "lookup_range 7 7 [(7, [9, 9])] = [[9, 9]]" by code_simp
  then have "list_all frameable (lookup_range 7 7 [(7, [9, 9])])"
    and "length (encode_response (lookup_range 7 7 [(7, [9, 9])])) \<le> sends (send_answers ?kept)"
    by (simp_all add: frameable_def kMaxRecoveryPacketSize_def length_encode_response encode_frame_def)
  then show ?thesis
    using client_stops_server [of ?broken 7 7] client_stops_server [of ?kept 7 7 "[(7, [9, 9])]"]
    by (simp add: list_all_iff del: server_run.simps)
qed

text \<open>The clients that a script accepts, and the lines that a round writes on \<open>std::cerr\<close>.\<close>

fun accepted :: "listen_answer list \<Rightarrow> (tcp_socket \<times> packet_history list) list" where
  "accepted [] = []"
| "accepted (Accepted client histories # answers) = (client, histories) # accepted answers"
| "accepted (_ # answers) = accepted answers"

fun round_errors :: "(errno \<Rightarrow> string) \<Rightarrow> listen_answer \<Rightarrow> string list" where
  "round_errors strerror (Accepted client histories) =
     (case fst (handle_client histories client) of
        Some (Throws e) \<Rightarrow> [''recovery_server client error: '' @ what strerror e]
      | _ \<Rightarrow> [])"
| "round_errors strerror (Accept_error e) =
     (if e = EINTR then [] else [''recovery_server error: accept: '' @ strerror e])"
| "round_errors strerror _ = []"

lemma server_run_unbroken:
  "\<forall>(client, histories) \<in> set (accepted answers). unbroken client \<Longrightarrow>
     fst (server_run strerror answers s) \<noteq> Some Killed"
proof (induction strerror answers s rule: server_run.induct)
  case (2 strerror answer answers s)
  show ?case
  proof (cases answer)
    case (Accepted client histories)
    obtain h t where run: "handle_client histories client = (h, t)" by (cases "handle_client histories client")
    have "h \<noteq> Some Killed"
      using keeps_pipe_handle_client [of client histories] "2.prems" run
      by (simp add: Accepted keeps_pipe_def)
    then consider "h = None" | "h = Some Blocks" | e where "h = Some (Throws e)"
      by (metis halt.exhaust option.exhaust)
    then show ?thesis
      using "2.IH" "2.prems" run by cases (simp_all add: Accepted)
  qed (use "2.IH" "2.prems" in \<open>auto simp: log_error_def\<close>)
qed simp

text \<open>
  C25. Otherwise the accept loop survives whatever a client does: as long as no client blocks it or
  breaks its connection under a response, and \<open>poll\<close> only fails by interruption, it serves every accepted client to its end, closes its socket,
  and logs the exceptions of the clients that failed and of failed \<open>accept\<close> calls, in order.
\<close>

theorem server_survives_clients:
  assumes "\<forall>e. Poll_error e \<in> set answers \<longrightarrow> e = EINTR"
    and "\<forall>(client, histories) \<in> set (accepted answers). fst (handle_client histories client) \<notin> {Some Blocks, Some Killed}"
  shows "fst (server_run strerror answers s) = None \<and>
    closed_clients (snd (server_run strerror answers s)) =
      closed_clients s @ map (\<lambda>(client, histories). snd (handle_client histories client)) (accepted answers) \<and>
    server_cerr (snd (server_run strerror answers s)) =
      server_cerr s @ concat (map (round_errors strerror) answers)"
  using assms
proof (induction strerror answers s rule: server_run.induct)
  case (1 strerror s)
  then show ?case by simp
next
  case (2 strerror answer answers s)
  show ?case
  proof (cases answer)
    case (Accepted client histories)
    obtain h t where run: "handle_client histories client = (h, t)" by (cases "handle_client histories client")
    have "h \<noteq> Some Blocks" "h \<noteq> Some Killed" using "2.prems"(2) run by (auto simp: Accepted)
    then consider "h = None" | e where "h = Some (Throws e)" by (cases h; cases "the h") auto
    then show ?thesis
      using "2.IH" "2.prems" run by cases (simp_all add: Accepted close_client_def log_error_def)
  qed (use "2.IH" "2.prems" in \<open>auto simp: log_error_def\<close>)
qed

theorem server_survives_clients_witness:
  "closed_clients (snd (server_run (\<lambda>e. ''error'')
      [Poll_error EINTR, Accepted \<lparr>send_answers = [], sent_bytes = [], recv_events = [Recv_error (Errno 104)]\<rparr> [[]],
       Poll_quiet, Accepted \<lparr>send_answers = [], sent_bytes = [], recv_events = [Peer_closed]\<rparr> [[]]]
      \<lparr>server_cerr = [], closed_clients = []\<rparr>)) =
    [\<lparr>send_answers = [], sent_bytes = [], recv_events = []\<rparr>,
     \<lparr>send_answers = [], sent_bytes = [], recv_events = [Peer_closed]\<rparr>]"
proof -
  let ?c1 = "\<lparr>send_answers = [], sent_bytes = [], recv_events = [Recv_error (Errno 104)]\<rparr>"
  let ?c2 = "\<lparr>send_answers = [], sent_bytes = [], recv_events = [Peer_closed]\<rparr>"
  have c1: "handle_client [[]] ?c1 = (Some (Throws (Socket_error ''recv'' (Errno 104))),
      \<lparr>send_answers = [], sent_bytes = [], recv_events = []\<rparr>)"
    and c2: "handle_client [[]] ?c2 = (None, ?c2)"
    by (simp_all add: recv_exact_or_eof_def recv_loop.simps)
  show ?thesis
    using server_survives_clients [of "[Poll_error EINTR, Accepted ?c1 [[]], Poll_quiet, Accepted ?c2 [[]]]"
        "\<lambda>e. ''error''" "\<lparr>server_cerr = [], closed_clients = []\<rparr>"] c1 c2
    by (simp del: handle_client.simps)
qed

end
