(* ===== verification/Cycle_Stats.thy ===== *)
theory Cycle_Stats
  imports Decimal_Text "HOL-Library.Log_Nat"
begin

text \<open>
  \<open>CycleStats\<close> of \<open>src/feed_handler/main.cpp\<close>: count, minimum, maximum and sum of the measured
  latencies. The sum is a \<open>long double\<close>, on x86-64 the 80-bit extended format with 64
  significant bits; its values here are never negative, and a sum of integers rounded to 64
  significant bits is an integer, so it is a natural number.
\<close>

section \<open>Extended precision\<close>

text \<open>Round to the nearest number of 64 significant bits, ties to even.\<close>

definition ld_round :: "nat \<Rightarrow> nat" where
  "ld_round n =
     (let e = floorlog 2 n - 64 in
      if e = 0 then n
      else let q = n div 2 ^ e; r = n mod 2 ^ e; half = 2 ^ (e - 1) in
        (if half < r \<or> r = half \<and> odd q then q + 1 else q) * 2 ^ e)"

text \<open>
  \<open>static_cast<std::uint64_t>(t / n)\<close>: the quotient is scaled by a power of two so that at
  least 64 bits of it are exact, a last bit records whether the division left a remainder,
  the whole is rounded and the scale removed by truncation.
\<close>

definition ld_quotient :: "nat \<Rightarrow> nat \<Rightarrow> nat" where
  "ld_quotient t n =
     (let k = 64 + floorlog 2 n;
          q = 2 * (t * 2 ^ k div n) + (if n dvd t * 2 ^ k then 0 else 1)
      in ld_round q div 2 ^ (k + 1))"

section \<open>The statistics\<close>

record cycle_stats =
  samples :: u64
  min_cycles :: u64
  max_cycles :: u64
  total_cycles :: nat

definition init_stats :: cycle_stats where
  "init_stats = \<lparr>samples = 0, min_cycles = - 1, max_cycles = 0, total_cycles = 0\<rparr>"

definition record_cycles :: "u64 \<Rightarrow> cycle_stats \<Rightarrow> cycle_stats" where
  "record_cycles cycles s =
     (let s = s\<lparr>samples := samples s + 1\<rparr>;
          s = (if cycles < min_cycles s then s\<lparr>min_cycles := cycles\<rparr> else s);
          s = (if max_cycles s < cycles then s\<lparr>max_cycles := cycles\<rparr> else s)
      in s\<lparr>total_cycles := ld_round (total_cycles s + unat cycles)\<rparr>)"

definition average_cycles :: "cycle_stats \<Rightarrow> nat" where
  "average_cycles s = ld_quotient (total_cycles s) (unat (samples s))"

definition summary :: "string \<Rightarrow> cycle_stats \<Rightarrow> string" where
  "summary label s =
     label @ '': '' @
     (if samples s = 0 then ''no samples''
      else ''samples='' @ show_word (samples s) @ '' min='' @ show_word (min_cycles s) @
        '' avg='' @ show_dec (average_cycles s) @ '' max='' @ show_word (max_cycles s) @
        '' cycles'')"

section \<open>Rounding\<close>

lemma ld_round_small: "n < 2 ^ 64 \<Longrightarrow> ld_round n = n"
  by (simp add: ld_round_def floorlog_le_iff Let_def)

lemma ld_round_bounds:
  assumes e: "floorlog 2 n - 64 = e" and "0 < e"
  shows "2 ^ (63 + e) \<le> n" and "n div 2 ^ e * 2 ^ e \<le> ld_round n"
    and "ld_round n \<le> n div 2 ^ e * 2 ^ e + (if 2 ^ e dvd n then 0 else 2 ^ e)"
proof -
  have "0 < n" using assms by (auto simp: floorlog_def intro: gr0I)
  then show "2 ^ (63 + e) \<le> n"
  proof -
    have "floorlog 2 n - 1 = 63 + e" using assms by simp
    then show ?thesis using floorlog_bounds [of n 2] \<open>0 < n\<close> by (metis one_less_numeral_iff semiring_norm(76))
  qed
  show "n div 2 ^ e * 2 ^ e \<le> ld_round n"
    using assms by (simp add: ld_round_def Let_def)
  show "ld_round n \<le> n div 2 ^ e * 2 ^ e + (if 2 ^ e dvd n then 0 else 2 ^ e)"
    using assms by (auto simp: ld_round_def Let_def dvd_eq_mod_eq_0)
qed

text \<open>Rounding does not cross a number of 64 significant bits.\<close>

lemma ld_round_ge:
  assumes "m < 2 ^ 64" and "m * 2 ^ j \<le> n"
  shows "m * 2 ^ j \<le> ld_round n"
proof (cases "floorlog 2 n - 64")
  case 0
  with assms show ?thesis by (simp add: ld_round_def)
next
  case (Suc e')
  define e where "e = Suc e'"
  note b = ld_round_bounds [OF Suc [folded e_def]]
  show ?thesis
  proof (cases "e \<le> j")
    case True
    then have "m * 2 ^ j = (m * 2 ^ (j - e)) * 2 ^ e"
      by (simp add: power_add [symmetric] mult.assoc)
    moreover from this have "m * 2 ^ (j - e) * 2 ^ e \<le> n"
      using assms(2) by metis
    then have "m * 2 ^ (j - e) \<le> n div 2 ^ e"
      by (simp add: less_eq_div_iff_mult_less_eq)
    ultimately show ?thesis
      using b(2) by (metis e_def le_trans mult_le_mono1 zero_less_Suc)
  next
    case False
    have "m * 2 ^ j \<le> 2 ^ 64 * 2 ^ (e - 1)"
      using assms(1) False by (intro mult_mono) (auto intro: power_increasing)
    also have "\<dots> = 2 ^ 63 * 2 ^ e"
      by (simp add: e_def)
    also have "\<dots> \<le> n div 2 ^ e * 2 ^ e"
      using b(1) by (simp add: e_def less_eq_div_iff_mult_less_eq power_add)
    finally show ?thesis
      using b(2) by (simp add: e_def)
  qed
qed

lemma ld_round_le:
  assumes "m < 2 ^ 64" and "n \<le> m * 2 ^ j"
  shows "ld_round n \<le> m * 2 ^ j"
proof (cases "floorlog 2 n - 64")
  case 0
  with assms show ?thesis by (simp add: ld_round_def)
next
  case (Suc e')
  define e where "e = Suc e'"
  note b = ld_round_bounds [OF Suc [folded e_def]]
  have "2 ^ 63 * 2 ^ e \<le> m * 2 ^ j"
    using b(1) assms(2) by (simp add: e_def power_add)
  also have "\<dots> < 2 ^ 64 * 2 ^ j"
    using assms(1) by simp
  finally have "(2::nat) ^ (63 + e) < 2 ^ (64 + j)"
    by (simp add: power_add)
  then have "e \<le> j" by (simp only: power_strict_increasing_iff)
  then have y: "m * 2 ^ j = (m * 2 ^ (j - e)) * 2 ^ e"
    by (simp add: power_add [symmetric] mult.assoc)
  have "n div 2 ^ e * 2 ^ e + (if 2 ^ e dvd n then 0 else 2 ^ e) \<le> m * 2 ^ j"
  proof (cases "2 ^ e dvd n")
    case True
    with assms(2) show ?thesis by simp
  next
    case False
    then have "n < m * 2 ^ (j - e) * 2 ^ e"
      using assms(2) y by (metis dvd_triv_right le_neq_implies_less)
    then have "n div 2 ^ e < m * 2 ^ (j - e)"
      by (simp add: div_less_iff_less_mult)
    then have "(n div 2 ^ e + 1) * 2 ^ e \<le> m * 2 ^ (j - e) * 2 ^ e"
      by (intro mult_le_mono1) simp
    with False show ?thesis unfolding y by simp
  qed
  with b(3) show ?thesis by (simp add: e_def)
qed

lemma ld_quotient_bounds:
  assumes "0 < n" and "lo * n \<le> t" and "t \<le> hi * n" and "lo < 2 ^ 64" and "hi < 2 ^ 64"
  shows "lo \<le> ld_quotient t n" and "ld_quotient t n \<le> hi"
proof -
  define k where "k = 64 + floorlog 2 n"
  define q where "q = 2 * (t * 2 ^ k div n) + (if n dvd t * 2 ^ k then 0 else 1)"
  have quot: "ld_quotient t n = ld_round q div 2 ^ (k + 1)"
    unfolding ld_quotient_def Let_def k_def q_def by (rule refl)
  have "lo * 2 ^ k * n \<le> t * 2 ^ k"
    using assms(2) by (metis mult.assoc mult.commute mult_le_mono1)
  then have "lo * 2 ^ k \<le> t * 2 ^ k div n"
    using assms(1) by (simp add: less_eq_div_iff_mult_less_eq)
  then have "lo * 2 ^ (k + 1) \<le> q"
    by (simp add: q_def)
  then show "lo \<le> ld_quotient t n"
    using ld_round_ge [OF assms(4), of "k + 1" q] unfolding quot
    by (simp add: less_eq_div_iff_mult_less_eq)
  have up: "t * 2 ^ k \<le> hi * 2 ^ k * n"
    using assms(3) by (metis mult.assoc mult.commute mult_le_mono1)
  have "q \<le> hi * 2 ^ (k + 1)"
  proof (cases "n dvd t * 2 ^ k")
    case True
    have "t * 2 ^ k div n \<le> hi * 2 ^ k * n div n"
      using up by (rule div_le_mono)
    then have "t * 2 ^ k div n \<le> hi * 2 ^ k"
      using assms(1) by simp
    with True show ?thesis by (simp add: q_def)
  next
    case False
    with up have "t * 2 ^ k < hi * 2 ^ k * n"
      by (metis dvd_triv_right le_neq_implies_less)
    then have "t * 2 ^ k div n < hi * 2 ^ k"
      by (simp add: assms(1) div_less_iff_less_mult)
    with False show ?thesis by (simp add: q_def)
  qed
  then have "ld_round q \<le> hi * 2 ^ (k + 1)"
    by (rule ld_round_le [OF assms(5)])
  then have "ld_round q div 2 ^ (k + 1) \<le> hi * 2 ^ (k + 1) div 2 ^ (k + 1)"
    by (rule div_le_mono)
  also have "\<dots> = hi"
    by (rule nonzero_mult_div_cancel_right) simp
  finally show "ld_quotient t n \<le> hi"
    by (simp only: quot)
qed

section \<open>Recording a sequence of latencies\<close>

definition record_all :: "u64 list \<Rightarrow> cycle_stats \<Rightarrow> cycle_stats" where
  "record_all xs s = fold record_cycles xs s"

lemma record_cycles_simps:
  "samples (record_cycles c s) = samples s + 1"
  "min_cycles (record_cycles c s) = min (min_cycles s) c"
  "max_cycles (record_cycles c s) = max (max_cycles s) c"
  "total_cycles (record_cycles c s) = ld_round (total_cycles s + unat c)"
  by (auto simp: record_cycles_def Let_def min_def max_def not_less not_le intro: order.antisym)

lemma samples_record_all: "samples (record_all xs s) = samples s + of_nat (length xs)"
  by (induction xs arbitrary: s) (simp_all add: record_all_def record_cycles_simps)

lemma min_record_all: "min_cycles (record_all xs s) = Min (insert (min_cycles s) (set xs))"
proof (induction xs arbitrary: s)
  case Nil
  then show ?case by (simp add: record_all_def)
next
  case (Cons x xs)
  have "insert (min_cycles s) (set (x # xs)) = insert (min_cycles s) (insert x (set xs))"
    by simp
  with Cons.IH [of "record_cycles x s"] show ?case
    by (cases "xs = []") (simp_all add: record_all_def record_cycles_simps min.assoc)
qed

lemma max_record_all: "max_cycles (record_all xs s) = Max (insert (max_cycles s) (set xs))"
proof (induction xs arbitrary: s)
  case Nil
  then show ?case by (simp add: record_all_def)
next
  case (Cons x xs)
  with Cons.IH [of "record_cycles x s"] show ?case
    by (cases "xs = []") (simp_all add: record_all_def record_cycles_simps max.assoc)
qed

lemma total_record_all:
  "total_cycles s + sum_list (map unat xs) < 2 ^ 64 \<Longrightarrow>
     total_cycles (record_all xs s) = total_cycles s + sum_list (map unat xs)"
proof (induction xs arbitrary: s)
  case Nil
  then show ?case by (simp add: record_all_def)
next
  case (Cons x xs)
  then have "total_cycles (record_cycles x s) = total_cycles s + unat x"
    by (simp add: record_cycles_simps ld_round_small)
  with Cons.IH [of "record_cycles x s"] Cons.prems show ?case
    by (simp add: record_all_def)
qed

lemma sum_list_bounds:
  fixes xs :: "u64 list"
  assumes "\<And>x. x \<in> set xs \<Longrightarrow> unat lo \<le> unat x \<and> unat x \<le> unat hi"
  shows "unat lo * length xs \<le> sum_list (map unat xs)"
    and "sum_list (map unat xs) \<le> unat hi * length xs"
  using assms by (induction xs) (simp_all add: add_mono)

section \<open>Property of the statistics\<close>

text \<open>
  C31. After recording any latencies whose sum stays below \<open>2 ^ 64\<close>, the statistics hold their
  number, least and greatest element, and the printed average, computed in 80 bit floating
  point, lies between the two.
\<close>

theorem cycle_stats_correct:
  assumes "xs \<noteq> []" and "sum_list (map unat xs) < 2 ^ 64" and "length xs < 2 ^ 64"
  defines "s \<equiv> record_all xs init_stats"
  shows "unat (samples s) = length xs \<and> min_cycles s = Min (set xs) \<and> max_cycles s = Max (set xs) \<and>
    total_cycles s = sum_list (map unat xs) \<and>
    unat (min_cycles s) \<le> average_cycles s \<and> average_cycles s \<le> unat (max_cycles s)"
proof -
  have n: "unat (samples s) = length xs"
    using assms(3) by (simp add: s_def samples_record_all init_stats_def unat_of_nat)
  have ne: "set xs \<noteq> {}" using assms(1) by simp
  have lo: "min_cycles s = Min (set xs)"
    using ne by (simp add: s_def min_record_all init_stats_def word_order.extremum min_absorb2)
  have hi: "max_cycles s = Max (set xs)"
    using ne by (simp add: s_def max_record_all init_stats_def max_absorb2)
  have total: "total_cycles s = sum_list (map unat xs)"
    using total_record_all [of init_stats xs] assms(2) by (simp add: s_def init_stats_def)
  have "unat (min_cycles s) \<le> unat x \<and> unat x \<le> unat (max_cycles s)" if "x \<in> set xs" for x
    using that by (simp add: lo hi flip: word_le_nat_alt)
  note sums = sum_list_bounds [of xs "min_cycles s" "max_cycles s", OF this]
  have "unat (min_cycles s) < 2 ^ 64" "unat (max_cycles s) < 2 ^ 64"
    using unsigned_less [of "min_cycles s"] unsigned_less [of "max_cycles s"] by simp_all
  moreover have "0 < length xs" using assms(1) by simp
  ultimately show ?thesis
    using ld_quotient_bounds [of "length xs" "unat (min_cycles s)" "total_cycles s" "unat (max_cycles s)"]
      sums n lo hi total by (simp add: average_cycles_def)
qed

theorem cycle_stats_correct_witness:
  "unat (samples (record_all [7, 3, 11] init_stats)) = 3 \<and>
   3 \<le> average_cycles (record_all [7, 3, 11] init_stats)"
proof -
  note correct = cycle_stats_correct [of "[7, 3, 11]"]
  have "unat (samples (record_all [7, 3, 11] init_stats)) = 3"
    and "min_cycles (record_all [7, 3, 11] init_stats) = 3"
    and "unat (min_cycles (record_all [7, 3, 11] init_stats))
      \<le> average_cycles (record_all [7, 3, 11] init_stats)"
    using correct by (auto simp: min_def)
  then show ?thesis by simp
qed

end
