(* ===== verification/Feed_Handler.thy ===== *)
theory Feed_Handler
  imports Book_Correct Cycle_Stats Packet_History
begin

text \<open>
  The feed handler of \<open>src/feed_handler/main.cpp\<close>: the state that \<open>main\<close> keeps, its local
  functions \<open>limit_reached\<close>, \<open>process_packet_bytes\<close> and \<open>drain_buffered_packets\<close>. The replay of a
  gap and the receive loop are in \<open>Feed_Loop\<close>.
\<close>

section \<open>State and environment\<close>

datatype packet_source = Live | Replay | Drain

fun packet_source_to_string :: "packet_source \<Rightarrow> string" where
  "packet_source_to_string Live = ''live''"
| "packet_source_to_string Replay = ''replay''"
| "packet_source_to_string Drain = ''drain''"

text \<open>
  The local variables of \<open>main\<close>. The recovery client is abstract here, of type \<open>'c\<close>; the lines
  written to the two output streams are kept in order; \<open>tsc_reads\<close> counts the readings of the
  time stamp counter.
\<close>

record 'c feed_state =
  order_book :: order_book
  buffered_packets :: "(u32, bytes) omap"
  packet_latency_cycles :: cycle_stats
  bbo_update_latency_cycles :: cycle_stats
  processed_packets :: u64
  live_packets :: u64
  replay_packets :: u64
  drain_packets :: u64
  replay_requests :: u64
  out_of_order_packets :: u64
  received_messages :: u64
  expected_packet_seq :: u32
  recovery_client :: 'c
  tsc_reads :: nat
  cout :: "string list"
  cerr :: "string list"

definition init_feed :: "'c \<Rightarrow> 'c feed_state" where
  "init_feed c = \<lparr>order_book = empty_book, buffered_packets = [],
     packet_latency_cycles = init_stats, bbo_update_latency_cycles = init_stats,
     processed_packets = 0, live_packets = 0, replay_packets = 0, drain_packets = 0,
     replay_requests = 0, out_of_order_packets = 0, received_messages = 0,
     expected_packet_seq = 1, recovery_client = c, tsc_reads = 0, cout = [], cerr = []\<rparr>"

text \<open>
  What a run is given: the two options that the loops read, the readings of the time stamp
  counter, and \<open>RecoveryClient::request_packets\<close>.
\<close>

record 'c feed_env =
  opt_messages :: u64
  opt_benchmark :: bool
  read_tsc :: "nat \<Rightarrow> u64"
  request_packets :: "u32 \<Rightarrow> u32 \<Rightarrow> 'c \<Rightarrow> (halt + bytes list) \<times> 'c"

definition verbose :: "'c feed_env \<Rightarrow> bool" where
  "verbose env \<longleftrightarrow> \<not> opt_benchmark env"

definition print_verbose :: "'c feed_env \<Rightarrow> string \<Rightarrow> 'c feed_state \<Rightarrow> 'c feed_state" where
  "print_verbose env line s = (if verbose env then s\<lparr>cout := cout s @ [line]\<rparr> else s)"

definition print_error :: "string \<Rightarrow> 'c feed_state \<Rightarrow> 'c feed_state" where
  "print_error line s = s\<lparr>cerr := cerr s @ [line]\<rparr>"

definition limit_reached :: "'c feed_env \<Rightarrow> 'c feed_state \<Rightarrow> bool" where
  "limit_reached env s \<longleftrightarrow> opt_messages env \<noteq> 0 \<and> opt_messages env \<le> received_messages s"

section \<open>One packet\<close>

text \<open>The body of the message loop, for a message that is well formed.\<close>

definition process_message ::
    "'c feed_env \<Rightarrow> packet_source \<Rightarrow> u32 \<Rightarrow> u64 \<Rightarrow> nat \<Rightarrow> message_view \<Rightarrow>
     'c feed_state \<Rightarrow> 'c feed_state" where
  "process_message env source packet_seq publish_tsc index message s =
     (let (apply_result, book) = book_apply message (order_book s);
          s = s\<lparr>order_book := book, received_messages := received_messages s + 1\<rparr>;
          s = (if bbo_changed apply_result
               then let update_tsc = read_tsc env (tsc_reads s);
                        s = s\<lparr>tsc_reads := Suc (tsc_reads s)\<rparr>;
                        latency_cycles = update_tsc - publish_tsc;
                        s = (if publish_tsc \<noteq> 0
                             then s\<lparr>bbo_update_latency_cycles :=
                                      record_cycles latency_cycles (bbo_update_latency_cycles s)\<rparr>
                             else s)
                    in print_verbose env
                         (''alert BBO changed: '' @ format_bbo (before_bbo apply_result) @
                          '' -> '' @ format_bbo (after_bbo apply_result) @
                          '' | latency_cycles='' @ show_word latency_cycles) s
               else s)
      in print_verbose env
           (packet_source_to_string source @ '' recv '' @ describe packet_seq index message @
            '' | '' @ top_of_book (order_book s) @
            '' | live_orders='' @ show_dec (live_order_count (order_book s))) s)"

text \<open>The loop from \<open>index\<close> with \<open>n\<close> messages to go.\<close>

fun process_messages ::
    "'c feed_env \<Rightarrow> packet_source \<Rightarrow> u32 \<Rightarrow> u64 \<Rightarrow> packet_view \<Rightarrow> nat \<Rightarrow> nat \<Rightarrow>
     'c feed_state \<Rightarrow> 'c feed_state outcome" where
  "process_messages env source packet_seq publish_tsc packet index 0 s = (None, s)"
| "process_messages env source packet_seq publish_tsc packet index (Suc n) s =
     (case message_at packet index of
        None \<Rightarrow> throw (''malformed message from '' @ packet_source_to_string source @
          '' packet seq='' @ show_word packet_seq @ '' at index='' @ show_dec index) s
      | Some message \<Rightarrow>
          let s = process_message env source packet_seq publish_tsc index message s
          in if limit_reached env s then (None, s)
             else process_messages env source packet_seq publish_tsc packet (index + 1) n s)"

definition count_packet :: "packet_source \<Rightarrow> 'c feed_state \<Rightarrow> 'c feed_state" where
  "count_packet source s =
     (let s = s\<lparr>processed_packets := processed_packets s + 1\<rparr> in
      case source of
        Live \<Rightarrow> s\<lparr>live_packets := live_packets s + 1\<rparr>
      | Replay \<Rightarrow> s\<lparr>replay_packets := replay_packets s + 1\<rparr>
      | Drain \<Rightarrow> s\<lparr>drain_packets := drain_packets s + 1\<rparr>)"

text \<open>\<open>process_packet_bytes\<close> after the message loop.\<close>

definition finish_packet ::
    "'c feed_env \<Rightarrow> packet_source \<Rightarrow> u32 \<Rightarrow> u64 \<Rightarrow> 'c feed_state \<Rightarrow> 'c feed_state" where
  "finish_packet env source packet_seq publish_tsc s =
     (let applied_tsc = read_tsc env (tsc_reads s);
          s = s\<lparr>tsc_reads := Suc (tsc_reads s)\<rparr>;
          s = (if publish_tsc \<noteq> 0
               then s\<lparr>packet_latency_cycles :=
                        record_cycles (applied_tsc - publish_tsc) (packet_latency_cycles s)\<rparr>
               else s);
          s = count_packet source s
      in s\<lparr>expected_packet_seq := packet_seq + 1\<rparr>)"

text \<open>A parsed packet has a header (\<open>parse_packet_Some\<close>), so \<open>the\<close> is only applied to one.\<close>

definition process_packet_bytes ::
    "'c feed_env \<Rightarrow> bytes \<Rightarrow> packet_source \<Rightarrow> 'c feed_state \<Rightarrow> 'c feed_state outcome" where
  "process_packet_bytes env packet_bytes source s =
     (case parse_packet packet_bytes of
        None \<Rightarrow> throw (packet_source_to_string source @ '' packet is malformed'') s
      | Some packet \<Rightarrow>
          let header = the (pv_header packet);
              packet_seq = decode_seq_num header;
              msg_count = decode_msg_count header;
              publish_tsc = decode_publish_tsc header
          in if packet_seq \<noteq> expected_packet_seq s
             then throw (packet_source_to_string source @
                  '' packet sequence mismatch: expected seq='' @ show_word (expected_packet_seq s) @
                  '' got seq='' @ show_word packet_seq) s
             else let s = print_verbose env
                        (packet_source_to_string source @ '' packet seq='' @ show_word packet_seq @
                         '' msg_count='' @ show_word msg_count @
                         '' publish_tsc='' @ show_word publish_tsc) s
                  in and_then
                       (process_messages env source packet_seq publish_tsc packet 0 (unat msg_count) s)
                       (\<lambda>s. (None, finish_packet env source packet_seq publish_tsc s)))"

section \<open>Frame facts\<close>

lemma print_frame [feed_simps]:
  "order_book (print_verbose env l s) = order_book s"
  "buffered_packets (print_verbose env l s) = buffered_packets s"
  "received_messages (print_verbose env l s) = received_messages s"
  "expected_packet_seq (print_verbose env l s) = expected_packet_seq s"
  "recovery_client (print_verbose env l s) = recovery_client s"
  "processed_packets (print_verbose env l s) = processed_packets s"
  "live_packets (print_verbose env l s) = live_packets s"
  "replay_packets (print_verbose env l s) = replay_packets s"
  "drain_packets (print_verbose env l s) = drain_packets s"
  "packet_latency_cycles (print_verbose env l s) = packet_latency_cycles s"
  "cerr (print_verbose env l s) = cerr s"
  by (simp_all add: print_verbose_def)

lemma process_message_frame [feed_simps]:
  "order_book (process_message env src q t i m s) = apply_message m (order_book s)"
  "received_messages (process_message env src q t i m s) = received_messages s + 1"
  "buffered_packets (process_message env src q t i m s) = buffered_packets s"
  "expected_packet_seq (process_message env src q t i m s) = expected_packet_seq s"
  "recovery_client (process_message env src q t i m s) = recovery_client s"
  "processed_packets (process_message env src q t i m s) = processed_packets s"
  "live_packets (process_message env src q t i m s) = live_packets s"
  "replay_packets (process_message env src q t i m s) = replay_packets s"
  "drain_packets (process_message env src q t i m s) = drain_packets s"
  "packet_latency_cycles (process_message env src q t i m s) = packet_latency_cycles s"
  "cerr (process_message env src q t i m s) = cerr s"
  by (simp_all add: process_message_def book_apply_def Let_def feed_simps)

lemma process_messages_frame [feed_simps]:
  "buffered_packets (snd (process_messages env src q t pv i n s)) = buffered_packets s \<and>
   expected_packet_seq (snd (process_messages env src q t pv i n s)) = expected_packet_seq s \<and>
   recovery_client (snd (process_messages env src q t pv i n s)) = recovery_client s \<and>
   processed_packets (snd (process_messages env src q t pv i n s)) = processed_packets s \<and>
   live_packets (snd (process_messages env src q t pv i n s)) = live_packets s \<and>
   replay_packets (snd (process_messages env src q t pv i n s)) = replay_packets s \<and>
   drain_packets (snd (process_messages env src q t pv i n s)) = drain_packets s \<and>
   packet_latency_cycles (snd (process_messages env src q t pv i n s)) = packet_latency_cycles s \<and>
   cerr (snd (process_messages env src q t pv i n s)) = cerr s"
  by (induction env src q t pv i n s rule: process_messages.induct)
    (auto simp: Let_def feed_simps split: option.split)

lemma finish_packet_frame [feed_simps]:
  "order_book (finish_packet env src q t s) = order_book s"
  "buffered_packets (finish_packet env src q t s) = buffered_packets s"
  "received_messages (finish_packet env src q t s) = received_messages s"
  "expected_packet_seq (finish_packet env src q t s) = q + 1"
  "recovery_client (finish_packet env src q t s) = recovery_client s"
  "processed_packets (finish_packet env src q t s) = processed_packets s + 1"
  "samples (packet_latency_cycles (finish_packet env src q t s)) =
     samples (packet_latency_cycles s) + (if t = 0 then 0 else 1)"
  "cerr (finish_packet env src q t s) = cerr s"
  by (simp_all add: finish_packet_def count_packet_def record_cycles_simps Let_def split: packet_source.split)

lemma process_packet_frame:
  "buffered_packets (snd (process_packet_bytes env bs src s)) = buffered_packets s"
  "recovery_client (snd (process_packet_bytes env bs src s)) = recovery_client s"
  by (simp_all add: process_packet_bytes_def Let_def feed_simps and_then_case split: option.split)

lemma process_packet_shrinks:
  assumes "om_find (buffered_packets s) k = Some bs"
    and "(h, t) = process_packet_bytes env p src (s\<lparr>buffered_packets := om_erase k (buffered_packets s)\<rparr>)"
  shows "length (buffered_packets t) < length (buffered_packets s)"
  using length_om_erase [OF assms(1)]
    process_packet_frame(1) [of env p src "s\<lparr>buffered_packets := om_erase k (buffered_packets s)\<rparr>"]
  by (simp add: assms(2) [symmetric])

section \<open>Draining the buffer\<close>

function drain_buffered_packets :: "'c feed_env \<Rightarrow> 'c feed_state \<Rightarrow> 'c feed_state outcome" where
  "drain_buffered_packets env s =
     (if limit_reached env s then (None, s)
      else case om_find (buffered_packets s) (expected_packet_seq s) of
        None \<Rightarrow> (None, s)
      | Some packet_bytes \<Rightarrow>
          (case process_packet_bytes env packet_bytes Drain
              (s\<lparr>buffered_packets := om_erase (expected_packet_seq s) (buffered_packets s)\<rparr>) of
             (Some h, s') \<Rightarrow> (Some h, s')
           | (None, s') \<Rightarrow> drain_buffered_packets env s'))"
  by pat_completeness auto
termination
  by (relation "measure (\<lambda>(env, s). length (buffered_packets s))")
    (auto dest: process_packet_shrinks)

declare drain_buffered_packets.simps [simp del]

end
