(* ===== verification/Feed_Loop.thy ===== *)
theory Feed_Loop
  imports Feed_Handler
begin

text \<open>
  The replay of a gap and the receive loop of \<open>src/feed_handler/main.cpp\<close>, over scripts of what
  the kernel delivers: each wakeup of \<open>epoll_wait\<close> reports events, and each readable socket has
  a queue of datagrams, after which \<open>recvfrom\<close> fails with \<open>EAGAIN\<close>.
\<close>

section \<open>Replaying a gap\<close>

fun process_replay_batch ::
    "'c feed_env \<Rightarrow> bytes list \<Rightarrow> 'c feed_state \<Rightarrow> 'c feed_state outcome" where
  "process_replay_batch env [] s = (None, s)"
| "process_replay_batch env (replay_packet # replay_batch) s =
     (if limit_reached env s then (None, s)
      else and_then (process_packet_bytes env replay_packet Replay s)
             (process_replay_batch env replay_batch))"

text \<open>\<open>end_seq - start_seq\<close> is a 32-bit subtraction, widened before one is added.\<close>

definition request_replay ::
    "'c feed_env \<Rightarrow> u32 \<Rightarrow> u32 \<Rightarrow> 'c feed_state \<Rightarrow> 'c feed_state outcome" where
  "request_replay env start_seq end_seq s =
     (if end_seq < start_seq \<or> limit_reached env s then (None, s)
      else
        let s = s\<lparr>replay_requests := replay_requests s + 1\<rparr>;
            s = print_verbose env
              (''requesting replay for packets '' @ show_word start_seq @ '' to '' @
               show_word end_seq @ '' over TCP'') s
        in case request_packets env start_seq end_seq (recovery_client s) of
             (Inl h, client) \<Rightarrow> (Some h, s\<lparr>recovery_client := client\<rparr>)
           | (Inr replay_batch, client) \<Rightarrow>
               let s = s\<lparr>recovery_client := client\<rparr>;
                   expected_count = unat (end_seq - start_seq) + 1
               in if length replay_batch \<noteq> expected_count
                  then throw (''recovery server returned '' @ show_dec (length replay_batch) @
                    '' packets for gap ['' @ show_word start_seq @ '', '' @ show_word end_seq @
                    '']'') s
                  else and_then (process_replay_batch env replay_batch s)
                         (drain_buffered_packets env))"

section \<open>One datagram\<close>

text \<open>
  The body of the innermost loop of \<open>main\<close>, for received bytes. After a packet is buffered the
  buffer is not empty, so \<open>begin()\<close> points to an entry.
\<close>

definition handle_datagram ::
    "'c feed_env \<Rightarrow> bytes \<Rightarrow> 'c feed_state \<Rightarrow> 'c feed_state outcome" where
  "handle_datagram env packet_bytes s =
     (case parse_packet packet_bytes of
        None \<Rightarrow> (None, print_error
          (''discarded malformed packet ('' @ show_dec (length packet_bytes) @ '' bytes)'') s)
      | Some packet \<Rightarrow>
          let header = the (pv_header packet);
              packet_seq = decode_seq_num header;
              msg_count = decode_msg_count header
          in if packet_seq < expected_packet_seq s
             then (None, print_error
               (''discarded stale packet seq='' @ show_word packet_seq @
                '' expected seq='' @ show_word (expected_packet_seq s)) s)
             else if expected_packet_seq s < packet_seq
             then let s = s\<lparr>out_of_order_packets := out_of_order_packets s + 1\<rparr>;
                      s = s\<lparr>buffered_packets :=
                              om_assign packet_seq packet_bytes (buffered_packets s)\<rparr>;
                      s = print_verbose env
                        (''buffered out-of-order packet seq='' @ show_word packet_seq @
                         '' msg_count='' @ show_word msg_count) s;
                      gap_end = fst (the (om_first (buffered_packets s))) - 1
                  in request_replay env (expected_packet_seq s) gap_end s
             else and_then (process_packet_bytes env packet_bytes Live s)
                    (drain_buffered_packets env))"

section \<open>The receive loop\<close>

datatype receive_answer = Datagram bytes | Receive_error errno

text \<open>
  \<open>UdpMulticastReceiver::try_receive\<close>: a datagram longer than the buffer is cut to its size;
  \<open>None\<close> when nothing is queued.
\<close>

definition try_receive :: "nat \<Rightarrow> receive_answer \<Rightarrow> exn + bytes option" where
  "try_receive buffer_size answer =
     (case answer of
        Datagram bytes \<Rightarrow> Inr (Some (take buffer_size bytes))
      | Receive_error e \<Rightarrow>
          if e = EAGAIN \<or> e = EWOULDBLOCK then Inr None else Inl (Socket_error ''recvfrom'' e))"

definition receive_buffer_size :: nat where "receive_buffer_size = 4096"

fun receive_loop ::
    "'c feed_env \<Rightarrow> receive_answer list \<Rightarrow> 'c feed_state \<Rightarrow> 'c feed_state outcome" where
  "receive_loop env [] s = (None, s)"
| "receive_loop env (answer # answers) s =
     (if limit_reached env s then (None, s)
      else case try_receive receive_buffer_size answer of
        Inl e \<Rightarrow> (Some (Throws e), s)
      | Inr None \<Rightarrow> (None, s)
      | Inr (Some packet_bytes) \<Rightarrow>
          and_then (handle_datagram env packet_bytes s) (receive_loop env answers))"

text \<open>An event of one wakeup: its \<open>EPOLLERR | EPOLLHUP\<close> and \<open>EPOLLIN\<close> flags and the queue.\<close>

datatype event = Event (event_error: bool) (event_readable: bool) (event_queue: "receive_answer list")

fun event_loop :: "'c feed_env \<Rightarrow> event list \<Rightarrow> 'c feed_state \<Rightarrow> 'c feed_state outcome" where
  "event_loop env [] s = (None, s)"
| "event_loop env (e # events) s =
     (if limit_reached env s then (None, s)
      else if event_error e then throw ''epoll reported a socket error'' s
      else if \<not> event_readable e then event_loop env events s
      else and_then (receive_loop env (event_queue e) s) (event_loop env events))"

datatype wait_answer = Ready "event list" | Wait_error errno

text \<open>
  \<open>EpollInstance::wait\<close>, which retries after \<open>EINTR\<close>: its result and the answers that are left.
  When the script ends, \<open>epoll_wait\<close> does not return again.
\<close>

fun wait_events :: "wait_answer list \<Rightarrow> (event list, wait_answer list) result" where
  "wait_events [] = (Inl Blocks, [])"
| "wait_events (Ready events # answers) = (Inr events, answers)"
| "wait_events (Wait_error e # answers) =
     (if e = EINTR then wait_events answers else fail ''epoll_wait failed'' answers)"

lemma wait_events_shorter: "wait_events answers = (Inr events, rest) \<Longrightarrow> length rest < length answers"
  by (induction answers rule: wait_events.induct) (auto simp: fail_def split: if_splits)

text \<open>The outer loop.\<close>

function main_loop :: "'c feed_env \<Rightarrow> wait_answer list \<Rightarrow> 'c feed_state \<Rightarrow> 'c feed_state outcome" where
  "main_loop env answers s =
     (if limit_reached env s then (None, s)
      else case wait_events answers of
        (Inl h, rest) \<Rightarrow> (Some h, s)
      | (Inr events, rest) \<Rightarrow> and_then (event_loop env events s) (main_loop env rest))"
  by pat_completeness auto
termination
  by (relation "measure (\<lambda>(env, answers, s). length answers)") (auto dest: wait_events_shorter [OF sym])

declare main_loop.simps [simp del]

text \<open>The loop over the answers, one at a time.\<close>

lemma main_loop_answers [simp]:
  "main_loop env [] s = (if limit_reached env s then (None, s) else (Some Blocks, s))"
  "main_loop env (Ready events # answers) s =
     (if limit_reached env s then (None, s) else and_then (event_loop env events s) (main_loop env answers))"
  "main_loop env (Wait_error e # answers) s =
     (if limit_reached env s then (None, s)
      else if e = EINTR then main_loop env answers s else throw ''epoll_wait failed'' s)"
  by (simp_all add: main_loop.simps fail_def throw_def)

end
