(* ===== verification/Wakeup_Scripts.thy ===== *)
theory Wakeup_Scripts
  imports Feed_Loop
begin

text \<open>
  The nested loops of the feed handler, flattened: as long as the kernel reports no error but
  interruptions and empty queues, the wait loop handles the datagrams of all wakeups, events and
  queues one after the other, until its limit is reached.
\<close>

section \<open>Scripts without errors\<close>

fun healthy_answer :: "receive_answer \<Rightarrow> bool" where
  "healthy_answer (Datagram bytes) \<longleftrightarrow> True"
| "healthy_answer (Receive_error e) \<longleftrightarrow> e = EAGAIN \<or> e = EWOULDBLOCK"

definition healthy_event :: "event \<Rightarrow> bool" where
  "healthy_event e \<longleftrightarrow> \<not> event_error e \<and> list_all healthy_answer (event_queue e)"

fun healthy_wakeup :: "wait_answer \<Rightarrow> bool" where
  "healthy_wakeup (Ready events) \<longleftrightarrow> list_all healthy_event events"
| "healthy_wakeup (Wait_error e) \<longleftrightarrow> e = EINTR"

text \<open>The datagrams that are read: those before the queue is found empty, of the readable sockets.\<close>

fun queue_datagrams :: "receive_answer list \<Rightarrow> bytes list" where
  "queue_datagrams [] = []"
| "queue_datagrams (Datagram bytes # answers) = bytes # queue_datagrams answers"
| "queue_datagrams (Receive_error e # answers) = []"

definition event_datagrams :: "event \<Rightarrow> bytes list" where
  "event_datagrams e = (if event_readable e then queue_datagrams (event_queue e) else [])"

fun wakeup_datagrams :: "wait_answer \<Rightarrow> bytes list" where
  "wakeup_datagrams (Ready events) = concat (map event_datagrams events)"
| "wakeup_datagrams (Wait_error e) = []"

definition script_datagrams :: "wait_answer list \<Rightarrow> bytes list" where
  "script_datagrams answers = concat (map wakeup_datagrams answers)"

lemma script_datagrams_simps [simp]:
  "script_datagrams [] = []"
  "script_datagrams (answer # answers) = wakeup_datagrams answer @ script_datagrams answers"
  by (simp_all add: script_datagrams_def)

section \<open>The receive loop over a run of datagrams\<close>

abbreviation receive_all :: "'c feed_env \<Rightarrow> bytes list \<Rightarrow> 'c feed_state \<Rightarrow> 'c feed_state outcome" where
  "receive_all env datagrams \<equiv> receive_loop env (map Datagram datagrams)"

lemma receive_loop_limit: "limit_reached env s \<Longrightarrow> receive_loop env answers s = (None, s)"
  by (cases answers) simp_all

lemma receive_loop_append:
  "receive_loop env (map Datagram ds @ answers) s = and_then (receive_all env ds s) (receive_loop env answers)"
proof (induction ds arbitrary: s)
  case Nil
  then show ?case by simp
next
  case (Cons d ds)
  then show ?case
    by (cases "limit_reached env s")
      (simp_all add: receive_loop_limit try_receive_def and_then_assoc cong: and_then_cong)
qed

lemma receive_queue:
  "list_all healthy_answer answers \<Longrightarrow>
     receive_loop env answers s = receive_all env (queue_datagrams answers) s"
proof (induction answers arbitrary: s)
  case Nil
  then show ?case by simp
next
  case (Cons answer answers)
  then show ?case
    by (cases answer) (simp_all add: try_receive_def cong: and_then_cong)
qed

lemma event_loop_flat:
  "list_all healthy_event events \<Longrightarrow>
     event_loop env events s = receive_all env (concat (map event_datagrams events)) s"
proof (induction events arbitrary: s)
  case Nil
  then show ?case by simp
next
  case (Cons e events)
  then show ?case
    by (cases "limit_reached env s")
      (simp_all add: receive_loop_limit healthy_event_def event_datagrams_def receive_queue
        receive_loop_append cong: and_then_cong)
qed

text \<open>The wait loop ends at its limit, and otherwise waits for the next wakeup.\<close>

definition wait_on :: "'c feed_env \<Rightarrow> 'c feed_state \<Rightarrow> 'c feed_state outcome" where
  "wait_on env s = (if limit_reached env s then None else Some Blocks, s)"

lemma main_loop_flat:
  "list_all healthy_wakeup answers \<Longrightarrow>
     main_loop env answers s = and_then (receive_all env (script_datagrams answers) s) (wait_on env)"
proof (induction answers arbitrary: s)
  case Nil
  then show ?case by (simp add: wait_on_def)
next
  case (Cons answer answers)
  then show ?case
    by (cases "limit_reached env s"; cases answer)
      (simp_all add: receive_loop_limit wait_on_def [of env s] receive_loop_append event_loop_flat
        and_then_assoc cong: and_then_cong)
qed

end
