(* ===== verification/Gap_Recovery.thy ===== *)
theory Gap_Recovery
  imports Wakeup_Scripts
begin

text \<open>
  Sequencing and gap recovery: whatever part of a published stream reaches the handler, in
  whatever order, it applies the packets once each and in order, with the help of a recovery
  service that answers from the publisher's history.
\<close>

section \<open>Published streams\<close>

text \<open>
  A stream gives the messages and the time stamp of each packet; packets are numbered from 1.
\<close>

definition stream_packet :: "(nat \<Rightarrow> message list) \<Rightarrow> (nat \<Rightarrow> u64) \<Rightarrow> nat \<Rightarrow> bytes" where
  "stream_packet ms ts k = packet_image (of_nat k) (ms k) (ts k)"

text \<open>
  The first \<open>n\<close> packets are well formed and fit a receive buffer of the handler, and their
  numbers do not wrap.
\<close>

definition sound_stream :: "(nat \<Rightarrow> message list) \<Rightarrow> nat \<Rightarrow> bool" where
  "sound_stream ms n \<longleftrightarrow> Suc n < 2 ^ 32 \<and>
     (\<forall>k. 1 \<le> k \<and> k \<le> n \<longrightarrow> list_all wf_message (ms k) \<and> length (ms k) \<le> 170)"

definition stream_messages :: "(nat \<Rightarrow> message list) \<Rightarrow> nat \<Rightarrow> message list" where
  "stream_messages ms n = concat (map ms [1..<Suc n])"

definition stored ::
    "(u32 \<Rightarrow> bytes option) \<Rightarrow> (nat \<Rightarrow> message list) \<Rightarrow> (nat \<Rightarrow> u64) \<Rightarrow> nat \<Rightarrow> bool" where
  "stored content ms ts n \<longleftrightarrow>
     (\<forall>k. 1 \<le> k \<and> k \<le> n \<longrightarrow> content (of_nat k) = Some (stream_packet ms ts k))"

text \<open>
  The handler has applied exactly the first \<open>n\<close> packets, counted them and their messages, and
  measured the latency of those that carry a time stamp.
\<close>

definition stamped :: "(nat \<Rightarrow> u64) \<Rightarrow> nat \<Rightarrow> nat" where
  "stamped ts n = length (filter (\<lambda>k. ts k \<noteq> 0) [1..<Suc n])"

definition applied ::
    "(nat \<Rightarrow> message list) \<Rightarrow> (nat \<Rightarrow> u64) \<Rightarrow> nat \<Rightarrow> 'c feed_state \<Rightarrow> bool" where
  "applied ms ts n s \<longleftrightarrow> expected_packet_seq s = of_nat (Suc n) \<and>
     order_book s = apply_messages (stream_messages ms n) empty_book \<and>
     received_messages s = of_nat (length (stream_messages ms n)) \<and>
     processed_packets s = of_nat n \<and> samples (packet_latency_cycles s) = of_nat (stamped ts n)"

text \<open>Moreover nothing waits in its buffer.\<close>

definition synced ::
    "(nat \<Rightarrow> message list) \<Rightarrow> (nat \<Rightarrow> u64) \<Rightarrow> nat \<Rightarrow> 'c feed_state \<Rightarrow> bool" where
  "synced ms ts n s \<longleftrightarrow> applied ms ts n s \<and> buffered_packets s = []"

text \<open>
  The handler has no message limit, or one that the first \<open>n\<close> packets do not exceed, none of
  which is empty then.
\<close>

definition roomy :: "'c feed_env \<Rightarrow> (nat \<Rightarrow> message list) \<Rightarrow> nat \<Rightarrow> bool" where
  "roomy env ms n \<longleftrightarrow> opt_messages env = 0 \<or>
     length (stream_messages ms n) \<le> unat (opt_messages env) \<and>
     (\<forall>k. 1 \<le> k \<and> k \<le> n \<longrightarrow> ms k \<noteq> [])"

lemma stream_messages_Suc:
  "stream_messages ms (Suc n) = stream_messages ms n @ ms (Suc n)"
  by (simp add: stream_messages_def)

lemma stream_messages_prefix:
  "a \<le> n \<Longrightarrow> \<exists>ys. stream_messages ms n = stream_messages ms a @ ys"
proof (induction n)
  case 0
  then show ?case by simp
next
  case (Suc n)
  show ?case
  proof (cases "a = Suc n")
    case False
    with Suc obtain ys where "stream_messages ms n = stream_messages ms a @ ys" by auto
    then show ?thesis by (intro exI [of _ "ys @ ms (Suc n)"]) (simp add: stream_messages_Suc)
  qed simp
qed

lemma stamped_simps [simp]:
  "stamped ts 0 = 0" "stamped ts (Suc n) = stamped ts n + (if ts (Suc n) = 0 then 0 else 1)"
  by (simp_all add: stamped_def)

lemma synced_init: "synced ms ts 0 (init_feed c)"
  by (simp add: synced_def applied_def init_feed_def init_stats_def stream_messages_def book_simps)

lemma sound_stream_mono: "sound_stream ms n \<Longrightarrow> m \<le> n \<Longrightarrow> sound_stream ms m"
  by (auto simp: sound_stream_def)

section \<open>The message limit\<close>

lemma limit_bound: "unat (opt_messages env) < 18446744073709551616"
  using unsigned_less [where 'a = nat, of "opt_messages env"] by simp

lemma applied_count:
  assumes "applied ms ts k s" and "length (stream_messages ms k) \<le> unat (opt_messages env)"
  shows "unat (received_messages s) = length (stream_messages ms k)"
  using assms limit_bound [of env] by (simp add: applied_def unat_of_nat)

lemma roomy_packet:
  assumes "roomy env ms n" and "k < n" and "applied ms ts k s" and "opt_messages env \<noteq> 0"
  shows "unat (received_messages s) + length (ms (Suc k)) \<le> unat (opt_messages env)"
    and "0 < length (ms (Suc k))"
proof -
  obtain ys where "stream_messages ms n = (stream_messages ms k @ ms (Suc k)) @ ys"
    using stream_messages_prefix [of "Suc k" n ms] assms(2) by (auto simp: stream_messages_Suc)
  with assms have "length (stream_messages ms k) + length (ms (Suc k)) \<le> unat (opt_messages env)"
    by (simp add: roomy_def)
  moreover from this have "unat (received_messages s) = length (stream_messages ms k)"
    by (intro applied_count [OF assms(3), of env]) simp
  ultimately show "unat (received_messages s) + length (ms (Suc k)) \<le> unat (opt_messages env)"
    by simp
  show "0 < length (ms (Suc k))"
    using assms by (auto simp: roomy_def)
qed

text \<open>Before the last packet the limit is not reached.\<close>

lemma limit_open:
  assumes "roomy env ms n" and "k < n" and "applied ms ts k s"
  shows "\<not> limit_reached env s"
proof
  assume reached: "limit_reached env s"
  then have "opt_messages env \<noteq> 0" "unat (opt_messages env) \<le> unat (received_messages s)"
    by (simp_all add: limit_reached_def word_le_nat_alt)
  with roomy_packet [OF assms this(1)] show False by linarith
qed

section \<open>Processing an expected packet\<close>

text \<open>The limit ends the loop only after its last message, where it ends anyway.\<close>

lemma process_messages_all:
  assumes "\<And>i. i < length ms \<Longrightarrow> message_at pv i = Some (ms ! i)"
  shows "i + n = length ms \<Longrightarrow>
    opt_messages env = 0 \<or> unat (received_messages s) + n \<le> unat (opt_messages env) \<Longrightarrow>
    \<exists>t. process_messages env src q tsc pv i n s = (None, t) \<and>
      order_book t = apply_messages (drop i ms) (order_book s) \<and>
      received_messages t = received_messages s + of_nat n"
proof (induction n arbitrary: i s)
  case 0
  then show ?case by (simp add: book_simps)
next
  case (Suc n)
  let ?s = "process_message env src q tsc i (ms ! i) s"
  have count: "unat (received_messages ?s) = Suc (unat (received_messages s))"
    if "opt_messages env \<noteq> 0"
    using Suc.prems(2) that limit_bound [of env]
    by (simp add: feed_simps unat_word_ariths)
  have drop: "drop i ms = ms ! i # drop (Suc i) ms"
    using Suc.prems by (simp add: Cons_nth_drop_Suc)
  show ?case
  proof (cases "limit_reached env ?s")
    case True
    with Suc.prems(2) count have "n = 0"
      by (auto simp: limit_reached_def word_le_nat_alt)
    with True Suc.prems assms drop show ?thesis by (simp add: feed_simps book_simps)
  next
    case False
    have "opt_messages env = 0 \<or> unat (received_messages ?s) + n \<le> unat (opt_messages env)"
      using Suc.prems(2) count by (cases "opt_messages env = 0") simp_all
    then obtain t where "process_messages env src q tsc pv (Suc i) n ?s = (None, t)"
      "order_book t = apply_messages (drop (Suc i) ms) (order_book ?s)"
      "received_messages t = received_messages ?s + of_nat n"
      using Suc.IH [of "Suc i" ?s] Suc.prems(1) by auto
    with False Suc.prems assms drop show ?thesis
      by (simp add: feed_simps book_simps)
  qed
qed

lemma process_expected_packet:
  assumes wf: "list_all wf_message ms" "length ms \<le> 65535"
    and room: "opt_messages env = 0 \<or> unat (received_messages s) + length ms \<le> unat (opt_messages env)"
    and seq: "expected_packet_seq s = q"
  shows "\<exists>t. process_packet_bytes env (packet_image q ms tsc) src s = (None, t) \<and>
    order_book t = apply_messages ms (order_book s) \<and> expected_packet_seq t = q + 1 \<and>
    received_messages t = received_messages s + of_nat (length ms) \<and>
    processed_packets t = processed_packets s + 1 \<and>
    samples (packet_latency_cycles t) = samples (packet_latency_cycles s) + (if tsc = 0 then 0 else 1) \<and>
    buffered_packets t = buffered_packets s \<and> recovery_client t = recovery_client s"
proof -
  let ?pv = "\<lparr>pv_header = Some (make_packet_header q (of_nat (length ms)) tsc),
    pv_message_bytes = concat (map image_message ms)\<rparr>"
  have parse: "parse_packet (packet_image q ms tsc) = Some ?pv"
    by (rule parse_packet_image [OF wf])
  define s1 where "s1 = print_verbose env
    (packet_source_to_string src @ '' packet seq='' @ show_word q @ '' msg_count='' @
     show_word (of_nat (length ms) :: u16) @ '' publish_tsc='' @ show_word tsc) s"
  have same: "order_book s1 = order_book s" "received_messages s1 = received_messages s"
    "processed_packets s1 = processed_packets s" "packet_latency_cycles s1 = packet_latency_cycles s"
    by (simp_all add: s1_def feed_simps)
  have "message_at ?pv i = Some (ms ! i)" if "i < length ms" for i
    using message_at_packet_image [OF wf parse] that by simp
  from process_messages_all [OF this, of 0 "length ms" env s1 src q tsc] room same
  obtain u where u: "process_messages env src q tsc ?pv 0 (length ms) s1 = (None, u)"
    and book: "order_book u = apply_messages ms (order_book s)"
    and count: "received_messages u = received_messages s + of_nat (length ms)"
    by auto
  have counts: "processed_packets u = processed_packets s" "packet_latency_cycles u = packet_latency_cycles s"
    using process_messages_frame [of env src q tsc ?pv 0 "length ms" s1] u same by simp_all
  have "unat (of_nat (length ms) :: u16) = length ms"
    using wf(2) by (simp add: unat_of_nat)
  with u seq have "process_packet_bytes env (packet_image q ms tsc) src s
      = (None, finish_packet env src q tsc u)"
    by (simp add: process_packet_bytes_def parse decode_make_header Let_def s1_def)
  then show ?thesis
    using book count counts process_packet_frame [of env "packet_image q ms tsc" src s]
    by (simp add: feed_simps)
qed

lemma process_stream_packet:
  assumes "roomy env ms n" and "sound_stream ms n" and "k < n" and "applied ms ts k s"
  shows "\<exists>t. process_packet_bytes env (stream_packet ms ts (Suc k)) src s = (None, t) \<and>
    applied ms ts (Suc k) t \<and> buffered_packets t = buffered_packets s \<and>
    recovery_client t = recovery_client s"
proof -
  have wf: "list_all wf_message (ms (Suc k))" "length (ms (Suc k)) \<le> 65535"
    using assms(2,3) by (auto simp: sound_stream_def dest: spec [of _ "Suc k"])
  have "opt_messages env = 0 \<or>
      unat (received_messages s) + length (ms (Suc k)) \<le> unat (opt_messages env)"
    using roomy_packet(1) [OF assms(1,3,4)] by blast
  moreover have "expected_packet_seq s = of_nat (Suc k)"
    using assms(4) by (simp add: applied_def)
  ultimately show ?thesis
    using process_expected_packet [OF wf, of env s "of_nat (Suc k)" "ts (Suc k)" src] assms(4)
    by (auto simp: applied_def stream_packet_def stream_messages_Suc book_simps add.commute)
qed

lemma drain_empty_buffer:
  "buffered_packets s = [] \<Longrightarrow> drain_buffered_packets env s = (None, s)"
  by (simp add: drain_buffered_packets.simps om.find_empty)

lemma process_replay_range:
  assumes "roomy env ms n" and "sound_stream ms n" and "applied ms ts k s" and "k + j \<le> n"
  shows "\<exists>t. process_replay_batch env (map (stream_packet ms ts) [Suc k..<Suc (k + j)]) s = (None, t) \<and>
    applied ms ts (k + j) t \<and>
    buffered_packets t = buffered_packets s \<and> recovery_client t = recovery_client s"
  using assms(3,4)
proof (induction j arbitrary: k s)
  case 0
  then show ?case by simp
next
  case (Suc j)
  then have "k < n" by simp
  then obtain u where u: "process_packet_bytes env (stream_packet ms ts (Suc k)) Replay s = (None, u)"
    "applied ms ts (Suc k) u" "buffered_packets u = buffered_packets s"
    "recovery_client u = recovery_client s"
    using process_stream_packet [OF assms(1,2) _ Suc.prems(1), of Replay] by auto
  have "[Suc k..<Suc (k + Suc j)] = Suc k # [Suc (Suc k)..<Suc (Suc k + j)]"
    by (simp add: upt_conv_Cons del: upt_Suc)
  with Suc.IH [of "Suc k" u] u Suc.prems limit_open [OF assms(1) \<open>k < n\<close> Suc.prems(1)]
  show ?case by (simp del: upt_Suc)
qed

section \<open>The three cases of a datagram\<close>

lemma sound_stream_number:
  "sound_stream ms n \<Longrightarrow> j \<le> Suc n \<Longrightarrow> unat (of_nat j :: u32) = j"
  by (simp add: sound_stream_def unat_of_nat)

lemma sound_stream_less:
  "sound_stream ms n \<Longrightarrow> i \<le> Suc n \<Longrightarrow> j \<le> Suc n \<Longrightarrow>
     (of_nat i :: u32) < of_nat j \<longleftrightarrow> i < j"
  by (simp add: word_less_nat_alt sound_stream_number del: of_nat_Suc)

lemma parse_stream_packet:
  "sound_stream ms n \<Longrightarrow> 1 \<le> k \<Longrightarrow> k \<le> n \<Longrightarrow>
     parse_packet (stream_packet ms ts k) =
       Some \<lparr>pv_header = Some (make_packet_header (of_nat k) (of_nat (length (ms k))) (ts k)),
             pv_message_bytes = concat (map image_message (ms k))\<rparr>"
  unfolding stream_packet_def
  by (rule parse_packet_image) (auto simp: sound_stream_def dest: spec [of _ k])

lemmas datagram_simps = handle_datagram_def parse_stream_packet decode_make_header Let_def

lemma handle_stale_packet:
  assumes "sound_stream ms n" and "1 \<le> k" and "k \<le> n"
    and "of_nat k < expected_packet_seq s"
  shows "\<exists>line. handle_datagram env (stream_packet ms ts k) s = (None, print_error line s)"
  using assms by (auto simp: datagram_simps)

lemma handle_expected_packet:
  assumes "sound_stream ms n" and "1 \<le> k" and "k \<le> n" and "expected_packet_seq s = of_nat k"
  shows "handle_datagram env (stream_packet ms ts k) s =
    and_then (process_packet_bytes env (stream_packet ms ts k) Live s) (drain_buffered_packets env)"
  using assms by (simp add: datagram_simps)

lemma handle_early_packet:
  assumes "sound_stream ms n" and "1 \<le> k" and "k \<le> n"
    and "expected_packet_seq s < of_nat k" and "buffered_packets s = []"
  shows "\<exists>t. handle_datagram env (stream_packet ms ts k) s
      = request_replay env (expected_packet_seq s) (of_nat k - 1) t \<and>
    buffered_packets t = [(of_nat k, stream_packet ms ts k)] \<and> order_book t = order_book s \<and>
    received_messages t = received_messages s \<and> processed_packets t = processed_packets s \<and>
    packet_latency_cycles t = packet_latency_cycles s \<and>
    expected_packet_seq t = expected_packet_seq s \<and> recovery_client t = recovery_client s"
  using assms by (auto simp: datagram_simps feed_simps intro!: exI)

lemma request_replay_served:
  assumes "\<not> limit_reached env s" and "lo \<le> hi"
    and "request_packets env lo hi (recovery_client s) = (Inr batch, c)"
    and "length batch = unat (hi - lo) + 1"
  shows "\<exists>t. request_replay env lo hi s
      = and_then (process_replay_batch env batch t) (drain_buffered_packets env) \<and>
    buffered_packets t = buffered_packets s \<and> order_book t = order_book s \<and>
    received_messages t = received_messages s \<and> processed_packets t = processed_packets s \<and>
    packet_latency_cycles t = packet_latency_cycles s \<and>
    expected_packet_seq t = expected_packet_seq s \<and> recovery_client t = c"
  using assms by (auto simp: request_replay_def Let_def feed_simps intro!: exI)

lemma drain_one_packet:
  assumes "roomy env ms n" and "sound_stream ms n" and "m < n"
    and "buffered_packets s = [(of_nat (Suc m), stream_packet ms ts (Suc m))]"
    and "applied ms ts m s"
  shows "\<exists>t. drain_buffered_packets env s = (None, t) \<and> synced ms ts (Suc m) t \<and>
    recovery_client t = recovery_client s"
proof -
  have "applied ms ts m (s\<lparr>buffered_packets := []\<rparr>)"
    using assms(5) by (simp add: applied_def)
  from process_stream_packet [OF assms(1-3) this, of Drain]
  obtain t where t: "process_packet_bytes env (stream_packet ms ts (Suc m)) Drain
      (s\<lparr>buffered_packets := []\<rparr>) = (None, t)"
    "synced ms ts (Suc m) t" "recovery_client t = recovery_client s"
    by (auto simp: synced_def)
  have "drain_buffered_packets env t = (None, t)"
    using t(2) by (intro drain_empty_buffer) (simp add: synced_def)
  moreover have "\<not> limit_reached env s" by (rule limit_open [OF assms(1,3,5)])
  moreover have "expected_packet_seq s = of_nat (Suc m)" using assms(5) by (simp add: applied_def)
  ultimately show ?thesis
    using t assms(4)
    by (subst drain_buffered_packets.simps) (simp add: om_find_def del: of_nat_Suc)
qed

section \<open>What a socket brings\<close>

text \<open>A datagram that does not parse once it is in the receive buffer.\<close>

definition malformed :: "bytes \<Rightarrow> bool" where
  "malformed d \<longleftrightarrow> parse_packet (take receive_buffer_size d) = None"

definition stray_or_packet :: "(nat \<Rightarrow> message list) \<Rightarrow> (nat \<Rightarrow> u64) \<Rightarrow> nat \<Rightarrow> bytes \<Rightarrow> bool" where
  "stray_or_packet ms ts n d \<longleftrightarrow> malformed d \<or> (\<exists>k. 1 \<le> k \<and> k \<le> n \<and> d = stream_packet ms ts k)"

text \<open>The numbers of the packets among some datagrams.\<close>

definition numbers_in :: "(nat \<Rightarrow> message list) \<Rightarrow> (nat \<Rightarrow> u64) \<Rightarrow> nat \<Rightarrow> bytes list \<Rightarrow> nat set" where
  "numbers_in ms ts n ds = {k \<in> {1..n}. stream_packet ms ts k \<in> set ds}"

lemma numbers_in_finite [simp]: "finite (numbers_in ms ts n ds)" "numbers_in ms ts n [] = {}"
  by (simp_all add: numbers_in_def)

lemma stream_packet_inj:
  assumes "sound_stream ms n" and "1 \<le> j" "j \<le> n" and "1 \<le> k" "k \<le> n"
    and "stream_packet ms ts j = stream_packet ms ts k"
  shows "j = k"
proof -
  have "parse_packet (stream_packet ms ts j) = parse_packet (stream_packet ms ts k)"
    using assms(6) by simp
  then have "make_packet_header (of_nat j) (of_nat (length (ms j))) (ts j)
      = make_packet_header (of_nat k) (of_nat (length (ms k))) (ts k)"
    unfolding parse_stream_packet [OF assms(1-3)] parse_stream_packet [OF assms(1,4,5)]
    by (simp only: option.inject packet_view.ext_inject)
  then have "(of_nat j :: u32) = of_nat k" by (metis decode_make_header(1))
  then have "unat (of_nat j :: u32) = unat (of_nat k :: u32)" by (rule arg_cong)
  moreover have "unat (of_nat j :: u32) = j" "unat (of_nat k :: u32) = k"
    using assms(3,5) by (auto intro: sound_stream_number [OF assms(1)])
  ultimately show ?thesis by (simp only:)
qed

lemma stream_packet_fits:
  assumes "sound_stream ms n" and "1 \<le> k" and "k \<le> n"
  shows "take receive_buffer_size (stream_packet ms ts k) = stream_packet ms ts k"
  using assms
  by (intro take_all) (auto simp: stream_packet_def length_packet_image receive_buffer_size_def
      sound_stream_def dest!: spec [of _ k])

lemma numbers_in_packet:
  "sound_stream ms n \<Longrightarrow> 1 \<le> k \<Longrightarrow> k \<le> n \<Longrightarrow>
     numbers_in ms ts n (stream_packet ms ts k # ds) = insert k (numbers_in ms ts n ds)"
  using stream_packet_inj [of ms n _ k ts] by (auto simp: numbers_in_def)

lemma Max_insert_max:
  "finite N \<Longrightarrow> Max (insert (max m k) N) = Max (insert m (insert k N))" for m k :: nat
  by (cases "N = {}") (simp_all add: max.assoc)

lemma packet_not_malformed:
  "sound_stream ms n \<Longrightarrow> 1 \<le> k \<Longrightarrow> k \<le> n \<Longrightarrow> \<not> malformed (stream_packet ms ts k)"
  by (simp add: malformed_def stream_packet_fits parse_stream_packet)

lemma numbers_in_malformed:
  "sound_stream ms n \<Longrightarrow> malformed d \<Longrightarrow> numbers_in ms ts n (d # ds) = numbers_in ms ts n ds"
  using packet_not_malformed by (auto simp: numbers_in_def)

lemma receive_malformed:
  assumes "\<not> limit_reached env s" and "malformed d"
  shows "\<exists>line. receive_loop env (Datagram d # answers) s = receive_loop env answers (print_error line s)"
  using assms by (auto simp: try_receive_def malformed_def handle_datagram_def Let_def)

section \<open>The recovery service\<close>

text \<open>
  What the handler relies on: a request for a range that the publisher has stored returns
  exactly the packets of the range, in order, and later requests can be served as well.
\<close>

locale replay_service =
  fixes request :: "u32 \<Rightarrow> u32 \<Rightarrow> 'c \<Rightarrow> (halt + bytes list) \<times> 'c"
    and content :: "'c \<Rightarrow> u32 \<Rightarrow> bytes option"
    and good :: "'c \<Rightarrow> bool"
  assumes request_stored:
    "good c \<Longrightarrow> 0 < lo \<Longrightarrow> lo \<le> hi \<Longrightarrow>
     (\<And>k. unat lo \<le> k \<Longrightarrow> k \<le> unat hi \<Longrightarrow> content c (of_nat k) = Some (f k)) \<Longrightarrow>
     \<exists>c'. request lo hi c = (Inr (map f [unat lo..<Suc (unat hi)]), c') \<and>
       good c' \<and> content c' = content c"
begin

lemma request_gap:
  assumes sound: "sound_stream ms n" and "stored (content c) ms ts n" and "good c"
    and "1 \<le> lo" and "lo \<le> hi" and "hi \<le> n"
  shows "\<exists>c'. request (of_nat lo) (of_nat hi) c = (Inr (map (stream_packet ms ts) [lo..<Suc hi]), c') \<and>
    good c' \<and> content c' = content c"
proof -
  have num: "unat (of_nat lo :: u32) = lo" "unat (of_nat hi :: u32) = hi"
    using assms by (auto intro: sound_stream_number [OF sound])
  have "(0 :: u32) < of_nat lo" and "(of_nat lo :: u32) \<le> of_nat hi"
    using assms by (simp_all add: word_less_nat_alt word_le_nat_alt num)
  moreover have "content c (of_nat j) = Some (stream_packet ms ts j)"
    if "unat (of_nat lo :: u32) \<le> j" "j \<le> unat (of_nat hi :: u32)" for j
    using that assms by (simp add: stored_def num)
  ultimately show ?thesis
    using request_stored [OF assms(3), of "of_nat lo" "of_nat hi" "stream_packet ms ts"]
    by (simp add: num)
qed

lemma replay_gap:
  assumes env: "roomy env ms n" "request_packets env = request"
    and sound: "sound_stream ms n" and st: "stored (content (recovery_client s)) ms ts n"
    and good: "good (recovery_client s)" and k: "Suc m < k" "k \<le> n"
    and sync: "applied ms ts m s"
    and buffer: "buffered_packets s = [(of_nat k, stream_packet ms ts k)]"
  shows "\<exists>t. request_replay env (of_nat (Suc m)) (of_nat (k - 1)) s = (None, t) \<and>
    synced ms ts k t \<and> good (recovery_client t) \<and>
    content (recovery_client t) = content (recovery_client s)"
proof -
  have num: "unat (of_nat (Suc m) :: u32) = Suc m" "unat (of_nat (k - 1) :: u32) = k - 1"
    using k by (auto intro!: sound_stream_number [OF sound] simp del: of_nat_Suc of_nat_diff)
  have order: "(of_nat (Suc m) :: u32) \<le> of_nat (k - 1)"
    using k by (simp add: word_le_nat_alt num del: of_nat_Suc of_nat_diff One_nat_def)
  let ?batch = "map (stream_packet ms ts) [Suc m..<Suc (k - 1)]"
  have range: "1 \<le> Suc m" "Suc m \<le> k - 1" "k - 1 \<le> n" "m < n" "k - 1 < n"
    and steps: "m + (k - 1 - m) \<le> n" "m + (k - 1 - m) = k - 1" "Suc (k - 1) = k"
    using k by auto
  obtain c where c: "request (of_nat (Suc m)) (of_nat (k - 1)) (recovery_client s) = (Inr ?batch, c)"
    "good c" "content c = content (recovery_client s)"
    using request_gap [OF sound st good range(1-3)] by blast
  have "length ?batch = unat ((of_nat (k - 1) :: u32) - of_nat (Suc m)) + 1"
    using k by (subst unat_sub [OF order]) (simp add: num del: of_nat_Suc of_nat_diff One_nat_def)
  from request_replay_served [OF limit_open [OF env(1) range(4) sync] order _ this] c(1) env(2)
  obtain u where u: "request_replay env (of_nat (Suc m)) (of_nat (k - 1)) s
      = and_then (process_replay_batch env ?batch u) (drain_buffered_packets env)"
    "buffered_packets u = buffered_packets s" "order_book u = order_book s"
    "received_messages u = received_messages s" "processed_packets u = processed_packets s"
    "packet_latency_cycles u = packet_latency_cycles s"
    "expected_packet_seq u = expected_packet_seq s" "recovery_client u = c"
    by (auto simp del: of_nat_Suc upt_Suc)
  then have "applied ms ts m u" using sync by (simp add: applied_def)
  from process_replay_range [OF env(1) sound this steps(1), unfolded steps(2)]
  obtain v where v: "process_replay_batch env ?batch u = (None, v)" "applied ms ts (k - 1) v"
    "buffered_packets v = buffered_packets s" "recovery_client v = c"
    using u by auto
  with drain_one_packet [OF env(1) sound range(5), of v ts] buffer
  obtain t where "drain_buffered_packets env v = (None, t)" "synced ms ts k t" "recovery_client t = c"
    by (auto simp only: steps(3))
  with u v c show ?thesis by auto
qed

text \<open>A datagram behind the handler, the next one, and one ahead of it.\<close>

lemma stream_packet_behind:
  assumes sound: "sound_stream ms n" and k: "1 \<le> k" "k \<le> m" and m: "m \<le> n"
    and sync: "synced ms ts m s"
  shows "\<exists>line. handle_datagram env (stream_packet ms ts k) s = (None, print_error line s)"
proof -
  have "of_nat k < expected_packet_seq s"
    using sound_stream_less [OF sound, of k "Suc m"] k m sync
    by (simp add: synced_def applied_def del: of_nat_Suc)
  moreover have "k \<le> n" using k m by simp
  ultimately show ?thesis by (intro handle_stale_packet [OF sound k(1)])
qed

lemma stream_packet_next:
  assumes env: "roomy env ms n" and sound: "sound_stream ms n" and m: "m < n"
    and sync: "synced ms ts m s"
  shows "\<exists>t. handle_datagram env (stream_packet ms ts (Suc m)) s = (None, t) \<and>
    synced ms ts (Suc m) t \<and> recovery_client t = recovery_client s"
proof -
  have seq: "expected_packet_seq s = of_nat (Suc m)" and at: "applied ms ts m s"
    using sync by (simp_all add: synced_def applied_def)
  obtain t where t: "process_packet_bytes env (stream_packet ms ts (Suc m)) Live s = (None, t)"
    "synced ms ts (Suc m) t" "recovery_client t = recovery_client s"
    using process_stream_packet [OF env sound m at, of Live] sync by (auto simp: synced_def)
  moreover have "drain_buffered_packets env t = (None, t)"
    using t(2) by (intro drain_empty_buffer) (simp add: synced_def)
  moreover have "1 \<le> Suc m" "Suc m \<le> n" using m by simp_all
  note handle_expected_packet [OF sound this seq, of env ts]
  ultimately show ?thesis by simp
qed

lemma stream_packet_ahead:
  assumes env: "roomy env ms n" "request_packets env = request"
    and sound: "sound_stream ms n" and st: "stored (content (recovery_client s)) ms ts n"
    and good: "good (recovery_client s)" and k: "Suc m < k" "k \<le> n" and sync: "synced ms ts m s"
  shows "\<exists>t. handle_datagram env (stream_packet ms ts k) s = (None, t) \<and>
    synced ms ts k t \<and> good (recovery_client t) \<and>
    content (recovery_client t) = content (recovery_client s)"
proof -
  have seq: "expected_packet_seq s = of_nat (Suc m)" and empty: "buffered_packets s = []"
    and at: "applied ms ts m s"
    using sync by (simp_all add: synced_def applied_def)
  have early: "expected_packet_seq s < of_nat k"
    using sound_stream_less [OF sound, of "Suc m" k] k seq by (simp del: of_nat_Suc)
  have gap: "(of_nat k :: u32) - 1 = of_nat (k - 1)" using k by (simp add: of_nat_diff)
  have "1 \<le> k" using k by simp
  from handle_early_packet [OF sound this k(2) early empty, where env = env and ts = ts]
  obtain u where u: "handle_datagram env (stream_packet ms ts k) s
      = request_replay env (of_nat (Suc m)) (of_nat (k - 1)) u"
    "buffered_packets u = [(of_nat k, stream_packet ms ts k)]" "order_book u = order_book s"
    "received_messages u = received_messages s" "processed_packets u = processed_packets s"
    "packet_latency_cycles u = packet_latency_cycles s"
    "expected_packet_seq u = expected_packet_seq s" "recovery_client u = recovery_client s"
    by (auto simp: gap seq simp del: of_nat_Suc)
  have "applied ms ts m u" using u at by (simp add: applied_def)
  from replay_gap [OF env sound _ _ k this u(2)] u st good show ?thesis
    by (simp del: of_nat_Suc)
qed

lemma handle_stream_packet:
  assumes env: "roomy env ms n" "request_packets env = request"
    and sound: "sound_stream ms n" and st: "stored (content (recovery_client s)) ms ts n"
    and good: "good (recovery_client s)"
    and k: "1 \<le> k" "k \<le> n" and m: "m \<le> n" and sync: "synced ms ts m s"
  shows "\<exists>t. handle_datagram env (stream_packet ms ts k) s = (None, t) \<and>
    synced ms ts (max m k) t \<and> good (recovery_client t) \<and>
    content (recovery_client t) = content (recovery_client s)"
proof -
  consider "k \<le> m" | "k = Suc m" | "Suc m < k" by linarith
  then show ?thesis
  proof cases
    case 1
    from stream_packet_behind [OF sound k(1) this m sync, of env] sync good 1 show ?thesis
      by (auto simp: print_error_def synced_def applied_def max_absorb1)
  next
    case 2
    with k have "m < n" by simp
    from stream_packet_next [OF env(1) sound this sync] good 2 show ?thesis
      by (auto simp: max_absorb2)
  next
    case 3
    from stream_packet_ahead [OF env sound st good 3 k(2) sync] 3 show ?thesis
      by (simp add: max_absorb2)
  qed
qed

text \<open>One round of the receive loop.\<close>

lemma receive_stream_packet:
  assumes env: "roomy env ms n" "request_packets env = request" and open_limit: "\<not> limit_reached env s"
    and sound: "sound_stream ms n" and st: "stored (content (recovery_client s)) ms ts n"
    and good: "good (recovery_client s)"
    and k: "1 \<le> k" "k \<le> n" and m: "m \<le> n" and sync: "synced ms ts m s"
  shows "\<exists>t. receive_loop env (Datagram (stream_packet ms ts k) # answers) s = receive_loop env answers t \<and>
    synced ms ts (max m k) t \<and> good (recovery_client t) \<and>
    content (recovery_client t) = content (recovery_client s)"
proof -
  from handle_stream_packet [OF env sound st good k m sync] open_limit show ?thesis
    by (auto simp: try_receive_def stream_packet_fits [OF sound k])
qed

lemma receive_stream:
  assumes env: "roomy env ms n" "request_packets env = request"
    and sound: "sound_stream ms n"
  shows "stored (content (recovery_client s)) ms ts n \<Longrightarrow> good (recovery_client s) \<Longrightarrow>
    m \<le> n \<Longrightarrow> synced ms ts m s \<Longrightarrow> list_all (stray_or_packet ms ts n) ds \<Longrightarrow>
    \<exists>t. receive_all env ds s = (None, t) \<and>
      synced ms ts (Max (insert m (numbers_in ms ts n ds))) t \<and> good (recovery_client t) \<and>
      content (recovery_client t) = content (recovery_client s)"
proof (induction ds arbitrary: m s)
  case Nil
  then show ?case by simp
next
  case (Cons d ds)
  consider "limit_reached env s" | "\<not> limit_reached env s" "malformed d"
    | k where "\<not> limit_reached env s" "1 \<le> k" "k \<le> n" "d = stream_packet ms ts k"
    using Cons.prems(5) by (auto simp: stray_or_packet_def)
  then show ?case
  proof cases
    case 1
    then have "m = n"
      using limit_open [OF env(1), of m ts s] Cons.prems(3,4)
      by (cases "m = n") (simp_all add: synced_def)
    then have "Max (insert m (numbers_in ms ts n (d # ds))) = m"
      by (intro Max_eqI) (auto simp: numbers_in_def)
    with 1 Cons.prems show ?thesis by simp
  next
    case 2
    then obtain line where "receive_all env (d # ds) s = receive_all env ds (print_error line s)"
      using receive_malformed by fastforce
    moreover have "synced ms ts m (print_error line s)" "recovery_client (print_error line s) = recovery_client s"
      using Cons.prems(4) by (simp_all add: synced_def applied_def print_error_def)
    ultimately show ?thesis
      using Cons.IH [of "print_error line s" m] Cons.prems 2 sound by (simp add: numbers_in_malformed)
  next
    case k: (3 k)
    obtain u where u: "receive_all env (d # ds) s = receive_all env ds u"
      "synced ms ts (max m k) u" "good (recovery_client u)"
      "content (recovery_client u) = content (recovery_client s)"
      using receive_stream_packet [OF env k(1) sound Cons.prems(1,2) k(2,3) Cons.prems(3,4),
          of "map Datagram ds"] k(4) by auto
    moreover have "max m k \<le> n" using Cons.prems(3) k by auto
    ultimately show ?thesis
      using Cons.IH [of u "max m k"] Cons.prems(1,2,5) k(4)
      by (simp add: numbers_in_packet [OF sound k(2,3)] Max_insert_max)
  qed
qed

end

end
