(* ===== verification/Recovery_Link.thy ===== *)
theory Recovery_Link
  imports Recovery_Server Gap_Recovery
begin

text \<open>
  A recovery client and a recovery server joined by a TCP connection, as the feed handler and
  the exchange simulator are. A request is the client's, the bytes it sends reach the server in
  some pieces, the server's loop answers them, and the answer reaches the client in some pieces.
  The joined pair is an instance of the service that the feed handler relies on.
\<close>

section \<open>The joined pair\<close>

text \<open>
  What the two kernels do during one request. How many \<open>send\<close> calls the answer takes is
  bounded by what the history holds, so the server's script is given for that bound.
\<close>

record exchange =
  client_sends :: "send_answer list"
  request_arrival :: "bytes \<Rightarrow> recv_event list"
  server_sends :: "nat \<Rightarrow> send_answer list"
  response_arrival :: "bytes \<Rightarrow> recv_event list"

record recovery_link =
  link_client :: recovery_client
  link_history :: packet_history
  link_network :: "nat \<Rightarrow> exchange"
  link_requests :: nat

definition script_client ::
    "send_answer list \<Rightarrow> recv_event list \<Rightarrow> recovery_client \<Rightarrow> recovery_client" where
  "script_client answers events c =
     (case connection c of
        None \<Rightarrow> c
      | Some sock \<Rightarrow> c\<lparr>connection := Some (sock\<lparr>send_answers := send_answers sock @ answers,
                          recv_events := recv_events sock @ events\<rparr>)\<rparr>)"

definition response_bound :: "packet_history \<Rightarrow> nat" where
  "response_bound h = 4 + om_total (\<lambda>k packet. 2 + length packet) h"

text \<open>What the server's loop sends for the bytes of one request.\<close>

definition server_reply :: "exchange \<Rightarrow> packet_history \<Rightarrow> bytes \<Rightarrow> bytes" where
  "server_reply net history request_bytes =
     sent_bytes (snd (handle_client [history]
       \<lparr>send_answers = server_sends net (response_bound history), sent_bytes = [],
        recv_events = request_arrival net request_bytes\<rparr>))"

text \<open>
  The bytes that a connected client writes for a request. They do not depend on what has arrived
  at its socket (\<open>requested_before_arrival\<close>), so the server's answer to them can be put into the
  socket's script before the request is run.
\<close>

definition requested :: "u32 \<Rightarrow> u32 \<Rightarrow> recovery_client \<Rightarrow> bytes" where
  "requested lo hi c = drop (length (client_sent c)) (client_sent (snd (send_request lo hi c)))"

text \<open>A request of a connected client, with the arrival of the server's answer.\<close>

definition exchange_packets ::
    "exchange \<Rightarrow> packet_history \<Rightarrow> u32 \<Rightarrow> u32 \<Rightarrow> recovery_client \<Rightarrow>
     (bytes list, recovery_client) result" where
  "exchange_packets net history lo hi c =
     client_request_packets lo hi
       (script_client [] (response_arrival net (server_reply net history (requested lo hi c))) c)"

text \<open>
  The feed handler's call of \<open>request_packets\<close>. The connection is made first, as
  \<open>request_packets\<close> does it, so that the scripts go to the socket that the request uses.
\<close>

definition link_request :: "u32 \<Rightarrow> u32 \<Rightarrow> recovery_link \<Rightarrow> (bytes list, recovery_link) result" where
  "link_request lo hi link =
     (if hi < lo then (Inr [], link)
      else case ensure_connected (link_client link) of
        (Some h, c) \<Rightarrow> (Inl h, link\<lparr>link_client := c\<rparr>)
      | (None, c) \<Rightarrow>
          let net = link_network link (link_requests link);
              (r, c) = exchange_packets net (link_history link) lo hi
                (script_client (client_sends net) [] c)
          in (r, link\<lparr>link_requests := Suc (link_requests link), link_client := c\<rparr>))"

text \<open>What has arrived plays no part in sending.\<close>

lemma send_all_before_arrival:
  "send_all data (sock\<lparr>recv_events := es\<rparr>) =
     (fst (send_all data sock), (snd (send_all data sock))\<lparr>recv_events := es\<rparr>)"
proof (induction data sock rule: send_all.induct)
  case (1 data sock)
  consider "data = []" | "data \<noteq> []" "send_answers sock = []"
    | n answers where "data \<noteq> []" "send_answers sock = Sent n # answers"
    | e answers where "data \<noteq> []" "send_answers sock = Send_error e # answers"
    by (metis list.exhaust send_answer.exhaust)
  then show ?case
  proof cases
    case (3 n answers)
    with "1.IH"(1) [OF 3 refl] show ?thesis
      by (cases sock) (simp add: send_all_steps throw_def)
  next
    case (4 e answers)
    with "1.IH"(2) [OF 4 refl] show ?thesis by (cases sock) (simp add: send_all_steps)
  qed (simp_all add: send_all_steps)
qed

lemma requested_before_arrival:
  "connection c \<noteq> None \<Longrightarrow> requested lo hi (script_client [] es c) = requested lo hi c"
  by (auto simp: requested_def send_request_def ensure_connected_def client_send_def script_client_def
      client_sent_def send_all_before_arrival split: prod.splits)

section \<open>A reliable network\<close>

text \<open>
  Nothing is lost: every \<open>send\<close> takes at least a byte or is interrupted, and all bytes arrive
  in some pieces, with interruptions.
\<close>

definition reliable :: "exchange \<Rightarrow> bool" where
  "reliable net \<longleftrightarrow> list_all usable (client_sends net) \<and> 8 \<le> sends (client_sends net) \<and>
     (\<forall>bs. delivers (request_arrival net bs) bs) \<and>
     (\<forall>n. list_all usable (server_sends net n) \<and> n \<le> sends (server_sends net n)) \<and>
     (\<forall>bs. delivers (response_arrival net bs) bs)"

definition ready_client :: "recovery_client \<Rightarrow> bool" where
  "ready_client c \<longleftrightarrow>
     (if connection c \<noteq> None then client_room c 0 \<and> client_pending c []
      else inet_pton (host c) \<noteq> None \<and>
        (case attempts c of
           Connected sock # rest \<Rightarrow> sock_room sock 0 \<and> sock_pending sock []
         | _ \<Rightarrow> False))"

definition good_link :: "recovery_link \<Rightarrow> bool" where
  "good_link link \<longleftrightarrow> ready_client (link_client link) \<and> om_inv (link_history link) \<and>
     list_all (\<lambda>(k, packet). frameable packet) (link_history link) \<and>
     (\<forall>k. reliable (link_network link k))"

definition link_content :: "recovery_link \<Rightarrow> u32 \<Rightarrow> bytes option" where
  "link_content link = om_find (link_history link)"

section \<open>An exchange\<close>

lemma ensure_connected_ready:
  assumes "ready_client c"
  shows "\<exists>d. ensure_connected c = (None, d) \<and> client_room d 0 \<and> client_pending d []"
proof (cases "connection c")
  case None
  with assms obtain sock rest where "attempts c = Connected sock # rest"
    "inet_pton (host c) \<noteq> None" "sock_room sock 0" "sock_pending sock []"
    by (auto simp: ready_client_def split: list.splits attempt.splits)
  with None show ?thesis
    by (simp add: ensure_connected_def Let_def client_room_def client_pending_def)
next
  case (Some sock)
  with assms show ?thesis by (simp add: ensure_connected_def ready_client_def)
qed

text \<open>What the scripts of an exchange add to a connection.\<close>

lemma script_client_room:
  "client_room c m \<Longrightarrow> list_all usable answers \<Longrightarrow> n \<le> m + sends answers \<Longrightarrow>
     client_room (script_client answers es c) n"
  by (auto simp: client_room_def script_client_def sock_room_def split: option.splits)

lemma script_client_pending:
  "client_pending c bs \<Longrightarrow> delivers es cs \<Longrightarrow> client_pending (script_client answers es c) (bs @ cs)"
  by (auto simp: client_pending_def script_client_def sock_pending_def delivers_append
      split: option.splits)

lemma send_request_delivers:
  assumes "client_room c (8 + n)"
  shows "\<exists>d. send_request lo hi c = (None, d) \<and>
    client_sent d = client_sent c @ image_request \<lparr>rq_start_seq = htonl lo, rq_end_seq = htonl hi\<rparr> \<and>
    client_room d n \<and> (\<forall>bs. client_pending d bs = client_pending c bs)"
proof -
  have "connection c \<noteq> None" using assms by (cases "connection c") (simp_all add: client_room_def)
  then have "send_request lo hi c =
      client_send (image_request \<lparr>rq_start_seq = htonl lo, rq_end_seq = htonl hi\<rparr>) c"
    by (simp add: send_request_def ensure_connected_def)
  with client.send_exact [of c "image_request \<lparr>rq_start_seq = htonl lo, rq_end_seq = htonl hi\<rparr>" n] assms
  show ?thesis by simp
qed

lemma response_fits:
  assumes "om_inv h"
  shows "length (encode_response (lookup_range lo hi h)) \<le> response_bound h"
proof -
  have "length (concat (map encode_frame (map snd (filter P h)))) \<le>
      om_total (\<lambda>k packet. 2 + length packet) h" for P
    by (induction h) (auto simp: om_total_def encode_frame_def)
  then show ?thesis
    by (simp add: lookup_range_entries [OF assms] length_encode_response response_bound_def)
qed

lemma server_reply_served:
  assumes "reliable net" and "om_inv h" and "list_all frameable (lookup_range lo hi h)"
  shows "server_reply net h (image_request \<lparr>rq_start_seq = htonl lo, rq_end_seq = htonl hi\<rparr>)
    = encode_response (lookup_range lo hi h)"
proof -
  let ?rq = "image_request \<lparr>rq_start_seq = htonl lo, rq_end_seq = htonl hi\<rparr>"
  let ?sock = "\<lparr>send_answers = server_sends net (response_bound h), sent_bytes = [],
    recv_events = request_arrival net ?rq\<rparr>"
  have "sock_pending ?sock (?rq @ [])"
    and "sock_room ?sock (length (encode_response (lookup_range lo hi h)) + 0)"
    using assms(1) response_fits [OF assms(2), of lo hi]
    by (auto simp: reliable_def sock_pending_def sock_room_def intro: order_trans)
  from serve_request [OF this(1) assms(3) this(2), of "[]"] obtain t where
    "handle_client [h] ?sock = (None, t)" "sent_bytes t = encode_response (lookup_range lo hi h)"
    by auto
  then show ?thesis by (simp add: server_reply_def del: handle_client.simps)
qed

text \<open>
  On a reliable network an exchange returns what the history holds of the range. The count of
  the response has 32 bits, hence the bound on the range.
\<close>

lemma exchange_packets_served:
  assumes net: "reliable net" and inv: "om_inv h" and frames: "list_all frameable (lookup_range lo hi h)"
    and le: "lo \<le> hi" and lo: "0 < lo" and c: "client_room c 8" "client_pending c []"
  shows "\<exists>d. exchange_packets net h lo hi c = (Inr (lookup_range lo hi h), d) \<and>
    client_room d 0 \<and> client_pending d []"
proof -
  let ?packets = "lookup_range lo hi h"
  have room: "client_room c (8 + 0)" using c(1) by simp
  then have "requested lo hi c = image_request \<lparr>rq_start_seq = htonl lo, rq_end_seq = htonl hi\<rparr>"
    using send_request_delivers [OF room, of lo hi] by (auto simp: requested_def)
  then have reply: "server_reply net h (requested lo hi c) = encode_response ?packets"
    using server_reply_served [OF net inv frames] by simp
  let ?c = "script_client [] (response_arrival net (encode_response ?packets)) c"
  have "client_room ?c (8 + 0)" by (intro script_client_room [OF c(1)]) simp_all
  from send_request_delivers [OF this, of lo hi] obtain t where t: "send_request lo hi ?c = (None, t)"
    "client_room t 0" "\<forall>bs. client_pending t bs = client_pending ?c bs" by blast
  have "client_pending ?c ([] @ encode_response ?packets)"
    using net by (intro script_client_pending c(2)) (simp add: reliable_def)
  with t(3) have "client_pending t (encode_response ?packets @ [])" by simp
  moreover have "length ?packets \<le> unat (hi - lo) + 1" by (rule history.lookup_count [OF inv le])
  moreover have "unat (hi - lo) + 1 < 2 ^ 32"
    using lo le unat_u32_bound [of hi]
    by (simp add: unat_sub [OF le] word_less_nat_alt word_le_nat_alt)
  ultimately obtain d where "receive_response lo hi t = (Inr ?packets, d)"
    "client_pending d []" "\<forall>k. client_room d k = client_room t k"
    using receive_response_delivers [OF frames, of t "[]" hi lo] by (meson order_le_less_trans)
  with t(1,2) le show ?thesis
    by (simp add: exchange_packets_def reply client_request_packets_def linorder_not_less [symmetric])
qed

lemma link_request_served:
  assumes good: "good_link link" and le: "lo \<le> hi" and lo: "0 < lo"
  shows "\<exists>link'. link_request lo hi link = (Inr (lookup_range lo hi (link_history link)), link') \<and>
    good_link link' \<and> link_history link' = link_history link"
proof -
  let ?h = "link_history link" and ?net = "link_network link (link_requests link)"
  have net: "reliable ?net" and inv: "om_inv ?h" using good by (simp_all add: good_link_def)
  have frames: "list_all frameable (lookup_range lo hi ?h)"
    using good by (intro history.lookup_all [OF inv])
      (auto simp: good_link_def list_all_iff om_find_eq dest!: map_of_SomeD)
  obtain c where c: "ensure_connected (link_client link) = (None, c)" "client_room c 0" "client_pending c []"
    using ensure_connected_ready [of "link_client link"] good by (auto simp: good_link_def)
  let ?c = "script_client (client_sends ?net) [] c"
  have "client_room ?c 8" using net by (intro script_client_room [OF c(2)]) (simp_all add: reliable_def)
  moreover have "client_pending ?c ([] @ [])" by (intro script_client_pending c(3)) simp
  ultimately obtain d where d: "exchange_packets ?net ?h lo hi ?c = (Inr (lookup_range lo hi ?h), d)"
    "client_room d 0" "client_pending d []"
    using exchange_packets_served [OF net inv frames le lo, of ?c] by auto
  let ?link = "link\<lparr>link_requests := Suc (link_requests link), link_client := d\<rparr>"
  have "link_request lo hi link = (Inr (lookup_range lo hi ?h), ?link)"
    using c(1) d(1) le by (simp add: link_request_def linorder_not_less [symmetric])
  moreover have "connection d \<noteq> None" using d(2) by (cases "connection d") (simp_all add: client_room_def)
  then have "good_link ?link"
    using good d(2,3) by (simp add: good_link_def ready_client_def)
  ultimately show ?thesis by auto
qed

section \<open>The pair is a replay service\<close>

interpretation link: replay_service link_request link_content good_link
proof (unfold_locales)
  fix c :: recovery_link and lo hi :: u32 and f
  assume good: "good_link c" and lo: "0 < lo" and le: "lo \<le> hi"
    and stored: "\<And>k. unat lo \<le> k \<Longrightarrow> k \<le> unat hi \<Longrightarrow> link_content c (of_nat k) = Some (f k)"
  have "lookup_range lo hi (link_history c) = map f [unat lo..<Suc (unat hi)]"
    using stored good by (intro history.lookup_complete) (simp_all add: link_content_def good_link_def)
  with link_request_served [OF good le lo]
  show "\<exists>c'. link_request lo hi c = (Inr (map f [unat lo..<Suc (unat hi)]), c') \<and>
      good_link c' \<and> link_content c' = link_content c"
    by (auto simp: link_content_def)
qed

section \<open>A concrete connection\<close>

text \<open>A network that moves one byte per call, with interruptions.\<close>

definition demo_client :: recovery_client where
  "demo_client = \<lparr>host = ''127.0.0.1'', connection = None,
     attempts = [Connected \<lparr>send_answers = [], sent_bytes = [], recv_events = []\<rparr>]\<rparr>"

definition demo_net :: "nat \<Rightarrow> exchange" where
  "demo_net k = \<lparr>client_sends = Send_error EINTR # replicate 8 (Sent 1),
     request_arrival = map (\<lambda>b. Arrived [b]), server_sends = (\<lambda>n. replicate n (Sent 1)),
     response_arrival = map (\<lambda>b. Arrived [b])\<rparr>"

lemma demo_ready: "ready_client demo_client"
proof -
  have "inet_pton (host demo_client) \<noteq> None"
    by (simp add: demo_client_def inet_pton_def is_digit_def digit_value_def)
  then show ?thesis
    by (simp add: ready_client_def) (simp add: demo_client_def sock_room_def sock_pending_def)
qed

lemma demo_reliable: "reliable (demo_net k)"
proof -
  have "delivers (map (\<lambda>b. Arrived [b]) bs) bs" for bs
    by (induction bs) (simp_all add: delivers_def)
  then show ?thesis by (simp add: reliable_def demo_net_def list_all_iff)
qed

section \<open>Properties of the pair\<close>

text \<open>
  C26. A request over a reliable connection, cut into any pieces on both sides and interrupted at
  any point, is answered with exactly the packets that the publisher's history holds for the
  range, in ascending order, and leaves the connection ready for the next request.
\<close>

theorem recovery_round_trip:
  assumes "good_link link" and "0 < lo" and "lo \<le> hi"
  shows "\<exists>link'. link_request lo hi link =
      (Inr (map snd (filter (\<lambda>(k, p). lo \<le> k \<and> k \<le> hi) (link_history link))), link') \<and>
    good_link link' \<and> link_history link' = link_history link"
proof -
  have inv: "om_inv (link_history link)" using assms(1) by (simp add: good_link_def)
  from link_request_served [OF assms(1,3,2)] show ?thesis
    by (simp only: lookup_range_entries [OF inv])
qed

theorem recovery_round_trip_witness:
  "fst (link_request 2 8 \<lparr>link_client = demo_client, link_history = [(1, [4]), (7, [9, 9]), (9, [5])],
     link_network = demo_net, link_requests = 0\<rparr>) = Inr [[9, 9]]"
proof -
  let ?link = "\<lparr>link_client = demo_client, link_history = [(1, [4]), (7, [9, 9]), (9, [5])],
    link_network = demo_net, link_requests = 0\<rparr>"
  have "om_inv (link_history ?link)" by (simp add: word_less_nat_alt)
  then have "good_link ?link"
    using demo_ready demo_reliable by (simp add: good_link_def frameable_def kMaxRecoveryPacketSize_def)
  from recovery_round_trip [OF this, of 2 8] show ?thesis
    by (auto simp: word_less_nat_alt word_le_nat_alt)
qed

end
