(* ===== verification/Publisher.thy ===== *)
theory Publisher
  imports Generator_Correct Recovery_Link
begin

text \<open>
  The publishing loop of \<open>src/exchange_sim/main.cpp\<close>: what it has put into the history, on the
  wire and into its counters after each packet, and that it ends.
\<close>

section \<open>The publisher's invariant\<close>

definition skips :: "sim_env \<Rightarrow> nat \<Rightarrow> bool" where
  "skips env k \<longleftrightarrow> so_skip_every (sim_opts env) \<noteq> 0 \<and>
     k mod unat (so_skip_every (sim_opts env)) = 0"

text \<open>
  Options that \<open>parse_args\<close> accepts, a fair engine, and few enough messages for the packet
  numbers not to wrap.
\<close>

definition valid_env :: "sim_env \<Rightarrow> bool" where
  "valid_env env \<longleftrightarrow> uniform (sim_draw env) \<and>
     0 < so_messages_per_packet (sim_opts env) \<and> unat (so_messages_per_packet (sim_opts env)) \<le> 42 \<and>
     unat (so_messages (sim_opts env)) < 2 ^ 32 - 1"

definition network_takes_all :: "sim_env \<Rightarrow> bool" where
  "network_takes_all env \<longleftrightarrow> (\<forall>i packet. sim_sendto env i packet = Sent (length packet))"

text \<open>
  After \<open>n\<close> packets, with the batches \<open>ms\<close> and the time stamps \<open>ts\<close>: the history holds exactly
  the packets so far, those that are not skipped are on the wire in order, and the generator's
  orders are those of a reader that has applied everything.
\<close>

definition published_numbers :: "sim_env \<Rightarrow> nat \<Rightarrow> nat list" where
  "published_numbers env n = filter (\<lambda>k. \<not> skips env k) [1..<Suc n]"

abbreviation per_packet :: "sim_env \<Rightarrow> nat" where
  "per_packet env \<equiv> unat (so_messages_per_packet (sim_opts env))"

text \<open>The packets so far.\<close>

definition pub_packets :: "sim_env \<Rightarrow> (nat \<Rightarrow> message list) \<Rightarrow> nat \<Rightarrow> publisher \<Rightarrow> bool" where
  "pub_packets env ms n s \<longleftrightarrow>
     packet_sequence s = of_nat (Suc n) \<and> sound_stream ms n \<and>
     (\<forall>k. 1 \<le> k \<and> k \<le> n \<longrightarrow> ms k \<noteq> [] \<and> length (ms k) \<le> 42) \<and>
     unat (emitted_messages s) = length (stream_messages ms n) \<and> n \<le> unat (emitted_messages s) \<and>
     unat (emitted_messages s) \<le> unat (so_messages (sim_opts env)) \<and>
     unat (emitted_messages s) = min (n * per_packet env) (unat (so_messages (sim_opts env))) \<and>
     n * per_packet env \<le> unat (so_messages (sim_opts env)) + per_packet env - 1"

text \<open>What the history and the wire hold.\<close>

definition pub_records ::
    "sim_env \<Rightarrow> (nat \<Rightarrow> message list) \<Rightarrow> (nat \<Rightarrow> u64) \<Rightarrow> nat \<Rightarrow> publisher \<Rightarrow> bool" where
  "pub_records env ms ts n s \<longleftrightarrow>
     om_inv (pub_history s) \<and> list_all (\<lambda>(k, packet). frameable packet) (pub_history s) \<and>
     stored (om_find (pub_history s)) ms ts n \<and>
     wire s = map (stream_packet ms ts) (published_numbers env n)"

text \<open>What the messages say to a reader.\<close>

definition pub_orders :: "(nat \<Rightarrow> message list) \<Rightarrow> nat \<Rightarrow> publisher \<Rightarrow> bool" where
  "pub_orders ms n s \<longleftrightarrow>
     gen_inv (pub_generator s) \<and> unat (next_order_id (pub_generator s)) \<le> Suc (unat (emitted_messages s)) \<and>
     gen_book (pub_generator s) = fold spec_apply (stream_messages ms n) Map.empty \<and>
     (\<forall>a \<le> n. banded (fold spec_apply (stream_messages ms a) Map.empty)) \<and>
     targeted_run Map.empty (stream_messages ms n) \<and>
     run_volume (stream_messages ms n) \<le> 250 * length (stream_messages ms n)"

definition pub_counts :: "nat \<Rightarrow> publisher \<Rightarrow> bool" where
  "pub_counts n s \<longleftrightarrow>
     sent_packets s = of_nat (length (wire s)) \<and> sent_packets s + dropped_packets s = of_nat n \<and>
     sent_messages s + dropped_messages s = emitted_messages s"

definition pub_inv ::
    "sim_env \<Rightarrow> (nat \<Rightarrow> message list) \<Rightarrow> (nat \<Rightarrow> u64) \<Rightarrow> nat \<Rightarrow> publisher \<Rightarrow> bool" where
  "pub_inv env ms ts n s \<longleftrightarrow> pub_packets env ms n s \<and> pub_records env ms ts n s \<and>
     pub_orders ms n s \<and> pub_counts n s"

lemmas pub_inv_unfold = pub_inv_def pub_packets_def pub_records_def pub_orders_def pub_counts_def

lemma pub_inv_init: "pub_inv env ms ts 0 init_publisher"
  by (simp add: pub_inv_unfold init_publisher_def init_generator_inv sound_stream_def stored_def
      stream_messages_def published_numbers_def run_volume_def banded_def)

lemma pub_inv_number: "pub_inv sim ms ts n p \<Longrightarrow> unat (packet_sequence p) = Suc n"
  by (simp add: pub_inv_unfold sound_stream_def unat_of_nat_u32 del: of_nat_Suc)

section \<open>Extending a stream\<close>

lemma stream_extend:
  "stream_messages (ms(Suc n := b)) n = stream_messages ms n"
  "stream_messages (ms(Suc n := b)) (Suc n) = stream_messages ms n @ b"
proof -
  have "map (ms(Suc n := b)) [1..<Suc n] = map ms [1..<Suc n]" by (rule map_cong) auto
  then show "stream_messages (ms(Suc n := b)) n = stream_messages ms n"
    by (simp only: stream_messages_def)
  then show "stream_messages (ms(Suc n := b)) (Suc n) = stream_messages ms n @ b"
    by (simp add: stream_messages_Suc)
qed

lemma stream_extend_below: "a \<le> n \<Longrightarrow> stream_messages (ms(Suc n := b)) a = stream_messages ms a"
proof -
  assume "a \<le> n"
  then have "map (ms(Suc n := b)) [1..<Suc a] = map ms [1..<Suc a]" by (intro map_cong) auto
  then show ?thesis by (simp only: stream_messages_def)
qed

lemma stream_packet_extend:
  "stream_packet (ms(Suc n := b)) (ts(Suc n := t)) k =
     (if k = Suc n then packet_image (of_nat (Suc n)) b t else stream_packet ms ts k)"
  by (simp add: stream_packet_def)

lemma sound_stream_extend:
  "sound_stream ms n \<Longrightarrow> list_all wf_message b \<Longrightarrow> length b \<le> 170 \<Longrightarrow> Suc (Suc n) < 2 ^ 32 \<Longrightarrow>
     sound_stream (ms(Suc n := b)) (Suc n)"
  by (auto simp: sound_stream_def)

lemma stored_extend:
  assumes "stored (om_find h) ms ts n" and "Suc (Suc n) < 2 ^ 32"
  shows "stored (om_find (history_store (of_nat (Suc n)) (packet_image (of_nat (Suc n)) b t) h))
    (ms(Suc n := b)) (ts(Suc n := t)) (Suc n)"
proof -
  have "(of_nat k :: u32) = of_nat (Suc n) \<longleftrightarrow> k = Suc n" if "k \<le> Suc n" for k
    using that assms(2) by (auto simp: word_eq_iff_unat unat_of_nat_u32 simp del: of_nat_Suc)
  then show ?thesis
    using assms(1) by (simp add: stored_def stream_packet_extend map_simps del: of_nat_Suc)
qed

lemma frameable_store:
  "list_all (\<lambda>(k, packet). frameable packet) h \<Longrightarrow> frameable p \<Longrightarrow>
     list_all (\<lambda>(k, packet). frameable packet) (history_store n p h)"
  unfolding history_store_def by (induction n p h rule: om_assign.induct) auto

lemma frameable_packet_image:
  "list_all wf_message b \<Longrightarrow> length b \<le> 42 \<Longrightarrow> frameable (packet_image q b t)"
  by (simp add: frameable_def kMaxRecoveryPacketSize_def length_packet_image flip: length_0_conv)

section \<open>One round\<close>

lemma sim_print_frame [feed_simps]:
  "pub_generator (sim_print env l s) = pub_generator s"
  "pub_history (sim_print env l s) = pub_history s"
  "emitted_messages (sim_print env l s) = emitted_messages s"
  "packet_sequence (sim_print env l s) = packet_sequence s"
  "wire (sim_print env l s) = wire s"
  "sent_packets (sim_print env l s) = sent_packets s"
  "dropped_packets (sim_print env l s) = dropped_packets s"
  "sent_messages (sim_print env l s) = sent_messages s"
  "dropped_messages (sim_print env l s) = dropped_messages s"
  by (simp_all add: sim_print_def)

lemma fold_frame: "(\<And>x s. f (g x s) = f s) \<Longrightarrow> f (fold g xs s) = f s"
  by (induction xs arbitrary: s) auto

lemma print_batch_frame [feed_simps]:
  "pub_generator (print_batch env b l s) = pub_generator s"
  "pub_history (print_batch env b l s) = pub_history s"
  "emitted_messages (print_batch env b l s) = emitted_messages s"
  "packet_sequence (print_batch env b l s) = packet_sequence s"
  "wire (print_batch env b l s) = wire s"
  "sent_packets (print_batch env b l s) = sent_packets s"
  "dropped_packets (print_batch env b l s) = dropped_packets s"
  "sent_messages (print_batch env b l s) = sent_messages s"
  "dropped_messages (print_batch env b l s) = dropped_messages s"
  unfolding print_batch_def by (rule fold_frame, simp add: feed_simps)+

lemma send_or_drop_frame [feed_simps]:
  "pub_generator (snd (send_or_drop env t b p s)) = pub_generator s"
  "pub_history (snd (send_or_drop env t b p s)) = pub_history s"
  "emitted_messages (snd (send_or_drop env t b p s)) = emitted_messages s"
  "packet_sequence (snd (send_or_drop env t b p s)) = packet_sequence s"
  by (simp_all add: send_or_drop_def Let_def feed_simps split: option.split)

lemma send_or_drop_cases:
  obtains (taken) t where "send_or_drop env tsc b p s = (None, t)"
    "wire t = (if should_skip env s then wire s else wire s @ [p])"
    "sent_packets t = (if should_skip env s then sent_packets s else sent_packets s + 1)"
    "sent_packets t + dropped_packets t = sent_packets s + dropped_packets s + 1"
    "sent_messages t + dropped_messages t = sent_messages s + dropped_messages s + of_nat (length b)"
  | (fails) e where "udp_send (sim_sendto env (sendtos s) p) p = Some e" and "\<not> should_skip env s"
    and "send_or_drop env tsc b p s = (Some (Throws e), s\<lparr>sendtos := Suc (sendtos s)\<rparr>)"
  by (cases "udp_send (sim_sendto env (sendtos s) p) p"; cases "should_skip env s")
    (auto simp: send_or_drop_def Let_def feed_simps)

lemma network_udp_send: "network_takes_all env \<Longrightarrow> udp_send (sim_sendto env i packet) packet = None"
  by (simp add: network_takes_all_def udp_send_def)

definition batch_size :: "sim_env \<Rightarrow> publisher \<Rightarrow> nat" where
  "batch_size env s = min (unat (so_messages_per_packet (sim_opts env)))
     (unat (so_messages (sim_opts env)) - unat (emitted_messages s))"

lemma batch_size_word:
  "emitted_messages s \<le> so_messages (sim_opts env) \<Longrightarrow>
     unat (min (so_messages_per_packet (sim_opts env))
       (so_messages (sim_opts env) - emitted_messages s)) = batch_size env s"
  by (auto simp: batch_size_def min_def word_le_nat_alt unat_sub)

lemma published_numbers_Suc:
  "published_numbers env (Suc n) = published_numbers env n @ (if skips env (Suc n) then [] else [Suc n])"
  by (simp add: published_numbers_def)

lemma published_packets_extend:
  "map (stream_packet (ms(Suc n := b)) (ts(Suc n := t))) (published_numbers env n) =
     map (stream_packet ms ts) (published_numbers env n)"
  by (rule map_cong) (auto simp: published_numbers_def stream_packet_extend)

text \<open>The next batch, and what it does to the generator.\<close>

definition next_batch ::
    "sim_env \<Rightarrow> publisher \<Rightarrow> message list \<Rightarrow> generator \<Rightarrow> bool" where
  "next_batch env s b g \<longleftrightarrow> gen_inv g \<and> length b = batch_size env s \<and> list_all wf_message b \<and>
     b \<noteq> [] \<and> length b \<le> 42 \<and> targeted_run (gen_book (pub_generator s)) b \<and>
     fold spec_apply b (gen_book (pub_generator s)) = gen_book g \<and> run_volume b \<le> 250 * length b \<and>
     unat (next_order_id g) \<le> unat (next_order_id (pub_generator s)) + length b \<and>
     unat (emitted_messages s + of_nat (length b)) = unat (emitted_messages s) + length b \<and>
     unat (emitted_messages s) + length b \<le> unat (so_messages (sim_opts env))"

lemma gen_batch_next:
  assumes valid: "valid_env env" and inv: "pub_inv env ms ts n s"
    and more: "emitted_messages s < so_messages (sim_opts env)"
    and batch: "gen_batch (sim_draw env) (batch_size env s) (pub_generator s) = (b, g)"
  shows "next_batch env s b g"
proof -
  have opts: "uniform (sim_draw env)" "0 < per_packet env" "per_packet env \<le> 42"
    "unat (so_messages (sim_opts env)) < 2 ^ 32 - 1"
    using valid by (simp_all add: valid_env_def unat_gt_0 word_neq_0_conv)
  have "unat (emitted_messages s) < unat (so_messages (sim_opts env))"
    using more by (simp add: word_less_nat_alt)
  then have size: "batch_size env s \<le> 42" "0 < batch_size env s"
    "unat (emitted_messages s) + batch_size env s \<le> unat (so_messages (sim_opts env))"
    using opts by (auto simp: batch_size_def)
  have "gen_inv (pub_generator s)"
    "unat (next_order_id (pub_generator s)) \<le> Suc (unat (emitted_messages s))"
    using inv by (simp_all add: pub_inv_unfold)
  moreover from this size(3) opts(4)
  have "unat (next_order_id (pub_generator s)) + batch_size env s < 2 ^ 64" by simp
  ultimately show ?thesis
    using gen_batch_correct [OF opts(1) _ _ batch] size opts(4)
    by (auto simp: next_batch_def unat_word_ariths unat_of_nat)
qed

text \<open>What a round changes.\<close>

definition round_effect ::
    "sim_env \<Rightarrow> publisher \<Rightarrow> message list \<Rightarrow> generator \<Rightarrow> u64 \<Rightarrow> publisher \<Rightarrow> bool" where
  "round_effect env s b g t s' \<longleftrightarrow>
     (let packet = packet_image (packet_sequence s) b t in
      pub_generator s' = g \<and> pub_history s' = history_store (packet_sequence s) packet (pub_history s) \<and>
      emitted_messages s' = emitted_messages s + of_nat (length b) \<and>
      packet_sequence s' = packet_sequence s + 1 \<and>
      wire s' = (if should_skip env s then wire s else wire s @ [packet]) \<and>
      sent_packets s' = (if should_skip env s then sent_packets s else sent_packets s + 1) \<and>
      sent_packets s' + dropped_packets s' = sent_packets s + dropped_packets s + 1 \<and>
      sent_messages s' + dropped_messages s' = sent_messages s + dropped_messages s + of_nat (length b))"

text \<open>What a round leaves when \<open>sendto\<close> fails: the packet is in the history, but not on the wire.\<close>

definition round_failure ::
    "sim_env \<Rightarrow> publisher \<Rightarrow> message list \<Rightarrow> u64 \<Rightarrow> exn \<Rightarrow> publisher \<Rightarrow> bool" where
  "round_failure env s b t e s' \<longleftrightarrow>
     (let packet = packet_image (packet_sequence s) b t in
      \<not> should_skip env s \<and> udp_send (sim_sendto env (sendtos s' - 1) packet) packet = Some e \<and>
      pub_history s' = history_store (packet_sequence s) packet (pub_history s) \<and>
      emitted_messages s' = emitted_messages s \<and> packet_sequence s' = packet_sequence s \<and>
      wire s' = wire s)"

lemma publish_packet_outcome:
  assumes le: "emitted_messages s \<le> so_messages (sim_opts env)"
    and batch: "gen_batch (sim_draw env) (batch_size env s) (pub_generator s) = (b, g)"
    and b: "next_batch env s b g"
  obtains (goes_on) t s' where "publish_packet env s = (None, s')" and "round_effect env s b g t s'"
  | (fails) e t s' where "publish_packet env s = (Some (Throws e), s')" and "round_failure env s b t e s'"
proof -
  let ?t = "sim_tsc env (sim_tsc_reads s)" and ?q = "packet_sequence s"
  let ?p = "packet_image ?q b ?t"
  let ?s = "s\<lparr>pub_generator := g, sim_tsc_reads := Suc (sim_tsc_reads s),
    pub_history := history_store ?q ?p (pub_history s)\<rparr>"
  let ?u = "\<lambda>u. (print_batch env (should_skip env ?s) b u)\<lparr>
    emitted_messages := emitted_messages u + of_nat (length b), packet_sequence := packet_sequence u + 1\<rparr>"
  have wf: "list_all wf_message b" "length b \<le> 42" using b by (simp_all add: next_batch_def)
  then have "serialize_packet_to_buffer ?q ?t b (replicate 1024 0) 1024 =
      Inr (14 + length b * 24, ?p @ drop (14 + length b * 24) (replicate 1024 0))"
    by (intro serialize_packet_to_buffer_image) auto
  moreover have "subspan 0 (14 + length b * 24) (?p @ xs) = ?p" for xs
    using wf by (simp add: subspan_def length_packet_image)
  ultimately have run: "publish_packet env s = and_then (send_or_drop env ?t b ?p ?s)
      (\<lambda>s'. (None, (print_batch env (should_skip env ?s) b s')\<lparr>
         emitted_messages := emitted_messages s' + of_nat (length b),
         packet_sequence := packet_sequence s' + 1\<rparr>))"
    using batch le by (simp add: publish_packet_def batch_size_word Let_def kPacketBufferSize_def feed_simps)
  have skip: "should_skip env ?s = should_skip env s" by (simp add: should_skip_def)
  show thesis
  proof (cases rule: send_or_drop_cases [of env ?t b ?p ?s])
    case (taken u)
    have "pub_generator u = g" "pub_history u = pub_history ?s"
      "emitted_messages u = emitted_messages s" "packet_sequence u = packet_sequence s"
      using send_or_drop_frame [of env ?t b ?p ?s] taken(1) by simp_all
    then have "round_effect env s b g ?t (?u u)"
      using taken(2-5) by (simp add: round_effect_def Let_def feed_simps skip cong: if_cong)
    with run taken(1) show thesis by (intro goes_on) (simp_all add: feed_simps)
  next
    case (fails e)
    with run skip that(2) show thesis by (simp add: feed_simps round_failure_def Let_def)
  qed
qed

section \<open>The invariant is kept\<close>

lemma run_volume_append: "run_volume (xs @ ys) = run_volume xs + run_volume ys"
  by (simp add: run_volume_def)

lemma emitted_after:
  "next_batch env s b g \<Longrightarrow> round_effect env s b g t s' \<Longrightarrow>
     unat (emitted_messages s') = unat (emitted_messages s) + length b"
  unfolding next_batch_def round_effect_def Let_def by (elim conjE) (simp only:)

lemma next_number_bound:
  assumes "valid_env env" and "pub_packets env ms n s" and "next_batch env s b g"
  shows "Suc (Suc n) < 2 ^ 32"
proof -
  have "n \<le> unat (emitted_messages s)" using assms(2) by (simp add: pub_packets_def)
  moreover have "b \<noteq> []" "unat (emitted_messages s) + length b \<le> unat (so_messages (sim_opts env))"
    using assms(3) unfolding next_batch_def by blast+
  then have "0 < length b" by simp
  moreover have "unat (so_messages (sim_opts env)) < 4294967295"
    using assms(1) by (simp add: valid_env_def)
  ultimately have "Suc (Suc n) < 4294967296"
    using \<open>unat (emitted_messages s) + length b \<le> unat (so_messages (sim_opts env))\<close> by linarith
  then show ?thesis by simp
qed

lemma pub_packets_step:
  assumes valid: "valid_env env" and inv: "pub_packets env ms n s"
    and more: "emitted_messages s < so_messages (sim_opts env)"
    and b: "next_batch env s b g" and step: "round_effect env s b g t s'"
  shows "pub_packets env (ms(Suc n := b)) (Suc n) s'"
proof -
  have nonempty: "b \<noteq> []" and size: "length b = batch_size env s" "list_all wf_message b" "length b \<le> 42"
    and fits: "unat (emitted_messages s) + length b \<le> unat (so_messages (sim_opts env))"
    using b unfolding next_batch_def by blast+
  from nonempty have ne: "0 < length b" by simp
  note emitted = emitted_after [OF b step]
  have old: "n \<le> unat (emitted_messages s)" "sound_stream ms n" "packet_sequence s = of_nat (Suc n)"
    "unat (emitted_messages s) = length (stream_messages ms n)"
    "unat (emitted_messages s) = min (n * per_packet env) (unat (so_messages (sim_opts env)))"
    "\<forall>k. 1 \<le> k \<and> k \<le> n \<longrightarrow> ms k \<noteq> [] \<and> length (ms k) \<le> 42"
    using inv unfolding pub_packets_def by blast+
  have lt: "unat (emitted_messages s) < unat (so_messages (sim_opts env))"
    using more by (simp add: word_less_nat_alt)
  with old(5) have full: "unat (emitted_messages s) = n * per_packet env" by linarith
  note bound = next_number_bound [OF valid inv b]
  have "unat (emitted_messages s') = min (Suc n * per_packet env) (unat (so_messages (sim_opts env)))"
    using emitted size(1) full lt by (auto simp: batch_size_def min_def)
  moreover have "Suc n * per_packet env \<le> unat (so_messages (sim_opts env)) + per_packet env - 1"
    using full lt by simp
  moreover have "unat (emitted_messages s') = length (stream_messages (ms(Suc n := b)) (Suc n))"
    using emitted old(4) by (simp only: stream_extend length_append)
  moreover have "packet_sequence s' = of_nat (Suc (Suc n))"
    using step old(3) by (simp add: round_effect_def Let_def add.commute)
  moreover have reach: "Suc n \<le> unat (emitted_messages s) + length b" using old(1) ne by linarith
  ultimately show "pub_packets env (ms(Suc n := b)) (Suc n) s'"
    unfolding pub_packets_def
    using emitted fits nonempty reach old(6) size(3) sound_stream_extend [OF old(2) size(2) _ bound]
    by (simp add: le_Suc_eq)
qed

lemma pub_records_step:
  assumes inv: "pub_records env ms ts n s" and seq: "packet_sequence s = of_nat (Suc n)"
    and n: "Suc (Suc n) < 2 ^ 32"
    and b: "next_batch env s b g" and step: "round_effect env s b g t s'"
  shows "pub_records env (ms(Suc n := b)) (ts(Suc n := t)) (Suc n) s'"
proof -
  have skip: "should_skip env s = skips env (Suc n)"
    using n seq by (simp add: should_skip_def skips_def unat_of_nat_u32 del: of_nat_Suc)
  have hist: "pub_history s' =
      history_store (of_nat (Suc n)) (packet_image (of_nat (Suc n)) b t) (pub_history s)"
    using step by (simp add: round_effect_def Let_def seq del: of_nat_Suc)
  moreover have "frameable (packet_image (of_nat (Suc n)) b t)"
    using b by (intro frameable_packet_image) (simp_all add: next_batch_def)
  moreover have "wire s' = map (stream_packet (ms(Suc n := b)) (ts(Suc n := t))) (published_numbers env (Suc n))"
    using step inv by (simp add: round_effect_def Let_def skip seq published_numbers_Suc
        published_packets_extend stream_packet_extend pub_records_def del: of_nat_Suc)
  ultimately show ?thesis
    using inv stored_extend [OF _ n, of "pub_history s" ms ts b t]
    by (simp add: pub_records_def map_simps frameable_store del: of_nat_Suc)
qed

lemma pub_orders_step:
  assumes inv: "pub_orders ms n s" and b: "next_batch env s b g" and step: "round_effect env s b g t s'"
  shows "pub_orders (ms(Suc n := b)) (Suc n) s'"
proof -
  have g: "pub_generator s' = g" "unat (emitted_messages s') = unat (emitted_messages s) + length b"
    using step emitted_after [OF b step] by (simp_all add: round_effect_def Let_def)
  have book: "fold spec_apply (stream_messages (ms(Suc n := b)) (Suc n)) Map.empty = gen_book g"
    using b inv by (simp add: next_batch_def pub_orders_def stream_extend)
  moreover have "banded (fold spec_apply (stream_messages (ms(Suc n := b)) a) Map.empty)" if "a \<le> Suc n" for a
    using that inv b book gen_inv_banded [of g]
    by (auto simp: le_Suc_eq stream_extend_below pub_orders_def next_batch_def)
  ultimately show ?thesis
    using inv b g
    by (simp add: pub_orders_def next_batch_def stream_extend targeted_run_append run_volume_append)
qed

lemma pub_counts_step:
  "pub_counts n s \<Longrightarrow> round_effect env s b g t s' \<Longrightarrow> pub_counts (Suc n) s'"
  by (auto simp: pub_counts_def round_effect_def Let_def add.commute)

text \<open>A round that fails: the history is one packet ahead of the wire.\<close>

definition pub_failed ::
    "sim_env \<Rightarrow> (nat \<Rightarrow> message list) \<Rightarrow> (nat \<Rightarrow> u64) \<Rightarrow> nat \<Rightarrow> exn \<Rightarrow> publisher \<Rightarrow> bool" where
  "pub_failed env ms ts n e s \<longleftrightarrow>
     stored (om_find (pub_history s)) ms ts (Suc n) \<and> \<not> skips env (Suc n) \<and>
     (let packet = stream_packet ms ts (Suc n) in
       udp_send (sim_sendto env (sendtos s - 1) packet) packet = Some e) \<and>
     wire s = map (stream_packet ms ts) (published_numbers env n) \<and>
     packet_sequence s = of_nat (Suc n) \<and> Suc (Suc n) < 2 ^ 32 \<and>
     unat (emitted_messages s) = length (stream_messages ms n) \<and>
     emitted_messages s < so_messages (sim_opts env)"

lemma pub_failed_step:
  assumes valid: "valid_env env" and inv: "pub_inv env ms ts n s"
    and more: "emitted_messages s < so_messages (sim_opts env)"
    and b: "next_batch env s b g" and step: "round_failure env s b t e s'"
  shows "pub_failed env (ms(Suc n := b)) (ts(Suc n := t)) n e s'"
proof -
  have packets: "pub_packets env ms n s" and records: "pub_records env ms ts n s"
    using inv by (simp_all add: pub_inv_def)
  note n = next_number_bound [OF valid packets b]
  have seq: "packet_sequence s = of_nat (Suc n)"
    and emitted: "unat (emitted_messages s) = length (stream_messages ms n)"
    using packets by (simp_all only: pub_packets_def)
  have "should_skip env s = skips env (Suc n)"
    using n seq by (simp add: should_skip_def skips_def unat_of_nat_u32 del: of_nat_Suc)
  moreover have "stored (om_find (pub_history s')) (ms(Suc n := b)) (ts(Suc n := t)) (Suc n)"
    using step stored_extend [OF _ n, of "pub_history s" ms ts b t] records
    by (simp add: round_failure_def Let_def seq pub_records_def del: of_nat_Suc)
  ultimately show ?thesis
    using step records n more emitted
    by (simp add: pub_failed_def round_failure_def Let_def seq pub_records_def stream_packet_extend
        published_packets_extend stream_extend del: of_nat_Suc)
qed

lemma pub_inv_round:
  assumes valid: "valid_env env" and inv: "pub_inv env ms ts n s"
    and more: "emitted_messages s < so_messages (sim_opts env)"
  obtains (goes_on) s' b t where "publish_packet env s = (None, s')"
      and "pub_inv env (ms(Suc n := b)) (ts(Suc n := t)) (Suc n) s'"
      and "length b = batch_size env s" and "unat (emitted_messages s') = unat (emitted_messages s) + length b"
      and "pub_history s' = history_store (of_nat (Suc n)) (packet_image (of_nat (Suc n)) b t) (pub_history s)"
  | (fails) e s' b t where "publish_packet env s = (Some (Throws e), s')"
      and "pub_failed env (ms(Suc n := b)) (ts(Suc n := t)) n e s'"
proof -
  obtain b g where batch: "gen_batch (sim_draw env) (batch_size env s) (pub_generator s) = (b, g)"
    by (cases "gen_batch (sim_draw env) (batch_size env s) (pub_generator s)")
  note b = gen_batch_next [OF valid inv more batch]
  have parts: "pub_packets env ms n s" "pub_records env ms ts n s" "pub_orders ms n s" "pub_counts n s"
    using inv by (simp_all add: pub_inv_def)
  have seq: "packet_sequence s = of_nat (Suc n)" using parts(1) by (simp only: pub_packets_def)
  show thesis
    using less_imp_le [OF more] batch b
  proof (cases rule: publish_packet_outcome)
    case (goes_on t s')
    note step = goes_on(2)
    have "pub_inv env (ms(Suc n := b)) (ts(Suc n := t)) (Suc n) s'"
      unfolding pub_inv_def
      using pub_packets_step [OF valid parts(1) more b step]
        pub_records_step [OF parts(2) seq next_number_bound [OF valid parts(1) b] b step]
        pub_orders_step [OF parts(3) b step] pub_counts_step [OF parts(4) step] by blast
    moreover have "length b = batch_size env s"
      "unat (emitted_messages s') = unat (emitted_messages s) + length b"
      "pub_history s' = history_store (of_nat (Suc n)) (packet_image (of_nat (Suc n)) b t) (pub_history s)"
      using b step emitted_after [OF b step]
      by (simp_all only: next_batch_def round_effect_def Let_def seq)
    ultimately show thesis by (intro that(1) [OF goes_on(1)])
  next
    case (fails e t s')
    from that(2) [OF fails(1) pub_failed_step [OF valid inv more b fails(2)]] show thesis .
  qed
qed

lemma pub_failed_network: "network_takes_all env \<Longrightarrow> \<not> pub_failed env ms ts n e s"
  by (simp add: pub_failed_def network_udp_send)

lemma pub_inv_step:
  assumes "valid_env env" and net: "network_takes_all env" and "pub_inv env ms ts n s"
    and "emitted_messages s < so_messages (sim_opts env)"
  shows "\<exists>s' b t. publish_packet env s = (None, s') \<and>
    pub_inv env (ms(Suc n := b)) (ts(Suc n := t)) (Suc n) s' \<and>
    length b = batch_size env s \<and> unat (emitted_messages s') = unat (emitted_messages s) + length b \<and>
    pub_history s' = history_store (of_nat (Suc n)) (packet_image (of_nat (Suc n)) b t) (pub_history s)"
  using assms(1,3,4) by (cases rule: pub_inv_round) (use pub_failed_network [OF net] in blast)+

section \<open>The loop ends\<close>

text \<open>A round ends normally or with an exception.\<close>

lemma publish_packet_not_blocked: "fst (publish_packet env s) \<noteq> Some Blocks"
  by (auto simp: publish_packet_def send_or_drop_def Let_def and_then_case
      split: prod.split sum.split option.split)

lemma publish_packet_not_killed: "fst (publish_packet env s) \<noteq> Some Killed"
  by (auto simp: publish_packet_def send_or_drop_def Let_def and_then_case
      split: prod.split sum.split option.split)

lemma publish_loop_step:
  "emitted_messages s < so_messages (sim_opts env) \<Longrightarrow> publish_packet env s = (None, s') \<Longrightarrow>
     publish_loop env s = publish_loop env s'"
  by (subst publish_loop.simps) simp

lemma publish_loop_done:
  "\<not> emitted_messages s < so_messages (sim_opts env) \<Longrightarrow> publish_loop env s = Some (None, s)"
  by (subst publish_loop.simps) simp

lemma publish_loop_stops:
  "emitted_messages s < so_messages (sim_opts env) \<Longrightarrow> publish_packet env s = (Some h, s') \<Longrightarrow>
     publish_loop env s = Some (Some h, s')"
  by (subst publish_loop.simps) simp

text \<open>How the loop ends, from any state of the invariant.\<close>

definition pub_end ::
    "sim_env \<Rightarrow> halt option \<Rightarrow> (nat \<Rightarrow> message list) \<Rightarrow> (nat \<Rightarrow> u64) \<Rightarrow> nat \<Rightarrow> publisher \<Rightarrow> bool" where
  "pub_end env h ms ts n s \<longleftrightarrow>
     h = None \<and> pub_inv env ms ts n s \<and> emitted_messages s = so_messages (sim_opts env) \<or>
     (\<exists>e. h = Some (Throws e) \<and> pub_failed env ms ts n e s)"

lemma publish_loop_ends:
  assumes valid: "valid_env env"
  shows "pub_inv env ms ts n s \<Longrightarrow>
    \<exists>h s' ms' ts' n'. publish_loop env s = Some (h, s') \<and> pub_end env h ms' ts' n' s'"
proof (induction "unat (so_messages (sim_opts env)) - unat (emitted_messages s)"
    arbitrary: ms ts n s rule: less_induct)
  case less
  show ?case
  proof (cases "emitted_messages s < so_messages (sim_opts env)")
    case True
    show ?thesis
      using valid less.prems True
    proof (cases rule: pub_inv_round)
      case (goes_on s' b t)
      have "0 < batch_size env s"
        using valid True by (simp add: batch_size_def valid_env_def unat_gt_0 word_less_nat_alt
            flip: word_neq_0_conv)
      then have "unat (so_messages (sim_opts env)) - unat (emitted_messages s')
          < unat (so_messages (sim_opts env)) - unat (emitted_messages s)"
        using goes_on(3,4) True by (simp add: word_less_nat_alt)
      from less.hyps [OF this goes_on(2)] show ?thesis
        using publish_loop_step [OF True goes_on(1)] by simp
    next
      case (fails e s' b t)
      with publish_loop_stops [OF True] show ?thesis by (auto simp: pub_end_def)
    qed
  next
    case False
    then have "emitted_messages s = so_messages (sim_opts env)"
      using less.prems by (simp add: pub_inv_unfold word_le_nat_alt [symmetric])
    with False less.prems publish_loop_done show ?thesis unfolding pub_end_def by blast
  qed
qed

section \<open>Property of the publisher\<close>

text \<open>The number of packets, and of those that are skipped.\<close>

lemma packets_needed:
  fixes m n p :: nat
  assumes "m = min (n * p) m" and "n * p \<le> m + p - 1" and "0 < p"
  shows "n = (m + p - 1) div p"
proof -
  have "n * p \<le> m + p - 1" "m + p - 1 < Suc n * p"
    using assms by auto
  then show ?thesis
    using assms(3) by (metis div_nat_eqI mult.commute)
qed

lemma count_skipped: "length (filter (\<lambda>k. k mod d = 0) [1..<Suc n]) = n div d" for d n :: nat
  by (induction n) (auto simp: div_Suc simp del: upt_Suc simp: upt_Suc_append)

lemma dropped_count:
  assumes inv: "pub_inv env ms ts n s"
  shows "unat (dropped_packets s) = n div unat (so_skip_every (sim_opts env))"
proof -
  let ?d = "unat (so_skip_every (sim_opts env))"
  have "n < 2 ^ 32" using inv by (simp add: pub_inv_unfold sound_stream_def)
  then have small: "n < 2 ^ 64" by simp
  have "length (wire s) + n div ?d = n"
  proof (cases "so_skip_every (sim_opts env) = 0")
    case True
    then show ?thesis using inv by (simp add: pub_inv_unfold published_numbers_def skips_def)
  next
    case False
    then have "skips env = (\<lambda>k. k mod ?d = 0)" by (simp add: skips_def fun_eq_iff)
    then have "length (wire s) + length (filter (\<lambda>k. k mod ?d = 0) [1..<Suc n]) = length [1..<Suc n]"
      using inv sum_length_filter_compl [of "\<lambda>k. k mod ?d = 0" "[1..<Suc n]"]
      by (simp add: pub_inv_unfold published_numbers_def del: upt_Suc)
    then show ?thesis by (simp only: count_skipped) simp
  qed
  then have "(of_nat n :: u64) = of_nat (length (wire s)) + of_nat (n div ?d)"
    by (metis of_nat_add)
  then have "dropped_packets s = of_nat (n div ?d)"
    using inv by (simp add: pub_inv_unfold) (metis add_left_cancel)
  moreover have "n div ?d < 2 ^ 64" using small div_le_dividend le_less_trans by blast
  ultimately show ?thesis by (simp add: unat_of_nat)
qed

lemma pub_inv_packets:
  assumes "valid_env env" and inv: "pub_inv env ms ts n s" and all: "emitted_messages s = so_messages (sim_opts env)"
  shows "n = (unat (so_messages (sim_opts env)) + per_packet env - 1) div per_packet env"
proof (rule packets_needed)
  show "unat (so_messages (sim_opts env)) = min (n * per_packet env) (unat (so_messages (sim_opts env)))"
    "n * per_packet env \<le> unat (so_messages (sim_opts env)) + per_packet env - 1"
    using inv unfolding pub_inv_unfold all by blast+
  show "0 < per_packet env"
    using assms(1) by (simp add: valid_env_def unat_gt_0 word_neq_0_conv)
qed

lemma publish_loop_counts:
  assumes "valid_env env" and "network_takes_all env"
  shows "\<exists>s ms ts n. publish_loop env init_publisher = Some (None, s) \<and> pub_inv env ms ts n s \<and>
    emitted_messages s = so_messages (sim_opts env) \<and>
    n = (unat (so_messages (sim_opts env)) + per_packet env - 1) div per_packet env"
  using publish_loop_ends [OF assms(1) pub_inv_init] pub_failed_network [OF assms(2)]
    pub_inv_packets [OF assms(1)] unfolding pub_end_def by blast

text \<open>The end of the loop in the words of the property.\<close>

lemma pub_inv_summary:
  assumes inv: "pub_inv env ms ts n s" and all: "emitted_messages s = so_messages (sim_opts env)"
  shows "length (concat (map ms [1..<Suc n])) = unat (so_messages (sim_opts env))"
    and "stored (om_find (pub_history s)) ms ts n"
    and "wire s = map (stream_packet ms ts) (filter (\<lambda>k. \<not> skips env k) [1..<Suc n])"
    and "unat (packet_sequence s) = Suc n" and "sent_packets s = of_nat (length (wire s))"
    and "sent_packets s + dropped_packets s = of_nat n"
    and "unat (dropped_packets s) = n div unat (so_skip_every (sim_opts env))"
    and "sent_messages s + dropped_messages s = so_messages (sim_opts env)"
proof -
  show "unat (packet_sequence s) = Suc n" by (rule pub_inv_number [OF inv])
  show "unat (dropped_packets s) = n div unat (so_skip_every (sim_opts env))"
    by (rule dropped_count [OF inv])
  have "unat (so_messages (sim_opts env)) = length (stream_messages ms n)"
    using inv by (simp add: pub_inv_unfold flip: all)
  then show "length (concat (map ms [1..<Suc n])) = unat (so_messages (sim_opts env))"
    by (simp add: stream_messages_def)
  show "wire s = map (stream_packet ms ts) (filter (\<lambda>k. \<not> skips env k) [1..<Suc n])"
    "stored (om_find (pub_history s)) ms ts n"
    "sent_packets s = of_nat (length (wire s))" "sent_packets s + dropped_packets s = of_nat n"
    "sent_messages s + dropped_messages s = so_messages (sim_opts env)"
    using inv unfolding pub_inv_unfold published_numbers_def all by blast+
qed

lemma pub_failed_summary:
  assumes "pub_failed env ms ts k e s" and "n = Suc k"
  shows "0 < n" and "length (concat (map ms [1..<n])) < unat (so_messages (sim_opts env))"
    and "stored (om_find (pub_history s)) ms ts n" and "\<not> skips env n"
    and "wire s = map (stream_packet ms ts) (filter (\<lambda>k. \<not> skips env k) [1..<n])"
    and "unat (packet_sequence s) = n"
    and "let packet = stream_packet ms ts n in
      udp_send (sim_sendto env (sendtos s - 1) packet) packet = Some e"
proof -
  have "unat (of_nat (Suc k) :: u32) = Suc k"
    using assms(1) by (intro unat_of_nat_u32) (simp add: pub_failed_def)
  then show "unat (packet_sequence s) = n" using assms by (simp add: pub_failed_def)
  show "length (concat (map ms [1..<n])) < unat (so_messages (sim_opts env))"
    using assms by (simp add: pub_failed_def stream_messages_def word_less_nat_alt del: upt_Suc)
qed (use assms in \<open>simp_all add: pub_failed_def published_numbers_def del: upt_Suc\<close>)

text \<open>
  C35. With options that the simulator accepts, an engine that stays within its bounds and fewer
  than \<open>2 ^ 32 - 1\<close> messages the publishing loop ends, whatever \<open>sendto\<close> answers, and every packet that
  it has numbered is in the recovery history. When every \<open>sendto\<close> takes its packet whole, the loop
  ends normally. When it ends normally, all its messages are emitted, in as many packets as full
  batches need, the wire carried in order exactly the packets whose number is not a multiple of
  \<open>--skip-every\<close>, one in \<open>--skip-every\<close> packets was dropped, and the counters of sent and dropped
  packets and messages add up. Otherwise it ends with the exception of the \<open>sendto\<close> that failed:
  that packet is the last one in the history and, unlike its predecessors, not on the wire.
\<close>

theorem publisher_completes:
  assumes "valid_env env"
  shows "\<exists>h s ms ts n. publish_loop env init_publisher = Some (h, s) \<and>
    (network_takes_all env \<longrightarrow> h = None) \<and> stored (om_find (pub_history s)) ms ts n \<and>
    (case h of
       None \<Rightarrow>
         n = (unat (so_messages (sim_opts env)) + per_packet env - 1) div per_packet env \<and>
         length (concat (map ms [1..<Suc n])) = unat (so_messages (sim_opts env)) \<and>
         wire s = map (\<lambda>k. packet_image (of_nat k) (ms k) (ts k)) (filter (\<lambda>k. \<not> skips env k) [1..<Suc n]) \<and>
         unat (packet_sequence s) = Suc n \<and> sent_packets s = of_nat (length (wire s)) \<and>
         sent_packets s + dropped_packets s = of_nat n \<and>
         unat (dropped_packets s) = n div unat (so_skip_every (sim_opts env)) \<and>
         sent_messages s + dropped_messages s = so_messages (sim_opts env)
     | Some stop \<Rightarrow>
         (\<exists>e. stop = Throws e \<and>
            (let packet = packet_image (of_nat n) (ms n) (ts n) in
              udp_send (sim_sendto env (sendtos s - 1) packet) packet = Some e)) \<and>
         0 < n \<and> \<not> skips env n \<and> unat (packet_sequence s) = n \<and>
         length (concat (map ms [1..<n])) < unat (so_messages (sim_opts env)) \<and>
         wire s = map (\<lambda>k. packet_image (of_nat k) (ms k) (ts k)) (filter (\<lambda>k. \<not> skips env k) [1..<n]))"
proof -
  obtain h s ms ts n where run: "publish_loop env init_publisher = Some (h, s)"
    and ended: "pub_end env h ms ts n s"
    using publish_loop_ends [OF assms pub_inv_init] by blast
  have image: "stream_packet ms ts = (\<lambda>k. packet_image (of_nat k) (ms k) (ts k))"
    by (rule ext) (simp add: stream_packet_def)
  from ended consider (all) "h = None" "pub_inv env ms ts n s" "emitted_messages s = so_messages (sim_opts env)"
    | (failed) e where "h = Some (Throws e)" "pub_failed env ms ts n e s"
    unfolding pub_end_def by blast
  then show ?thesis
  proof cases
    case all
    with run pub_inv_packets [OF assms] pub_inv_summary [OF all(2,3), unfolded image] show ?thesis
      by (intro exI [of _ None] exI [of _ s] exI [of _ ms] exI [of _ ts] exI [of _ n])
        (simp only: option.case simp_thms)
  next
    case failed
    with run pub_failed_summary [OF failed(2) refl, unfolded image] pub_failed_network show ?thesis
      by (intro exI [of _ h] exI [of _ s] exI [of _ ms] exI [of _ ts] exI [of _ "Suc n"])
        (simp del: of_nat_Suc upt_Suc, blast)
  qed
qed

text \<open>Twelve messages in packets of four, of which the second is dropped on purpose.\<close>

definition demo_sim :: sim_env where
  "demo_sim = \<lparr>sim_opts = sim_defaults\<lparr>so_messages := 12, so_skip_every := 2\<rparr>,
     sim_draw = (\<lambda>n lo hi. lo + n mod (hi - lo + 1)), sim_tsc = (\<lambda>n. of_nat (100 + n)),
     sim_sendto = (\<lambda>i packet. Sent (length packet))\<rparr>"

lemma demo_sim_valid: "valid_env demo_sim" "network_takes_all demo_sim"
proof -
  have "lo + n mod Suc (hi - lo) \<le> hi" if "lo \<le> hi" for n lo hi :: nat
    using mod_less_divisor [of "Suc (hi - lo)" n] that by linarith
  then have "uniform (sim_draw demo_sim)"
    by (simp add: demo_sim_def uniform_def)
  then show "valid_env demo_sim"
    by (simp add: valid_env_def) (simp add: demo_sim_def sim_defaults_def)
  show "network_takes_all demo_sim"
    by (simp add: network_takes_all_def demo_sim_def)
qed

theorem publisher_completes_witness:
  "\<exists>s. publish_loop demo_sim init_publisher = Some (None, s) \<and>
    unat (packet_sequence s) = 4 \<and> unat (dropped_packets s) = 1"
proof -
  have opts: "unat (so_messages (sim_opts demo_sim)) = 12" "per_packet demo_sim = 4"
    "unat (so_skip_every (sim_opts demo_sim)) = 2"
    by (simp_all add: demo_sim_def sim_defaults_def)
  from publisher_completes [OF demo_sim_valid(1)] demo_sim_valid(2) show ?thesis
    unfolding opts by (auto split: option.splits)
qed

end
