(* ===== verification/Market_System.thy ===== *)
theory Market_System
  imports Publisher
begin

text \<open>
  The two programs together: a publisher, a multicast network that may lose, repeat and reorder
  datagrams and bring others that do not parse, a recovery connection, and a feed handler.
\<close>

section \<open>States and steps\<close>

text \<open>
  The recovery server's thread reads the history that the publisher writes, so the handler's
  link sees the publisher's history. \<open>halted\<close> is how the handler's loop stopped short, if it did.
\<close>

record market =
  publisher_side :: publisher
  handler_side :: "recovery_link feed_state"
  halted :: "halt option"

definition share_history :: "packet_history \<Rightarrow> recovery_link feed_state \<Rightarrow> recovery_link feed_state" where
  "share_history h s = s\<lparr>recovery_client := (recovery_client s)\<lparr>link_history := h\<rparr>\<rparr>"

definition init_market :: "recovery_client \<Rightarrow> (nat \<Rightarrow> exchange) \<Rightarrow> market" where
  "init_market client net = \<lparr>publisher_side = init_publisher,
     handler_side = init_feed \<lparr>link_client = client, link_history = [], link_network = net,
       link_requests = 0\<rparr>,
     halted = None\<rparr>"

text \<open>
  A wakeup brings the handler the events of its socket. No event reports an error, a queue ends
  where \<open>recvfrom\<close> finds it empty, and holds any datagrams that were sent before, in any order and
  any number of times, between any datagrams that do not parse.
\<close>

definition sent_or_malformed :: "market \<Rightarrow> bytes \<Rightarrow> bool" where
  "sent_or_malformed m d \<longleftrightarrow> d \<in> set (wire (publisher_side m)) \<or> malformed d"

definition arrives :: "market \<Rightarrow> event list \<Rightarrow> bool" where
  "arrives m events \<longleftrightarrow> list_all healthy_event events \<and>
     list_all (sent_or_malformed m) (wakeup_datagrams (Ready events))"

text \<open>
  Either side may move: the publisher publishes a packet, or the handler handles the events of a
  wakeup.
\<close>

inductive market_step ::
    "sim_env \<Rightarrow> recovery_link feed_env \<Rightarrow> market \<Rightarrow> market \<Rightarrow> bool"
  for sim :: sim_env and env :: "recovery_link feed_env" where
  publish: "market_step sim env m
      (m\<lparr>publisher_side := p, handler_side := share_history (pub_history p) (handler_side m)\<rparr>)"
    if "emitted_messages (publisher_side m) < so_messages (sim_opts sim)"
    and "publish_packet sim (publisher_side m) = (None, p)"
| receive: "market_step sim env m (m\<lparr>handler_side := s, halted := h\<rparr>)"
    if "halted m = None" and "arrives m events"
    and "event_loop env events (handler_side m) = (h, s)"

inductive reachable ::
    "sim_env \<Rightarrow> recovery_link feed_env \<Rightarrow> market \<Rightarrow> market \<Rightarrow> bool"
  for sim :: sim_env and env :: "recovery_link feed_env" and start :: market where
  start: "reachable sim env start start"
| step: "reachable sim env start m \<Longrightarrow> market_step sim env m m' \<Longrightarrow> reachable sim env start m'"

inductive_cases market_step_cases [consumes 1, case_names publish receive]: "market_step sim env m m'"

definition proper :: "sim_env \<Rightarrow> recovery_link feed_env \<Rightarrow> recovery_client \<Rightarrow> (nat \<Rightarrow> exchange) \<Rightarrow> bool" where
  "proper sim env client net \<longleftrightarrow> valid_env sim \<and> network_takes_all sim \<and>
     (opt_messages env = 0 \<or> so_messages (sim_opts sim) \<le> opt_messages env) \<and>
     request_packets env = link_request \<and>
     ready_client client \<and> (\<forall>k. reliable (net k))"

section \<open>The invariant\<close>

text \<open>
  With \<open>n\<close> packets published, the handler has applied exactly the first \<open>a\<close> of them, where \<open>a\<close> is
  0 or the number of a packet that went out on the wire.
\<close>

definition in_step ::
    "sim_env \<Rightarrow> (nat \<Rightarrow> message list) \<Rightarrow> (nat \<Rightarrow> u64) \<Rightarrow> nat \<Rightarrow> nat \<Rightarrow> market \<Rightarrow> bool" where
  "in_step sim ms ts n a m \<longleftrightarrow> pub_inv sim ms ts n (publisher_side m) \<and>
     synced ms ts a (handler_side m) \<and> a \<in> insert 0 (set (published_numbers sim n)) \<and>
     good_link (recovery_client (handler_side m)) \<and>
     link_history (recovery_client (handler_side m)) = pub_history (publisher_side m) \<and>
     halted m = None"

lemma published_numbers_range: "set (published_numbers sim n) \<subseteq> {1..n}"
  by (auto simp: published_numbers_def)

lemma synced_extend:
  "a \<le> n \<Longrightarrow> synced (ms(Suc n := b)) (ts(Suc n := t)) a s \<longleftrightarrow> synced ms ts a s"
proof -
  assume "a \<le> n"
  then have "map (ms(Suc n := b)) [1..<Suc a] = map ms [1..<Suc a]"
    and "filter (\<lambda>k. (ts(Suc n := t)) k \<noteq> 0) [1..<Suc a] = filter (\<lambda>k. ts k \<noteq> 0) [1..<Suc a]"
    by (intro map_cong filter_cong; auto)+
  then show ?thesis by (simp only: synced_def applied_def stream_messages_def stamped_def)
qed

lemma synced_share: "synced ms ts a (share_history h s) \<longleftrightarrow> synced ms ts a s"
  by (simp add: synced_def applied_def share_history_def)

lemma in_step_init:
  "proper sim env client net \<Longrightarrow> in_step sim ms ts 0 0 (init_market client net)"
  by (simp add: in_step_def init_market_def pub_inv_init synced_init proper_def good_link_def)
    (simp add: init_feed_def init_publisher_def)

lemma in_step_publish:
  assumes proper: "proper sim env client net" and inv: "in_step sim ms ts n a m"
    and more: "emitted_messages (publisher_side m) < so_messages (sim_opts sim)"
    and p: "publish_packet sim (publisher_side m) = (None, p)"
  shows "\<exists>b t. in_step sim (ms(Suc n := b)) (ts(Suc n := t)) (Suc n) a
    (m\<lparr>publisher_side := p, handler_side := share_history (pub_history p) (handler_side m)\<rparr>)"
proof -
  obtain b t where b: "pub_inv sim (ms(Suc n := b)) (ts(Suc n := t)) (Suc n) p"
    using pub_inv_step [of sim ms ts n "publisher_side m"] proper inv more p
    by (auto simp: proper_def in_step_def)
  have a: "a \<le> n" using inv published_numbers_range [of sim n] by (auto simp: in_step_def)
  have "good_link (recovery_client (share_history (pub_history p) (handler_side m)))"
    using inv b by (simp add: in_step_def good_link_def share_history_def pub_inv_unfold)
  moreover have "synced (ms(Suc n := b)) (ts(Suc n := t)) a (share_history (pub_history p) (handler_side m))"
    using inv a by (simp add: in_step_def synced_extend synced_share)
  ultimately show ?thesis
    using b inv by (intro exI [of _ b] exI [of _ t])
      (auto simp: in_step_def published_numbers_Suc share_history_def)
qed

lemma sent_datagrams:
  assumes "pub_inv sim ms ts n (publisher_side m)" and "list_all (sent_or_malformed m) ds"
  shows "list_all (stray_or_packet ms ts n) ds" and "numbers_in ms ts n ds \<subseteq> set (published_numbers sim n)"
proof -
  have wire: "set (wire (publisher_side m)) = stream_packet ms ts ` set (published_numbers sim n)"
    and sound: "sound_stream ms n"
    using assms(1) by (simp_all add: pub_inv_unfold)
  show "list_all (stray_or_packet ms ts n) ds"
    using assms(2) published_numbers_range [of sim n]
    by (fastforce simp: list_all_iff sent_or_malformed_def stray_or_packet_def wire)
  show "numbers_in ms ts n ds \<subseteq> set (published_numbers sim n)"
  proof
    fix k
    assume "k \<in> numbers_in ms ts n ds"
    then have k: "1 \<le> k" "k \<le> n" "stream_packet ms ts k \<in> set ds" by (simp_all add: numbers_in_def)
    then have "stream_packet ms ts k \<in> stream_packet ms ts ` set (published_numbers sim n)"
      using assms(2) packet_not_malformed [OF sound k(1,2)]
      by (auto simp: list_all_iff sent_or_malformed_def simp flip: wire)
    then obtain j where "j \<in> set (published_numbers sim n)" "stream_packet ms ts k = stream_packet ms ts j"
      by blast
    with stream_packet_inj [OF sound k(1,2)] published_numbers_range [of sim n]
    show "k \<in> set (published_numbers sim n)" by fastforce
  qed
qed

lemma pub_inv_roomy:
  assumes "pub_inv sim ms ts n p" and "proper sim env client net"
  shows "roomy env ms n"
proof -
  have "length (stream_messages ms n) \<le> unat (so_messages (sim_opts sim))"
    using assms(1) by (simp add: pub_inv_unfold)
  moreover have "\<forall>k. 1 \<le> k \<and> k \<le> n \<longrightarrow> ms k \<noteq> []"
    using assms(1) by (simp add: pub_inv_unfold)
  ultimately show ?thesis
    using assms(2) by (auto simp: roomy_def proper_def word_le_nat_alt)
qed

lemma in_step_receive:
  assumes proper: "proper sim env client net" and inv: "in_step sim ms ts n a m"
    and sent: "list_all (sent_or_malformed m) ds"
    and run: "receive_all env ds (handler_side m) = (h, s)"
  shows "in_step sim ms ts n (Max (insert a (numbers_in ms ts n ds))) (m\<lparr>handler_side := s, halted := h\<rparr>)"
proof -
  let ?c = "recovery_client (handler_side m)"
  have pub: "pub_inv sim ms ts n (publisher_side m)" and good: "good_link ?c"
    and sync: "synced ms ts a (handler_side m)"
    and hist: "link_history ?c = pub_history (publisher_side m)"
    using inv by (simp_all add: in_step_def)
  have env: "roomy env ms n" "request_packets env = link_request"
    using pub_inv_roomy [OF pub proper] proper by (simp_all add: proper_def)
  have sound: "sound_stream ms n" and st: "stored (link_content ?c) ms ts n"
    using pub by (simp_all add: pub_inv_unfold link_content_def hist)
  have a: "a \<le> n" using published_numbers_range [of sim n] inv by (auto simp: in_step_def)
  note ds = sent_datagrams [OF pub sent]
  from link.receive_stream [OF env sound st good a sync ds(1)] run
  obtain t where t: "h = None" "s = t" "synced ms ts (Max (insert a (numbers_in ms ts n ds))) t"
    "good_link (recovery_client t)" "link_content (recovery_client t) = link_content ?c"
    by auto
  have "link_history (recovery_client t) = link_history ?c"
    using t(4,5) good by (intro om_ext) (auto simp: good_link_def link_content_def fun_eq_iff)
  moreover have "insert a (numbers_in ms ts n ds) \<subseteq> insert 0 (set (published_numbers sim n))"
    using ds(2) inv by (auto simp: in_step_def)
  then have "Max (insert a (numbers_in ms ts n ds)) \<in> insert 0 (set (published_numbers sim n))"
    by (rule subsetD) (rule Max_in, auto)
  ultimately show ?thesis
    using t pub hist by (simp add: in_step_def)
qed

lemma in_step_step:
  assumes "proper sim env client net" and "in_step sim ms ts n a m" and "market_step sim env m m'"
  shows "\<exists>ms' ts' n' a'. in_step sim ms' ts' n' a' m'"
  using assms(3)
proof (cases rule: market_step_cases)
  case (publish p)
  with in_step_publish [OF assms(1,2) publish(2,3)] show ?thesis by blast
next
  case (receive events h s)
  then have run: "receive_all env (wakeup_datagrams (Ready events)) (handler_side m) = (h, s)"
    by (simp add: arrives_def event_loop_flat)
  moreover have "list_all (sent_or_malformed m) (wakeup_datagrams (Ready events))"
    using receive(3) by (simp add: arrives_def)
  ultimately show ?thesis
    using in_step_receive [OF assms(1,2)] receive(1) by metis
qed

lemma reachable_in_step:
  assumes "proper sim env client net" and "reachable sim env (init_market client net) m"
  shows "\<exists>ms ts n a. in_step sim ms ts n a m"
  using assms(2)
proof (induction rule: reachable.induct)
  case start
  from in_step_init [OF assms(1)] show ?case by blast
next
  case (step m m')
  with in_step_step [OF assms(1)] show ?case by blast
qed

section \<open>Catching up\<close>

lemma published_nonempty: "pub_inv sim ms ts n p \<Longrightarrow> 0 < unat (emitted_messages p) \<Longrightarrow> 0 < n"
  by (cases n) (auto simp: pub_inv_unfold stream_messages_def)

lemma last_packet_received:
  assumes pub: "pub_inv sim ms ts n p" and "0 < unat (emitted_messages p)"
    and "\<not> skips sim (unat (packet_sequence p) - 1)" and "last (wire p) \<in> set ds"
  shows "n \<in> numbers_in ms ts n ds"
proof -
  have n: "0 < n" using published_nonempty [OF pub assms(2)] .
  have "published_numbers sim n \<noteq> [] \<and> last (published_numbers sim n) = n"
    using n assms(3) pub_inv_number [OF pub] by (cases n) (auto simp: published_numbers_Suc)
  then have "last (wire p) = stream_packet ms ts n"
    using pub by (simp add: pub_inv_unfold last_map)
  with assms(4) n show ?thesis by (simp add: numbers_in_def)
qed

lemma abs_book_empty: "abs_book empty_book = Map.empty"
  by (rule ext) (simp add: abs_book_def empty_book_def om.find_empty)

lemma abs_book_stream:
  "abs_book (apply_messages (stream_messages ms n) empty_book) = fold spec_apply (stream_messages ms n) Map.empty"
  by (simp add: abs_book_messages book_wf_empty abs_book_empty)

lemma synced_up_to_date:
  assumes "pub_inv sim ms ts n p" and "synced ms ts n s"
  shows "abs_book (order_book s) = gen_book (pub_generator p)"
  using assms by (simp add: synced_def applied_def abs_book_stream pub_inv_unfold)

lemma caught_up:
  assumes proper: "proper sim env client net" and inv: "in_step sim ms ts n a m"
    and "0 < unat (emitted_messages (publisher_side m))"
    and "\<not> skips sim (unat (packet_sequence (publisher_side m)) - 1)"
    and sent: "list_all (sent_or_malformed m) ds"
    and "last (wire (publisher_side m)) \<in> set ds"
  shows "\<exists>s. receive_all env ds (handler_side m) = (None, s) \<and> synced ms ts n s"
proof -
  have pub: "pub_inv sim ms ts n (publisher_side m)" using inv by (simp add: in_step_def)
  have "n \<in> numbers_in ms ts n ds" by (rule last_packet_received [OF pub assms(3,4,6)])
  then have top: "Max (insert a (numbers_in ms ts n ds)) = n"
    using inv published_numbers_range [of sim n]
    by (intro Max_eqI) (auto simp: in_step_def numbers_in_def)
  obtain h s where run: "receive_all env ds (handler_side m) = (h, s)"
    by (cases "receive_all env ds (handler_side m)")
  have "in_step sim ms ts n n (m\<lparr>handler_side := s, halted := h\<rparr>)"
    using in_step_receive [OF proper inv sent run] unfolding top .
  with run show ?thesis by (simp add: in_step_def)
qed

section \<open>A handler with a limit\<close>

lemma synced_final:
  assumes "proper sim env client net" and pub: "pub_inv sim ms ts n p"
    and "opt_messages env = so_messages (sim_opts sim)" and "so_messages (sim_opts sim) \<noteq> 0"
    and "emitted_messages p = so_messages (sim_opts sim)" and sync: "synced ms ts n s"
  shows "limit_reached env s \<and> received_messages s = so_messages (sim_opts sim) \<and>
    abs_book (order_book s) = gen_book (pub_generator p)"
proof -
  have "unat (emitted_messages p) = length (stream_messages ms n)"
    using pub by (simp add: pub_inv_unfold)
  then have "received_messages s = of_nat (unat (emitted_messages p))"
    using sync by (simp only: synced_def applied_def)
  then have "received_messages s = emitted_messages p" by simp
  with assms synced_up_to_date [OF pub sync] show ?thesis
    by (simp add: limit_reached_def)
qed

section \<open>The book of a synchronised handler\<close>

text \<open>
  With few enough messages the quantity of a price level fits its 32 bits, so the levels are
  exact, the best bid and offer are those of the live orders, and the book is not crossed.
\<close>

lemma synced_book:
  assumes pub: "pub_inv sim ms ts n p" and sync: "synced ms ts a s" and "a \<le> n"
    and few: "250 * unat (so_messages (sim_opts sim)) < 2 ^ 32"
  shows "book_exact (order_book s)" and "book_tight (order_book s)"
    and "banded (abs_book (order_book s))"
proof -
  obtain ys where prefix: "stream_messages ms n = stream_messages ms a @ ys"
    using stream_messages_prefix [OF assms(3)] by blast
  have book: "order_book s = apply_messages (stream_messages ms a) empty_book"
    using sync by (simp add: synced_def applied_def)
  have "run_volume (stream_messages ms a) \<le> run_volume (stream_messages ms n)"
    by (simp add: prefix run_volume_append)
  also have "\<dots> < 2 ^ 32" using pub few by (simp add: pub_inv_unfold)
  finally have fits: "open_volume empty_book + run_volume (stream_messages ms a) < 2 ^ 32"
    by (simp add: open_volume_empty)
  have "targeted_run Map.empty (stream_messages ms a)"
    using pub by (simp add: pub_inv_unfold prefix targeted_run_append)
  then have "list_all positive_add (stream_messages ms a)" by (rule targeted_run_positive)
  with apply_messages_invariant [OF book_exact_empty fits] book_tight_empty
  show "book_exact (order_book s)" "book_tight (order_book s)" by (simp_all add: book)
  show "banded (abs_book (order_book s))"
    using pub assms(3) by (simp add: book abs_book_stream pub_inv_unfold)
qed

lemma banded_bbo:
  assumes exact: "book_exact b" and tight: "book_tight b" and band: "banded (abs_book b)"
  shows "best_bid (bbo b) = Some bid \<Longrightarrow> in_band Buy (level_price bid)"
    and "best_ask (bbo b) = Some ask \<Longrightarrow> in_band Sell (level_price ask)"
  using best_bid_correct [OF exact tight] best_ask_correct [OF exact tight] band
  by (fastforce simp: best_level_def banded_def abs_book_def split: option.splits)+

section \<open>Runs by function application\<close>

definition publish_step :: "sim_env \<Rightarrow> market \<Rightarrow> market" where
  "publish_step sim m =
     (let p = snd (publish_packet sim (publisher_side m))
      in m\<lparr>publisher_side := p, handler_side := share_history (pub_history p) (handler_side m)\<rparr>)"

definition receive_step :: "recovery_link feed_env \<Rightarrow> event list \<Rightarrow> market \<Rightarrow> market" where
  "receive_step env events m =
     (let (h, s) = event_loop env events (handler_side m)
      in m\<lparr>handler_side := s, halted := h\<rparr>)"

lemma reachable_publish:
  assumes proper: "proper sim env client net" and m: "reachable sim env (init_market client net) m"
    and more: "emitted_messages (publisher_side m) < so_messages (sim_opts sim)"
  shows "reachable sim env (init_market client net) (publish_step sim m)"
    and "unat (emitted_messages (publisher_side (publish_step sim m))) =
      unat (emitted_messages (publisher_side m)) + batch_size sim (publisher_side m)"
    and "packet_sequence (publisher_side (publish_step sim m)) = packet_sequence (publisher_side m) + 1"
proof -
  obtain ms ts n a where "in_step sim ms ts n a m"
    using reachable_in_step [OF proper m] by blast
  then have pub: "pub_inv sim ms ts n (publisher_side m)" by (simp add: in_step_def)
  from pub_inv_step [OF _ _ pub more] proper
  obtain p b t where p: "publish_packet sim (publisher_side m) = (None, p)"
    "unat (emitted_messages p) =
      unat (emitted_messages (publisher_side m)) + batch_size sim (publisher_side m)"
    "pub_inv sim (ms(Suc n := b)) (ts(Suc n := t)) (Suc n) p"
    by (auto simp: proper_def)
  show "packet_sequence (publisher_side (publish_step sim m)) = packet_sequence (publisher_side m) + 1"
    using p(1,3) pub by (simp add: publish_step_def pub_inv_unfold add.commute)
  have "market_step sim env m (publish_step sim m)"
    using market_step.publish [OF more p(1)] p(1) by (simp add: publish_step_def)
  with m show "reachable sim env (init_market client net) (publish_step sim m)"
    by (rule reachable.step)
  show "unat (emitted_messages (publisher_side (publish_step sim m))) =
      unat (emitted_messages (publisher_side m)) + batch_size sim (publisher_side m)"
    using p by (simp add: publish_step_def)
qed

lemma reachable_receive:
  assumes proper: "proper sim env client net" and m: "reachable sim env (init_market client net) m"
    and "arrives m events"
  shows "reachable sim env (init_market client net) (receive_step env events m)"
proof -
  obtain ms ts n a where "in_step sim ms ts n a m"
    using reachable_in_step [OF proper m] by blast
  then have "halted m = None" by (simp add: in_step_def)
  with assms(3) have "market_step sim env m (receive_step env events m)"
    by (auto simp: receive_step_def split: prod.split intro: market_step.receive)
  with m show ?thesis by (rule reachable.step)
qed

section \<open>A concrete configuration\<close>

text \<open>The publisher of twelve messages, over the concrete connection of the recovery theory.\<close>

definition demo_feed :: "recovery_link feed_env" where
  "demo_feed = \<lparr>opt_messages = 0, opt_benchmark = False, read_tsc = (\<lambda>n. of_nat (200 + n)),
     request_packets = link_request\<rparr>"

lemma demo_proper: "proper demo_sim demo_feed demo_client demo_net"
  using demo_sim_valid demo_ready demo_reliable by (simp add: proper_def demo_feed_def)

text \<open>
  Three packets are published; the handler gets the third one, finds its queue empty, and gets a
  datagram of one byte, the third packet again and then the first.
\<close>

definition demo_published :: market where
  "demo_published = publish_step demo_sim (publish_step demo_sim (publish_step demo_sim
     (init_market demo_client demo_net)))"

definition demo_received :: market where
  "demo_received = receive_step demo_feed
     (let w = wire (publisher_side demo_published)
      in [Event False True [Datagram (last w), Receive_error EAGAIN],
          Event False True [Datagram [7], Datagram (last w), Datagram (hd w)]]) demo_published"

lemma demo_batch_size: "batch_size demo_sim p = min 4 (12 - unat (emitted_messages p))"
  by (simp add: batch_size_def demo_sim_def sim_defaults_def)

lemma demo_more: "emitted_messages p < so_messages (sim_opts demo_sim) \<longleftrightarrow> unat (emitted_messages p) < 12"
  by (simp add: word_less_nat_alt demo_sim_def sim_defaults_def)

definition demo_two :: market where
  "demo_two = publish_step demo_sim (publish_step demo_sim (init_market demo_client demo_net))"

lemma demo_two_run:
  assumes proper: "proper demo_sim env demo_client demo_net"
  shows "reachable demo_sim env (init_market demo_client demo_net) demo_two"
    and "unat (emitted_messages (publisher_side demo_two)) = 8"
    and "packet_sequence (publisher_side demo_two) = 3"
proof -
  let ?m0 = "init_market demo_client demo_net"
  have m0: "unat (emitted_messages (publisher_side ?m0)) = 0" "packet_sequence (publisher_side ?m0) = 1"
    by (simp_all add: init_market_def init_publisher_def)
  note publish = reachable_publish [OF proper]
  define m1 where "m1 = publish_step demo_sim ?m0"
  have m1: "reachable demo_sim env ?m0 m1" "unat (emitted_messages (publisher_side m1)) = 4"
    "packet_sequence (publisher_side m1) = 2"
    using publish [OF reachable.start] m0 by (simp_all add: demo_more demo_batch_size m1_def)
  from publish [OF m1(1)] m1(2,3)
  show "reachable demo_sim env ?m0 demo_two"
    "unat (emitted_messages (publisher_side demo_two)) = 8"
    "packet_sequence (publisher_side demo_two) = 3"
    by (simp_all add: demo_more demo_batch_size demo_two_def m1_def)
qed

lemma demo_published_run:
  assumes "proper demo_sim env demo_client demo_net"
  shows "reachable demo_sim env (init_market demo_client demo_net) demo_published"
    and "unat (emitted_messages (publisher_side demo_published)) = 12"
    and "packet_sequence (publisher_side demo_published) = 4"
  using reachable_publish [OF assms demo_two_run(1) [OF assms]] demo_two_run(2,3) [OF assms]
  by (simp_all add: demo_more demo_batch_size demo_published_def demo_two_def)

lemmas demo_two_reachable = demo_two_run [OF demo_proper]

lemmas demo_published_reachable = demo_published_run [OF demo_proper]

text \<open>The handler with a limit of twelve messages.\<close>

definition demo_limited :: "recovery_link feed_env" where
  "demo_limited = demo_feed\<lparr>opt_messages := 12\<rparr>"

lemma demo_limited_proper: "proper demo_sim demo_limited demo_client demo_net"
  using demo_proper by (simp add: proper_def demo_limited_def) (simp add: demo_sim_def)

lemma demo_skips: "skips demo_sim k \<longleftrightarrow> k mod 2 = 0"
  by (simp add: skips_def demo_sim_def sim_defaults_def)

lemma demo_wire: "wire (publisher_side demo_published) \<noteq> []"
proof -
  obtain ms ts n a where "in_step demo_sim ms ts n a demo_published"
    using reachable_in_step [OF demo_proper demo_published_reachable(1)] by blast
  then have pub: "pub_inv demo_sim ms ts n (publisher_side demo_published)"
    by (simp add: in_step_def)
  have "n = 3" using pub_inv_number [OF pub] demo_published_reachable(3) by simp
  with pub show ?thesis
    by (simp add: pub_inv_unfold published_numbers_def demo_skips upt_conv_Cons)
qed

lemma malformed_byte: "malformed [7]"
  by (simp add: malformed_def receive_buffer_size_def parse_packet_def sizeof_PacketHeader_def)

lemma arrives_wire: "w \<noteq> [] \<Longrightarrow> wire (publisher_side m) = w \<Longrightarrow>
    arrives m [Event False True [Datagram (last w), Receive_error EAGAIN],
      Event False True [Datagram [7], Datagram (last w), Datagram (hd w)]]"
  by (simp add: arrives_def healthy_event_def event_datagrams_def sent_or_malformed_def malformed_byte)

lemma demo_received_reachable:
  "reachable demo_sim demo_feed (init_market demo_client demo_net) demo_received"
  unfolding demo_received_def Let_def
  by (intro reachable_receive [OF demo_proper demo_published_reachable(1)] arrives_wire demo_wire refl)

end
