(* ===== verification/Exchange_Process.thy ===== *)
theory Exchange_Process
  imports Publisher
begin

text \<open>
  The simulator as a process of two threads: the main thread with its publishing loop and the
  destructor of the recovery server, and the server's thread, interleaved at the points where
  they share the packet history and the flag \<open>stop_\<close>.
\<close>

section \<open>The server's thread, step by step\<close>

text \<open>
  Where the thread is. Between two phases it accesses the shared state at most once: it reads
  \<open>stop_\<close> at the heads of the two loops, and it holds the history's mutex in \<open>lookup_range\<close>.
\<close>

datatype server_phase =
    At_loop_head
  | At_poll
  | At_client_head tcp_socket
  | At_request tcp_socket
  | At_lookup u32 u32 tcp_socket
  | Ended

definition client_error :: "(errno \<Rightarrow> string) \<Rightarrow> exn \<Rightarrow> tcp_socket \<Rightarrow> server_state \<Rightarrow> server_state" where
  "client_error strerror e sock s =
     close_client sock (log_error (''recovery_server client error: '' @ what strerror e) s)"

fun listen_round ::
    "(errno \<Rightarrow> string) \<Rightarrow> listen_answer \<Rightarrow> server_state \<Rightarrow> server_phase \<times> server_state" where
  "listen_round strerror (Poll_error e) s =
     (if e = EINTR then (At_loop_head, s)
      else (Ended, log_error (''recovery_server error: '' @ what strerror (Socket_error ''poll'' e)) s))"
| "listen_round strerror Poll_quiet s = (At_loop_head, s)"
| "listen_round strerror (Accept_error e) s =
     (if e = EINTR then (At_loop_head, s)
      else (At_loop_head,
        log_error (''recovery_server error: '' @ what strerror (Socket_error ''accept'' e)) s))"
| "listen_round strerror (Accepted client histories) s = (At_client_head client, s)"

text \<open>A call that does not return is \<open>None\<close>: the thread stays where it is.\<close>

definition request_round ::
    "(errno \<Rightarrow> string) \<Rightarrow> tcp_socket \<Rightarrow> server_state \<Rightarrow> (server_phase \<times> server_state) option" where
  "request_round strerror sock s =
     (case recv_exact_or_eof 8 sock of
        (Inl (Throws e), sock) \<Rightarrow> Some (At_loop_head, client_error strerror e sock s)
      | (Inl _, sock) \<Rightarrow> None
      | (Inr None, sock) \<Rightarrow> Some (At_loop_head, close_client sock s)
      | (Inr (Some request_bytes), sock) \<Rightarrow>
          let request_wire = as_request request_bytes
          in Some (At_lookup (ntohl (rq_start_seq request_wire)) (ntohl (rq_end_seq request_wire)) sock, s))"

definition answer_round ::
    "(errno \<Rightarrow> string) \<Rightarrow> packet_history \<Rightarrow> u32 \<Rightarrow> u32 \<Rightarrow> tcp_socket \<Rightarrow> server_state \<Rightarrow>
     (server_phase \<times> server_state) option" where
  "answer_round strerror packet_history start_seq end_seq sock s =
     (case send_response (lookup_range start_seq end_seq packet_history) sock of
        (None, sock) \<Rightarrow> Some (At_client_head sock, s)
      | (Some (Throws e), sock) \<Rightarrow> Some (At_loop_head, client_error strerror e sock s)
      | (Some _, sock) \<Rightarrow> None)"

fun server_step ::
    "(errno \<Rightarrow> string) \<Rightarrow> bool \<Rightarrow> packet_history \<Rightarrow> listen_answer \<Rightarrow> server_phase \<Rightarrow> server_state \<Rightarrow>
     (server_phase \<times> server_state) option" where
  "server_step strerror stop packet_history answer At_loop_head s =
     Some (if stop then Ended else At_poll, s)"
| "server_step strerror stop packet_history answer At_poll s = Some (listen_round strerror answer s)"
| "server_step strerror stop packet_history answer (At_client_head sock) s =
     Some (if stop then (At_loop_head, close_client sock s) else (At_request sock, s))"
| "server_step strerror stop packet_history answer (At_request sock) s = request_round strerror sock s"
| "server_step strerror stop packet_history answer (At_lookup start_seq end_seq sock) s =
     answer_round strerror packet_history start_seq end_seq sock s"
| "server_step strerror stop packet_history answer Ended s = None"

section \<open>The process\<close>

text \<open>
  The main thread publishes, leaves its block, normally or with an exception, after which the
  destructor sets \<open>stop_\<close>, joins the server's thread and is done.
\<close>

datatype main_phase = Publishing | Leaving "exn option" | Joining "exn option" | Done "exn option"

text \<open>
  \<open>versions\<close> and \<open>replies\<close> are only for reasoning: the histories that the publisher has had, and the
  lookups with what they found.
\<close>

record process =
  main_thread :: main_phase
  stop_flag :: bool
  publisher_of :: publisher
  server_thread :: server_phase
  server_side :: server_state
  killed :: bool
  versions :: "packet_history list"
  replies :: "(u32 \<times> u32 \<times> bytes list) list"

abbreviation init_server :: server_state where
  "init_server \<equiv> \<lparr>server_cerr = [], closed_clients = []\<rparr>"

definition init_process :: process where
  "init_process = \<lparr>main_thread = Publishing, stop_flag = False, publisher_of = init_publisher,
     server_thread = At_loop_head, server_side = init_server, killed = False,
     versions = [pub_history init_publisher], replies = []\<rparr>"

abbreviation shared_history :: "process \<Rightarrow> packet_history" where
  "shared_history P \<equiv> pub_history (publisher_of P)"

definition publishes :: "publisher \<Rightarrow> process \<Rightarrow> process" where
  "publishes p P = P\<lparr>publisher_of := p, versions := versions P @ [pub_history p]\<rparr>"

fun looked_up :: "server_phase \<Rightarrow> packet_history \<Rightarrow> (u32 \<times> u32 \<times> bytes list) list" where
  "looked_up (At_lookup start_seq end_seq sock) packet_history =
     [(start_seq, end_seq, lookup_range start_seq end_seq packet_history)]"
| "looked_up _ packet_history = []"

definition serves :: "server_phase \<Rightarrow> server_state \<Rightarrow> process \<Rightarrow> process" where
  "serves phase s P = P\<lparr>server_thread := phase, server_side := s,
     replies := replies P @ looked_up (server_thread P) (shared_history P)\<rparr>"

text \<open>
  One iteration of the publishing loop accesses the history once, when it stores the packet, and
  the rest of it is local to the main thread, so it is one step. A \<open>SIGPIPE\<close> under a response ends
  both threads.
\<close>

inductive process_step :: "sim_env \<Rightarrow> (errno \<Rightarrow> string) \<Rightarrow> process \<Rightarrow> process \<Rightarrow> bool"
  for sim :: sim_env and strerror :: "errno \<Rightarrow> string" where
  publish: "process_step sim strerror P (publishes p P)"
    if "\<not> killed P" and "main_thread P = Publishing"
    and "emitted_messages (publisher_of P) < so_messages (sim_opts sim)"
    and "publish_packet sim (publisher_of P) = (None, p)"
| publish_fails: "process_step sim strerror P ((publishes p P)\<lparr>main_thread := Leaving (Some e)\<rparr>)"
    if "\<not> killed P" and "main_thread P = Publishing"
    and "emitted_messages (publisher_of P) < so_messages (sim_opts sim)"
    and "publish_packet sim (publisher_of P) = (Some (Throws e), p)"
| all_published: "process_step sim strerror P (P\<lparr>main_thread := Leaving None\<rparr>)"
    if "\<not> killed P" and "main_thread P = Publishing"
    and "\<not> emitted_messages (publisher_of P) < so_messages (sim_opts sim)"
| stop: "process_step sim strerror P (P\<lparr>main_thread := Joining e, stop_flag := True\<rparr>)"
    if "\<not> killed P" and "main_thread P = Leaving e"
| join: "process_step sim strerror P (P\<lparr>main_thread := Done e\<rparr>)"
    if "\<not> killed P" and "main_thread P = Joining e" and "server_thread P = Ended"
| serve: "process_step sim strerror P (serves phase s P)"
    if "\<not> killed P"
    and "server_step strerror (stop_flag P) (shared_history P) answer (server_thread P) (server_side P)
      = Some (phase, s)"
| broken_pipe: "process_step sim strerror P (serves (server_thread P) (server_side P) P\<lparr>killed := True\<rparr>)"
    if "\<not> killed P" and "server_thread P = At_lookup start_seq end_seq sock"
    and "fst (send_response (lookup_range start_seq end_seq (shared_history P)) sock) = Some Killed"

inductive process_reachable :: "sim_env \<Rightarrow> (errno \<Rightarrow> string) \<Rightarrow> process \<Rightarrow> bool"
  for sim :: sim_env and strerror :: "errno \<Rightarrow> string" where
  init: "process_reachable sim strerror init_process"
| step: "process_reachable sim strerror P \<Longrightarrow> process_step sim strerror P Q \<Longrightarrow>
     process_reachable sim strerror Q"

inductive_cases process_step_cases
  [consumes 1, case_names publish publish_fails all_published stop join serve broken_pipe]:
  "process_step sim strerror P Q"

lemma publishes_simps [simp]:
  "main_thread (publishes p P) = main_thread P" "stop_flag (publishes p P) = stop_flag P"
  "publisher_of (publishes p P) = p" "server_thread (publishes p P) = server_thread P"
  "server_side (publishes p P) = server_side P" "killed (publishes p P) = killed P"
  "versions (publishes p P) = versions P @ [pub_history p]" "replies (publishes p P) = replies P"
  by (simp_all add: publishes_def)

lemma serves_simps [simp]:
  "main_thread (serves phase s P) = main_thread P" "stop_flag (serves phase s P) = stop_flag P"
  "publisher_of (serves phase s P) = publisher_of P" "server_thread (serves phase s P) = phase"
  "server_side (serves phase s P) = s" "killed (serves phase s P) = killed P"
  "versions (serves phase s P) = versions P"
  "replies (serves phase s P) = replies P @ looked_up (server_thread P) (shared_history P)"
  by (simp_all add: serves_def)

section \<open>The threads run the loops\<close>

text \<open>
  The scripts of \<open>server_run\<close> and \<open>handle_client\<close> name the histories that the iterations find. They are
  versions that the publisher has had, from older to newer.
\<close>

definition drawn_from :: "packet_history list \<Rightarrow> packet_history list \<Rightarrow> bool" where
  "drawn_from vs hs \<longleftrightarrow> (\<exists>is. sorted is \<and> (\<forall>i \<in> set is. i < length vs) \<and> hs = map ((!) vs) is)"

lemma drawn_from_Nil [simp]: "drawn_from vs []"
  by (simp add: drawn_from_def)

lemma drawn_from_grow: "drawn_from vs hs \<Longrightarrow> drawn_from (vs @ ws) hs"
  unfolding drawn_from_def by (elim exE) (rule exI, auto simp: nth_append)

lemma drawn_from_last: "drawn_from vs hs \<Longrightarrow> vs \<noteq> [] \<Longrightarrow> drawn_from vs (hs @ [last vs])"
proof -
  assume "drawn_from vs hs" and vs: "vs \<noteq> []"
  then obtain "is" where "is": "sorted is" "\<forall>i \<in> set is. i < length vs" "hs = map ((!) vs) is"
    by (auto simp: drawn_from_def)
  then have "sorted (is @ [length vs - 1])" by (auto simp: sorted_append dest!: bspec)
  with "is" vs show ?thesis
    unfolding drawn_from_def by (intro exI [of _ "is @ [length vs - 1]"]) (auto simp: last_conv_nth)
qed

definition seen :: "listen_answer list \<Rightarrow> packet_history list" where
  "seen answers = concat (map snd (accepted answers))"

lemma accepted_append: "accepted (xs @ ys) = accepted xs @ accepted ys"
  by (induction xs rule: accepted.induct) simp_all

lemma seen_append [simp]: "seen (xs @ ys) = seen xs @ seen ys"
  by (simp add: seen_def accepted_append)

lemma seen_Accepted [simp]: "seen [Accepted client hs] = hs"
  by (simp add: seen_def)

text \<open>Some script of finished rounds leads to the state; with a client, some part of its loop.\<close>

definition rounds :: "(errno \<Rightarrow> string) \<Rightarrow> listen_answer list \<Rightarrow> server_state \<Rightarrow> bool" where
  "rounds strerror answers s \<longleftrightarrow>
     (\<forall>more. server_run strerror (answers @ more) init_server = server_run strerror more s)"

definition between_clients ::
    "(errno \<Rightarrow> string) \<Rightarrow> packet_history list \<Rightarrow> server_state \<Rightarrow> bool" where
  "between_clients strerror vs s \<longleftrightarrow> (\<exists>answers. rounds strerror answers s \<and> drawn_from vs (seen answers))"

definition with_client ::
    "(errno \<Rightarrow> string) \<Rightarrow> packet_history list \<Rightarrow> tcp_socket \<Rightarrow> server_state \<Rightarrow> bool" where
  "with_client strerror vs sock s \<longleftrightarrow> (\<exists>answers client hs. rounds strerror answers s \<and>
     drawn_from vs (seen answers @ hs) \<and>
     (\<forall>later. handle_client (hs @ later) client = handle_client later sock))"

fun traced ::
    "(errno \<Rightarrow> string) \<Rightarrow> packet_history list \<Rightarrow> server_phase \<Rightarrow> server_state \<Rightarrow> bool" where
  "traced strerror vs Ended s \<longleftrightarrow>
     (\<exists>answers. server_run strerror answers init_server = (None, s) \<and> drawn_from vs (seen answers))"
| "traced strerror vs (At_client_head sock) s \<longleftrightarrow> with_client strerror vs sock s"
| "traced strerror vs (At_request sock) s \<longleftrightarrow> with_client strerror vs sock s"
| "traced strerror vs (At_lookup start_seq end_seq sock) s \<longleftrightarrow>
     (\<exists>sock0 bytes. with_client strerror vs sock0 s \<and>
       recv_exact_or_eof 8 sock0 = (Inr (Some bytes), sock) \<and>
       start_seq = ntohl (rq_start_seq (as_request bytes)) \<and> end_seq = ntohl (rq_end_seq (as_request bytes)))"
| "traced strerror vs phase s \<longleftrightarrow> between_clients strerror vs s"

lemma traced_init: "traced strerror vs At_loop_head init_server"
  by (auto simp: between_clients_def rounds_def seen_def intro!: exI [of _ "[]"])

lemma between_clients_grow: "between_clients strerror vs s \<Longrightarrow> between_clients strerror (vs @ ws) s"
  unfolding between_clients_def by (blast intro: drawn_from_grow)

lemma with_client_grow: "with_client strerror vs sock s \<Longrightarrow> with_client strerror (vs @ ws) sock s"
  unfolding with_client_def by (blast intro: drawn_from_grow)

lemma traced_grow: "traced strerror vs phase s \<Longrightarrow> traced strerror (vs @ ws) phase s"
  by (cases phase) (auto intro: between_clients_grow with_client_grow drawn_from_grow)

lemma listen_round_traced:
  assumes "between_clients strerror vs s" and "listen_round strerror answer s = (phase, t)"
  shows "traced strerror vs phase t"
proof -
  obtain answers where run: "rounds strerror answers s" "drawn_from vs (seen answers)"
    using assms(1) by (auto simp: between_clients_def)
  show ?thesis
  proof (cases answer)
    case (Accepted client hs)
    then have "phase = At_client_head client" "t = s" using assms(2) by auto
    moreover have "with_client strerror vs client s"
      using run unfolding with_client_def
      by (intro exI [of _ answers] exI [of _ client] exI [of _ "[]"]) simp
    ultimately show ?thesis by simp
  qed (use run assms(2) in \<open>auto simp: between_clients_def rounds_def seen_def accepted_append
      split: if_splits intro!: exI [of _ "answers @ [answer]"]\<close>)
qed

text \<open>The end of a client's loop, before or after a last look at the history.\<close>

lemma with_client_ends:
  assumes client: "with_client strerror vs sock s" and vs: "vs \<noteq> []"
    and later: "later = [] \<or> later = [last vs]" and run: "handle_client later sock = (h, t)"
  shows "h = None \<Longrightarrow> between_clients strerror vs (close_client t s)"
    and "h = Some (Throws e) \<Longrightarrow> between_clients strerror vs (client_error strerror e t s)"
proof -
  obtain answers c hs where c: "rounds strerror answers s" "drawn_from vs (seen answers @ hs)"
    "handle_client (hs @ later) c = (h, t)"
    using client run unfolding with_client_def by metis
  have "drawn_from vs (seen (answers @ [Accepted c (hs @ later)]))"
    using later c(2) drawn_from_last [OF c(2) vs] by auto
  then have ends: "between_clients strerror vs s'"
    if "\<And>more. server_run strerror (Accepted c (hs @ later) # more) s = server_run strerror more s'" for s'
    using c(1) that unfolding between_clients_def rounds_def
    by (intro exI [of _ "answers @ [Accepted c (hs @ later)]"]) simp
  show "h = None \<Longrightarrow> between_clients strerror vs (close_client t s)"
    using c(3) by (intro ends) simp
  show "h = Some (Throws e) \<Longrightarrow> between_clients strerror vs (client_error strerror e t s)"
    using c(3) by (intro ends) (simp add: client_error_def)
qed

lemma request_round_traced:
  assumes "with_client strerror vs sock s" and "vs \<noteq> []"
    and "request_round strerror sock s = Some (phase, t)"
  shows "traced strerror vs phase t"
proof -
  obtain r sock' where run: "recv_exact_or_eof 8 sock = (r, sock')" by (cases "recv_exact_or_eof 8 sock")
  note ends = with_client_ends [OF assms(1,2), of "[last vs]"]
  show ?thesis
  proof (cases r)
    case (Inl h)
    then obtain e where "h = Throws e" "phase = At_loop_head" "t = client_error strerror e sock' s"
      using assms(3) run by (cases h) (auto simp: request_round_def)
    with ends(2) [of _ sock' e] run Inl show ?thesis by simp
  next
    case (Inr data)
    show ?thesis
    proof (cases data)
      case None
      with ends(1) [of None sock'] assms(3) run Inr show ?thesis by (auto simp: request_round_def)
    next
      case (Some bytes)
      with assms(3) run Inr have "phase = At_lookup (ntohl (rq_start_seq (as_request bytes)))
          (ntohl (rq_end_seq (as_request bytes))) sock'" "t = s"
        by (auto simp: request_round_def Let_def)
      with assms(1) run Inr Some show ?thesis by auto
    qed
  qed
qed

lemma answer_round_traced:
  assumes lookup: "traced strerror vs (At_lookup lo hi sock) s" and vs: "vs \<noteq> []"
    and run: "answer_round strerror (last vs) lo hi sock s = Some (phase, t)"
  shows "traced strerror vs phase t"
proof -
  obtain sock0 bytes where client: "with_client strerror vs sock0 s"
    and data: "recv_exact_or_eof 8 sock0 = (Inr (Some bytes), sock)"
      "lo = ntohl (rq_start_seq (as_request bytes))" "hi = ntohl (rq_end_seq (as_request bytes))"
    using lookup by auto
  have round: "handle_client (last vs # later) sock0 =
      and_then (send_response (lookup_range lo hi (last vs)) sock) (handle_client later)" for later
    by (simp add: data Let_def)
  obtain h sock' where sent: "send_response (lookup_range lo hi (last vs)) sock = (h, sock')"
    by (cases "send_response (lookup_range lo hi (last vs)) sock")
  show ?thesis
  proof (cases h)
    case None
    obtain answers c hs where c: "rounds strerror answers s" "drawn_from vs (seen answers @ hs)"
      "\<And>later. handle_client (hs @ later) c = handle_client later sock0"
      using client by (auto simp: with_client_def)
    have "handle_client ((hs @ [last vs]) @ later) c = handle_client later sock'" for later
      using c(3) [of "last vs # later"] round [of later] by (simp add: sent None)
    then have "with_client strerror vs sock' s"
      using c(1) drawn_from_last [OF c(2) vs] unfolding with_client_def
      by (intro exI [of _ answers] exI [of _ c] exI [of _ "hs @ [last vs]"]) simp
    with run None sent show ?thesis by (auto simp: answer_round_def)
  next
    case (Some halt)
    then obtain e where "halt = Throws e" "phase = At_loop_head" "t = client_error strerror e sock' s"
      using run sent by (cases halt) (auto simp: answer_round_def)
    with with_client_ends(2) [OF client vs, of "[last vs]"] round [of "[]"] sent Some
    show ?thesis by simp
  qed
qed

lemma server_step_traced:
  assumes "traced strerror vs phase s" and "vs \<noteq> []"
    and "server_step strerror stop (last vs) answer phase s = Some (phase', s')"
  shows "traced strerror vs phase' s'"
proof (cases phase)
  case At_loop_head
  have "traced strerror vs Ended s" if "between_clients strerror vs s"
    using that unfolding between_clients_def rounds_def
    by (metis append_Nil2 server_run.simps(1) traced.simps(1))
  with At_loop_head assms show ?thesis by auto
next
  case At_poll
  with assms listen_round_traced [of strerror vs s answer] show ?thesis by simp
next
  case (At_client_head sock)
  with assms with_client_ends(1) [of strerror vs sock s "[]"] show ?thesis by (auto split: if_splits)
next
  case (At_request sock)
  with assms request_round_traced show ?thesis by simp
next
  case (At_lookup lo hi sock)
  with assms answer_round_traced [of strerror vs lo hi sock s] show ?thesis by simp
qed (use assms in simp)

section \<open>Both threads\<close>

text \<open>The main thread runs the publishing loop, and the flag is set when it is left.\<close>

fun main_runs :: "sim_env \<Rightarrow> main_phase \<Rightarrow> publisher \<Rightarrow> bool" where
  "main_runs sim Publishing p \<longleftrightarrow> publish_loop sim init_publisher = publish_loop sim p"
| "main_runs sim (Leaving e) p \<longleftrightarrow> publish_loop sim init_publisher = Some (map_option Throws e, p)"
| "main_runs sim (Joining e) p \<longleftrightarrow> publish_loop sim init_publisher = Some (map_option Throws e, p)"
| "main_runs sim (Done e) p \<longleftrightarrow> publish_loop sim init_publisher = Some (map_option Throws e, p)"

fun past_stop :: "main_phase \<Rightarrow> bool" where
  "past_stop (Joining e) \<longleftrightarrow> True"
| "past_stop (Done e) \<longleftrightarrow> True"
| "past_stop _ \<longleftrightarrow> False"

definition threads_inv :: "sim_env \<Rightarrow> (errno \<Rightarrow> string) \<Rightarrow> process \<Rightarrow> bool" where
  "threads_inv sim strerror P \<longleftrightarrow>
     versions P \<noteq> [] \<and> last (versions P) = shared_history P \<and>
     traced strerror (versions P) (server_thread P) (server_side P) \<and>
     main_runs sim (main_thread P) (publisher_of P) \<and>
     stop_flag P = past_stop (main_thread P) \<and>
     (\<forall>e. main_thread P = Done e \<longrightarrow> server_thread P = Ended)"

lemma threads_inv_init: "threads_inv sim strerror init_process"
  using traced_init traced_grow by (auto simp: threads_inv_def init_process_def simp del: traced.simps)

lemma publish_loop_throws:
  "emitted_messages p < so_messages (sim_opts sim) \<Longrightarrow> publish_packet sim p = (Some h, q) \<Longrightarrow>
     publish_loop sim p = Some (Some h, q)"
  by (subst publish_loop.simps) simp

lemma threads_inv_step:
  assumes "threads_inv sim strerror P" and "process_step sim strerror P Q"
  shows "threads_inv sim strerror Q"
  using assms(2)
proof (cases rule: process_step_cases)
  case (publish p)
  then show ?thesis
    using assms(1) publish_loop_step [OF publish(4,5)] traced_grow
    by (auto simp: threads_inv_def simp del: traced.simps)
next
  case (publish_fails e p)
  then show ?thesis
    using assms(1) publish_loop_throws [OF publish_fails(4,5)] traced_grow
    by (auto simp: threads_inv_def simp del: traced.simps)
next
  case all_published
  then show ?thesis
    using assms(1) publish_loop_done [OF all_published(4)] by (auto simp: threads_inv_def)
next
  case (serve answer phase s)
  have vs: "versions P \<noteq> []" "last (versions P) = shared_history P"
    "traced strerror (versions P) (server_thread P) (server_side P)"
    using assms(1) by (simp_all add: threads_inv_def)
  have "traced strerror (versions P) phase s"
    using serve(3) server_step_traced [OF vs(3,1)] vs(2) by metis
  moreover have "server_thread P \<noteq> Ended" using serve(3) by auto
  ultimately show ?thesis
    using assms(1) serve(1) by (auto simp: threads_inv_def simp del: traced.simps)
qed (use assms(1) in \<open>auto simp: threads_inv_def\<close>)

lemma reachable_threads_inv: "process_reachable sim strerror P \<Longrightarrow> threads_inv sim strerror P"
  by (induction rule: process_reachable.induct) (auto intro: threads_inv_init threads_inv_step)

section \<open>When the process can go on\<close>

text \<open>A client blocks the server's thread inside \<open>recv\<close> or \<open>send\<close>.\<close>

fun client_blocks :: "packet_history \<Rightarrow> server_phase \<Rightarrow> bool" where
  "client_blocks packet_history (At_request sock) \<longleftrightarrow> fst (recv_exact_or_eof 8 sock) = Inl Blocks"
| "client_blocks packet_history (At_lookup start_seq end_seq sock) \<longleftrightarrow>
     fst (send_response (lookup_range start_seq end_seq packet_history) sock) = Some Blocks"
| "client_blocks packet_history _ \<longleftrightarrow> False"

lemma publishing_goes_on:
  assumes "\<not> killed P" and "main_thread P = Publishing"
  shows "\<exists>Q. process_step sim strerror P Q"
proof (cases "emitted_messages (publisher_of P) < so_messages (sim_opts sim)")
  case True
  obtain h p where run: "publish_packet sim (publisher_of P) = (h, p)"
    by (cases "publish_packet sim (publisher_of P)")
  show ?thesis
  proof (cases h)
    case None
    with process_step.publish [OF assms True] run show ?thesis by blast
  next
    case (Some halt)
    then have "halt \<noteq> Blocks" "halt \<noteq> Killed"
      using publish_packet_not_blocked [of sim "publisher_of P"]
        publish_packet_not_killed [of sim "publisher_of P"] run by auto
    then obtain e where "halt = Throws e" by (cases halt) auto
    with process_step.publish_fails [OF assms True] run Some show ?thesis by blast
  qed
next
  case False
  with process_step.all_published [OF assms] show ?thesis by blast
qed

lemma server_step_stuck:
  assumes "server_step strerror stop h answer phase s = None"
  shows "phase = Ended \<or> client_blocks h phase \<or>
    (\<exists>lo hi sock. phase = At_lookup lo hi sock \<and>
       fst (send_response (lookup_range lo hi h) sock) = Some Killed)"
proof (cases phase)
  case (At_request sock)
  obtain r t where run: "recv_exact_or_eof 8 sock = (r, t)" by (cases "recv_exact_or_eof 8 sock")
  have "r \<noteq> Inl Killed"
    using recv_loop_not_killed [of "[]" 8 sock] run by (simp add: recv_exact_or_eof_def)
  with assms At_request run show ?thesis
    by (auto simp: request_round_def Let_def split: sum.splits option.splits halt.splits)
next
  case (At_lookup lo hi sock)
  with assms show ?thesis
    by (auto simp: answer_round_def split: prod.splits option.splits halt.splits)
qed (use assms in simp_all)

lemma server_goes_on:
  assumes "\<not> killed P" and "server_thread P \<noteq> Ended"
    and "\<not> client_blocks (shared_history P) (server_thread P)"
  shows "\<exists>Q. process_step sim strerror P Q"
proof (cases "server_step strerror (stop_flag P) (shared_history P) Poll_quiet (server_thread P) (server_side P)")
  case None
  from server_step_stuck [OF this] assms process_step.broken_pipe [OF assms(1)] show ?thesis by blast
next
  case (Some r)
  with process_step.serve [OF assms(1)] show ?thesis by (cases r) blast
qed

lemma client_blocks_server:
  "client_blocks h phase \<Longrightarrow> server_step strerror stop h answer phase s = None"
  by (cases phase) (auto simp: request_round_def answer_round_def split: prod.split)

lemma no_step:
  assumes "threads_inv sim strerror P"
  shows "(\<nexists>Q. process_step sim strerror P Q) \<longleftrightarrow> killed P \<or> (\<exists>e. main_thread P = Done e) \<or>
    (\<exists>e. main_thread P = Joining e) \<and> client_blocks (shared_history P) (server_thread P)"
proof (cases "main_thread P")
  case Publishing
  have "process_step sim strerror P Q \<Longrightarrow> \<not> killed P" for Q by (erule process_step_cases)
  with Publishing publishing_goes_on [of P sim strerror] show ?thesis by auto
next
  case (Leaving e)
  have "process_step sim strerror P Q \<Longrightarrow> \<not> killed P" for Q by (erule process_step_cases)
  with Leaving process_step.stop [of P e sim strerror] show ?thesis by auto
next
  case (Joining e)
  have "\<not> killed P \<and> \<not> client_blocks (shared_history P) (server_thread P)"
    if "process_step sim strerror P Q" for Q
    using that
  proof (cases rule: process_step_cases)
    case (serve answer phase s)
    with client_blocks_server [of "shared_history P" "server_thread P"] show ?thesis by fastforce
  qed (use Joining in auto)
  moreover have "\<exists>Q. process_step sim strerror P Q"
    if "\<not> killed P" "\<not> client_blocks (shared_history P) (server_thread P)"
    using that Joining server_goes_on [of P] process_step.join [of P e] by (cases "server_thread P = Ended") blast+
  ultimately show ?thesis using Joining by auto
next
  case (Done e)
  then have "server_thread P = Ended" using assms by (simp add: threads_inv_def)
  with Done have "\<not> process_step sim strerror P Q" for Q by (auto elim: process_step_cases)
  with Done show ?thesis by blast
qed

text \<open>With \<open>stop_\<close> set, every step brings the end nearer.\<close>

fun server_rank :: "server_phase \<Rightarrow> nat" where
  "server_rank Ended = 0"
| "server_rank At_loop_head = 1"
| "server_rank (At_client_head sock) = 2"
| "server_rank At_poll = 3"
| "server_rank (At_lookup start_seq end_seq sock) = 3"
| "server_rank (At_request sock) = 4"

definition stop_rank :: "process \<Rightarrow> nat" where
  "stop_rank P = (if killed P then 0 else
     (case main_thread P of Done e \<Rightarrow> 0 | _ \<Rightarrow> 1) + server_rank (server_thread P))"

lemma server_step_rank:
  "server_step strerror True h answer phase s = Some (phase', s') \<Longrightarrow> server_rank phase' < server_rank phase"
  by (cases phase; cases answer)
    (auto simp: request_round_def answer_round_def Let_def
      split: prod.splits sum.splits option.splits halt.splits if_splits)

lemma stop_rank_step:
  assumes "threads_inv sim strerror P" and "stop_flag P" and "process_step sim strerror P Q"
  shows "stop_rank Q < stop_rank P \<and> stop_flag Q"
proof -
  have "past_stop (main_thread P)" using assms(1,2) by (simp add: threads_inv_def)
  with assms(3) show ?thesis
  proof (cases rule: process_step_cases)
    case (serve answer phase s)
    with assms(2) server_step_rank [of strerror "shared_history P" answer "server_thread P"]
    show ?thesis by (auto simp: stop_rank_def)
  qed (use assms(2) in \<open>auto simp: stop_rank_def\<close>)
qed

lemma stop_rank_run:
  "(process_step sim strerror ^^ k) P Q \<Longrightarrow> threads_inv sim strerror P \<Longrightarrow> stop_flag P \<Longrightarrow>
     k + stop_rank Q \<le> stop_rank P"
proof (induction k arbitrary: P)
  case 0
  then show ?case by simp
next
  case (Suc k)
  from relpowp_Suc_D2 [OF Suc.prems(1)] obtain R where
    R: "process_step sim strerror P R" "(process_step sim strerror ^^ k) R Q" by blast
  with Suc stop_rank_step [OF Suc.prems(2,3) R(1)] threads_inv_step [OF Suc.prems(2) R(1)]
  show ?case by fastforce
qed

lemma stop_rank_bound: "stop_rank P \<le> 5"
  by (cases "server_thread P"; cases "main_thread P") (simp_all add: stop_rank_def)

end
