(* ===== verification/Process_Correct.thy ===== *)
theory Process_Correct
  imports Exchange_Process
begin

text \<open>
  What the two threads of the simulator do together: the server finds what has been published,
  each thread runs its loop as if it were alone, and the process ends unless a client prevents it.
\<close>

section \<open>What the server finds\<close>

text \<open>With \<open>n\<close> packets published, the history holds them and nothing else.\<close>

definition holds_exactly ::
    "packet_history \<Rightarrow> (nat \<Rightarrow> message list) \<Rightarrow> (nat \<Rightarrow> u64) \<Rightarrow> nat \<Rightarrow> bool" where
  "holds_exactly h ms ts n \<longleftrightarrow> om_inv h \<and>
     (\<forall>q. om_find h q = (if 1 \<le> unat q \<and> unat q \<le> n then Some (stream_packet ms ts (unat q)) else None))"

definition range_packets ::
    "(nat \<Rightarrow> message list) \<Rightarrow> (nat \<Rightarrow> u64) \<Rightarrow> nat \<Rightarrow> u32 \<Rightarrow> u32 \<Rightarrow> bytes list" where
  "range_packets ms ts k lo hi = map (stream_packet ms ts) [max 1 (unat lo)..<Suc (min (unat hi) k)]"

lemma filter_upt_range:
  "filter (\<lambda>k. 1 \<le> k \<and> k \<le> n) [a..<b] = [max 1 a..<min b (Suc n)]"
  by (induction b) (auto simp: min_def max_def le_Suc_eq)

lemma concat_filter: "concat (map (\<lambda>k. if P k then [f k] else []) xs) = map f (filter P xs)"
  by (induction xs) auto

lemma lookup_exact:
  assumes "holds_exactly h ms ts n"
  shows "lookup_range lo hi h = range_packets ms ts n lo hi"
proof -
  have "present h k = (if 1 \<le> k \<and> k \<le> n then [stream_packet ms ts k] else [])" if "k \<le> unat hi" for k
  proof -
    have "unat (of_nat k :: u32) = k"
      using that unat_u32_bound [of hi] by (intro unat_of_nat_u32) linarith
    with assms show ?thesis by (simp add: present_def holds_exactly_def)
  qed
  then have "map (present h) [unat lo..<Suc (unat hi)] =
      map (\<lambda>k. if 1 \<le> k \<and> k \<le> n then [stream_packet ms ts k] else []) [unat lo..<Suc (unat hi)]"
    by (intro map_cong) auto
  then show ?thesis
    unfolding lookup_range_eq by (simp only: concat_filter filter_upt_range range_packets_def min_Suc_Suc)
qed

lemma holds_exactly_extend:
  assumes "holds_exactly h ms ts n" and "Suc (Suc n) < 2 ^ 32"
  shows "holds_exactly (history_store (of_nat (Suc n)) (packet_image (of_nat (Suc n)) b t) h)
    (ms(Suc n := b)) (ts(Suc n := t)) (Suc n)"
proof -
  have n: "unat (of_nat (Suc n) :: u32) = Suc n" using assms(2) by (intro unat_of_nat_u32) simp
  then have "q = of_nat (Suc n) \<longleftrightarrow> unat q = Suc n" for q :: u32
    by (simp add: word_eq_iff_unat del: of_nat_Suc)
  then show ?thesis
    using assms(1) by (auto simp: holds_exactly_def map_simps stream_packet_extend simp del: of_nat_Suc)
qed

lemma range_packets_extend:
  "k \<le> n \<Longrightarrow> range_packets (ms(Suc n := b)) (ts(Suc n := t)) k lo hi = range_packets ms ts k lo hi"
  unfolding range_packets_def by (rule map_cong) (auto simp: stream_packet_extend)

text \<open>The lookups so far found what was published then, later ones no less than earlier ones.\<close>

definition grown :: "(nat \<Rightarrow> message list) \<Rightarrow> (nat \<Rightarrow> u64) \<Rightarrow> nat \<Rightarrow> (u32 \<times> u32 \<times> bytes list) list \<Rightarrow> bool" where
  "grown ms ts n found \<longleftrightarrow> (\<exists>ks. sorted ks \<and> (\<forall>k \<in> set ks. k \<le> n) \<and>
     list_all2 (\<lambda>(lo, hi, packets) k. packets = range_packets ms ts k lo hi) found ks)"

lemma grown_extend:
  assumes "grown ms ts n found"
  shows "grown (ms(Suc n := b)) (ts(Suc n := t)) (Suc n) found"
proof -
  obtain ks where ks: "sorted ks" "\<forall>k \<in> set ks. k \<le> n"
    "list_all2 (\<lambda>(lo, hi, packets) k. packets = range_packets ms ts k lo hi) found ks"
    using assms by (auto simp: grown_def)
  have "list_all2 (\<lambda>(lo, hi, packets) k.
      packets = range_packets (ms(Suc n := b)) (ts(Suc n := t)) k lo hi) found ks"
    by (rule list.rel_mono_strong [OF ks(3)]) (use ks(2) in \<open>auto simp: range_packets_extend\<close>)
  with ks show ?thesis unfolding grown_def by (intro exI [of _ ks]) auto
qed

lemma grown_lookup:
  assumes "grown ms ts n found" and "holds_exactly h ms ts n"
  shows "grown ms ts n (found @ looked_up phase h)"
proof (cases phase)
  case (At_lookup lo hi sock)
  obtain ks where ks: "sorted ks" "\<forall>k \<in> set ks. k \<le> n"
    "list_all2 (\<lambda>(lo, hi, packets) k. packets = range_packets ms ts k lo hi) found ks"
    using assms(1) by (auto simp: grown_def)
  with At_lookup lookup_exact [OF assms(2)] show ?thesis
    unfolding grown_def by (intro exI [of _ "ks @ [n]"]) (auto simp: sorted_append list_all2_appendI)
qed (use assms(1) in simp_all)

definition history_inv ::
    "sim_env \<Rightarrow> (nat \<Rightarrow> message list) \<Rightarrow> (nat \<Rightarrow> u64) \<Rightarrow> nat \<Rightarrow> process \<Rightarrow> bool" where
  "history_inv sim ms ts n P \<longleftrightarrow> pub_inv sim ms ts n (publisher_of P) \<and>
     holds_exactly (shared_history P) ms ts n \<and> grown ms ts n (replies P)"

lemma history_inv_init: "history_inv sim ms ts 0 init_process"
  using pub_inv_init [of sim ms ts]
  by (simp add: history_inv_def init_process_def holds_exactly_def grown_def init_publisher_def om.find_empty)

text \<open>What has been published is found the same ever after.\<close>

definition same_below :: "nat \<Rightarrow> process \<Rightarrow> process \<Rightarrow> bool" where
  "same_below n P Q \<longleftrightarrow> (\<forall>lo hi. unat hi \<le> n \<longrightarrow>
     lookup_range lo hi (shared_history Q) = lookup_range lo hi (shared_history P))"

lemma same_below_same [simp]: "shared_history Q = shared_history P \<Longrightarrow> same_below n P Q"
  by (simp add: same_below_def)

lemma same_below_trans: "same_below n P Q \<Longrightarrow> same_below m Q R \<Longrightarrow> n \<le> m \<Longrightarrow> same_below n P R"
  by (simp add: same_below_def)

lemma same_below_store:
  assumes "om_inv (shared_history P)" and "Suc n < 2 ^ 32"
    and "shared_history Q = history_store (of_nat (Suc n)) packet (shared_history P)"
  shows "same_below n P Q"
  unfolding same_below_def assms(3)
proof (intro allI impI)
  fix lo hi :: u32
  assume "unat hi \<le> n"
  then have "hi < of_nat (Suc n)"
    using assms(2) by (simp add: word_less_nat_alt unat_of_nat_u32 del: of_nat_Suc)
  then show "lookup_range lo hi (history_store (of_nat (Suc n)) packet (shared_history P)) =
      lookup_range lo hi (shared_history P)"
    by (intro history.lookup_store_outside [OF assms(1)] disjI2)
qed

lemma history_inv_step:
  assumes valid: "valid_env sim" and net: "network_takes_all sim"
    and inv: "history_inv sim ms ts n P" and step: "process_step sim strerror P Q"
  shows "\<exists>ms ts m. history_inv sim ms ts m Q \<and> n \<le> m \<and> same_below n P Q"
proof -
  have pub: "pub_inv sim ms ts n (publisher_of P)" and exact: "holds_exactly (shared_history P) ms ts n"
    and found: "grown ms ts n (replies P)"
    using inv by (simp_all add: history_inv_def)
  note next_packet = pub_inv_step [OF valid net pub]
  have served: "history_inv sim ms ts n (serves phase s P)" for phase s
    using inv grown_lookup [OF found exact] by (simp add: history_inv_def)
  show ?thesis
    using step
  proof (cases rule: process_step_cases)
    case (publish p)
    obtain b t where p: "pub_inv sim (ms(Suc n := b)) (ts(Suc n := t)) (Suc n) p"
      "pub_history p = history_store (of_nat (Suc n)) (packet_image (of_nat (Suc n)) b t) (shared_history P)"
      using next_packet [OF publish(4)] publish(5) by auto
    then have "Suc (Suc n) < 2 ^ 32" unfolding pub_inv_unfold sound_stream_def by blast
    with p exact publish(1) have "same_below n P Q"
      by (intro same_below_store [where packet = "packet_image (of_nat (Suc n)) b t"])
        (auto simp: holds_exactly_def simp del: of_nat_Suc)
    with holds_exactly_extend [OF exact \<open>Suc (Suc n) < 2 ^ 32\<close>] p grown_extend [OF found] publish(1)
    show ?thesis
      unfolding history_inv_def
      by (intro exI [of _ "ms(Suc n := b)"] exI [of _ "ts(Suc n := t)"] exI [of _ "Suc n"])
        (simp del: of_nat_Suc)
  next
    case (publish_fails e p)
    with next_packet show ?thesis by auto
  next
    case (serve answer phase s)
    with served [of phase s] show ?thesis
      by (intro exI [of _ ms] exI [of _ ts] exI [of _ n]) simp
  next
    case (broken_pipe lo hi sock)
    with served [of "server_thread P" "server_side P"] show ?thesis
      by (intro exI [of _ ms] exI [of _ ts] exI [of _ n]) (simp add: history_inv_def del: looked_up.simps)
  qed (use inv in \<open>auto simp: history_inv_def intro!: exI [of _ n]\<close>)
qed

lemma reachable_history_inv:
  assumes "valid_env sim" and "network_takes_all sim" and "process_reachable sim strerror P"
  shows "\<exists>ms ts n. history_inv sim ms ts n P"
  using assms(3)
proof (induction rule: process_reachable.induct)
  case init
  show ?case by (blast intro: history_inv_init)
next
  case (step P Q)
  with history_inv_step [OF assms(1,2)] show ?case by blast
qed

lemma later_history_inv:
  assumes "valid_env sim" and "network_takes_all sim" and "(process_step sim strerror)\<^sup>*\<^sup>* P Q"
    and "history_inv sim ms ts n P"
  shows "\<exists>ms ts m. history_inv sim ms ts m Q \<and> n \<le> m \<and> same_below n P Q"
  using assms(3)
proof (induction rule: rtranclp_induct)
  case base
  with assms(4) show ?case by auto
next
  case (step Q R)
  then obtain ms ts m where m: "history_inv sim ms ts m Q" "n \<le> m" "same_below n P Q" by blast
  from history_inv_step [OF assms(1,2) m(1) step(2)] m(2,3) same_below_trans show ?case
    by (metis le_trans)
qed

section \<open>Concrete runs\<close>

lemma init_process_simps [simp]:
  "main_thread init_process = Publishing" "stop_flag init_process = False"
  "publisher_of init_process = init_publisher" "server_thread init_process = At_loop_head"
  "server_side init_process = init_server" "killed init_process = False" "replies init_process = []"
  by (simp_all add: init_process_def)

text \<open>A simulator without messages, and a client that connects and stays silent.\<close>

definition idle_sim :: sim_env where
  "idle_sim = demo_sim\<lparr>sim_opts := (sim_opts demo_sim)\<lparr>so_messages := 0\<rparr>\<rparr>"

definition silent_client :: tcp_socket where
  "silent_client = \<lparr>send_answers = [], sent_bytes = [], recv_events = []\<rparr>"

definition silent_process :: process where
  "silent_process = serves (At_request silent_client) init_server (serves (At_client_head silent_client)
     init_server (serves At_poll init_server init_process))"

definition joining_process :: process where
  "joining_process = silent_process\<lparr>main_thread := Leaving None\<rparr>\<lparr>main_thread := Joining None, stop_flag := True\<rparr>"

lemma joining_process_simps:
  "main_thread joining_process = Joining None" "stop_flag joining_process"
  "server_thread joining_process = At_request silent_client" "\<not> killed joining_process"
  by (simp_all add: joining_process_def silent_process_def)

lemma silent_process_reachable: "process_reachable sim strerror silent_process"
proof -
  have "process_reachable sim strerror (serves At_poll init_server init_process)"
    by (rule process_reachable.step [OF process_reachable.init])
      (rule process_step.serve; simp)
  then have "process_reachable sim strerror (serves (At_client_head silent_client) init_server
      (serves At_poll init_server init_process))"
    by (rule process_reachable.step)
      (rule process_step.serve [where answer = "Accepted silent_client []"]; simp)
  then show ?thesis
    unfolding silent_process_def by (rule process_reachable.step) (rule process_step.serve; simp)
qed

lemma joining_process_reachable: "process_reachable idle_sim strerror joining_process"
proof -
  have "process_reachable idle_sim strerror (silent_process\<lparr>main_thread := Leaving None\<rparr>)"
    by (rule process_reachable.step [OF silent_process_reachable])
      (rule process_step.all_published; simp add: silent_process_def idle_sim_def)
  then show ?thesis
    unfolding joining_process_def by (rule process_reachable.step) (rule process_step.stop; simp add: silent_process_def)
qed

text \<open>The same simulator without a client.\<close>

definition done_process :: process where
  "done_process = serves Ended init_server
     (init_process\<lparr>main_thread := Leaving None\<rparr>\<lparr>main_thread := Joining None, stop_flag := True\<rparr>)
     \<lparr>main_thread := Done None\<rparr>"

lemma done_process_reachable: "process_reachable idle_sim strerror done_process"
proof -
  let ?left = "init_process\<lparr>main_thread := Leaving None\<rparr>"
  let ?stopped = "?left\<lparr>main_thread := Joining None, stop_flag := True\<rparr>"
  have "process_reachable idle_sim strerror ?left"
    by (rule process_reachable.step [OF process_reachable.init])
      (rule process_step.all_published; simp add: idle_sim_def)
  then have "process_reachable idle_sim strerror ?stopped"
    by (rule process_reachable.step) (rule process_step.stop; simp)
  then have "process_reachable idle_sim strerror (serves Ended init_server ?stopped)"
    by (rule process_reachable.step) (rule process_step.serve; simp)
  then show ?thesis
    unfolding done_process_def by (rule process_reachable.step) (rule process_step.join; simp)
qed

text \<open>One packet is published, a client asks for nine and breaks its connection.\<close>

definition broken_client :: tcp_socket where
  "broken_client = \<lparr>send_answers = [Send_error EPIPE], sent_bytes = [], recv_events =
     [Arrived (image_request \<lparr>rq_start_seq = htonl 1, rq_end_seq = htonl 9\<rparr>)]\<rparr>"

definition asked_process :: process where
  "asked_process = serves (At_lookup 1 9 (broken_client\<lparr>recv_events := []\<rparr>)) init_server
     (serves (At_request broken_client) init_server (serves (At_client_head broken_client) init_server
       (serves At_poll init_server (publishes (snd (publish_packet demo_sim init_publisher)) init_process))))"

definition broken_process :: process where
  "broken_process = serves (server_thread asked_process) (server_side asked_process) asked_process
     \<lparr>killed := True\<rparr>"

lemma broken_client_asks:
  "recv_exact_or_eof 8 broken_client =
     (Inr (Some (image_request \<lparr>rq_start_seq = htonl 1, rq_end_seq = htonl 9\<rparr>)),
      broken_client\<lparr>recv_events := []\<rparr>)"
  by (simp add: broken_client_def recv_exact_or_eof_def recv_loop.simps)

lemma asked_process_reachable:
  "process_reachable demo_sim strerror asked_process"
  "server_thread asked_process = At_lookup 1 9 (broken_client\<lparr>recv_events := []\<rparr>)"
  "\<not> killed asked_process" "packet_sequence (publisher_of asked_process) = 2"
proof -
  let ?p = "snd (publish_packet demo_sim init_publisher)"
  have more: "emitted_messages init_publisher < so_messages (sim_opts demo_sim)"
    by (simp add: init_publisher_def demo_sim_def sim_defaults_def)
  obtain p ms ts where p: "publish_packet demo_sim init_publisher = (None, p)"
    "pub_inv demo_sim ms ts (Suc 0) p"
    using pub_inv_step [OF demo_sim_valid pub_inv_init more] by blast
  then show "packet_sequence (publisher_of asked_process) = 2"
    by (simp add: asked_process_def pub_inv_unfold)
  have "process_reachable demo_sim strerror (publishes ?p init_process)"
    by (rule process_reachable.step [OF process_reachable.init])
      (rule process_step.publish; simp add: more p(1))
  then have "process_reachable demo_sim strerror (serves At_poll init_server (publishes ?p init_process))"
    by (rule process_reachable.step) (rule process_step.serve; simp)
  then have "process_reachable demo_sim strerror (serves (At_client_head broken_client) init_server
      (serves At_poll init_server (publishes ?p init_process)))"
    by (rule process_reachable.step)
      (rule process_step.serve [where answer = "Accepted broken_client []"]; simp)
  then have "process_reachable demo_sim strerror (serves (At_request broken_client) init_server
      (serves (At_client_head broken_client) init_server
        (serves At_poll init_server (publishes ?p init_process))))"
    by (rule process_reachable.step) (rule process_step.serve; simp)
  then show "process_reachable demo_sim strerror asked_process"
    unfolding asked_process_def
    by (rule process_reachable.step)
      (rule process_step.serve; simp add: request_round_def broken_client_asks Let_def
        as_request_image ntohl_htonl)
qed (simp_all add: asked_process_def)

lemma broken_process_reachable:
  "process_reachable demo_sim strerror broken_process"
  "packet_sequence (publisher_of broken_process) = 2"
  "map fst (replies broken_process) = [1]" "killed broken_process"
proof -
  have "fst (send_response packets (broken_client\<lparr>recv_events := []\<rparr>)) = Some Killed" for packets
  proof -
    have "image_response n \<noteq> []" for n using length_image_response [of n] by (metis list.size(3) zero_neq_numeral)
    then show ?thesis by (simp add: send_response_def Let_def send_all_steps broken_client_def)
  qed
  with asked_process_reachable(2,3) show "process_reachable demo_sim strerror broken_process"
    unfolding broken_process_def
    by (intro process_reachable.step [OF asked_process_reachable(1)] process_step.broken_pipe)
  show "packet_sequence (publisher_of broken_process) = 2"
    using asked_process_reachable(4) by (simp add: broken_process_def)
qed (simp_all add: broken_process_def asked_process_def)

section \<open>Properties of the process\<close>

text \<open>
  C6. However the two threads of the simulator interleave, the history holds exactly the packets
  that have been published so far, every packet on the wire among them, and each lookup of the
  server found exactly those packets of its range that were published by then, in order and
  unaltered; a later lookup never finds less than an earlier one would have. So it makes no
  difference when the server gets to look: a range of published numbers is found the same in
  every later state.
\<close>

theorem server_finds_published:
  assumes "valid_env sim" and "network_takes_all sim" and "process_reachable sim strerror P"
  shows "\<exists>ms ts n. unat (packet_sequence (publisher_of P)) = Suc n \<and>
    (\<forall>q. om_find (shared_history P) q = (if 1 \<le> unat q \<and> unat q \<le> n
       then Some (packet_image (of_nat (unat q)) (ms (unat q)) (ts (unat q))) else None)) \<and>
    wire (publisher_of P) = map (\<lambda>k. packet_image (of_nat k) (ms k) (ts k))
      (filter (\<lambda>k. \<not> skips sim k) [1..<Suc n]) \<and>
    (\<exists>ks. sorted ks \<and> (\<forall>k \<in> set ks. k \<le> n) \<and> list_all2 (\<lambda>(lo, hi, packets) k.
       packets = map (\<lambda>j. packet_image (of_nat j) (ms j) (ts j)) [max 1 (unat lo)..<Suc (min (unat hi) k)])
       (replies P) ks) \<and>
    (\<forall>Q lo hi. (process_step sim strerror)\<^sup>*\<^sup>* P Q \<and> hi < packet_sequence (publisher_of P) \<longrightarrow>
       lookup_range lo hi (shared_history Q) = lookup_range lo hi (shared_history P))"
proof -
  obtain ms ts n where inv: "history_inv sim ms ts n P"
    using reachable_history_inv [OF assms] by blast
  have image: "stream_packet ms ts = (\<lambda>k. packet_image (of_nat k) (ms k) (ts k))"
    by (rule ext) (simp add: stream_packet_def)
  have number: "unat (packet_sequence (publisher_of P)) = Suc n"
    using inv by (auto simp: history_inv_def dest: pub_inv_number)
  then have "lookup_range lo hi (shared_history Q) = lookup_range lo hi (shared_history P)"
    if "(process_step sim strerror)\<^sup>*\<^sup>* P Q" "hi < packet_sequence (publisher_of P)" for Q lo hi
    using later_history_inv [OF assms(1,2) that(1) inv] that(2)
    by (auto simp: same_below_def word_less_nat_alt)
  with number show ?thesis
    using inv unfolding history_inv_def holds_exactly_def grown_def range_packets_def pub_inv_unfold
      published_numbers_def image
    by (intro exI [of _ ms] exI [of _ ts] exI [of _ n]) blast
qed

theorem server_finds_published_witness:
  "\<exists>packets hi. replies broken_process = [(1, hi, packets)] \<and> length packets \<le> 1"
  using server_finds_published [OF demo_sim_valid broken_process_reachable(1) [of "\<lambda>e. ''error''"]]
    broken_process_reachable(2,3)
  by (auto simp: list_all2_Cons1 simp del: upt_Suc)

text \<open>
  Each thread runs its loop as if it were alone. The main thread's publisher is what
  \<open>publish_loop\<close> returns, with the same exception if any; and when the server's thread has ended,
  its log and its closed clients are what \<open>server_run\<close> returns for a script whose histories are
  versions that the publisher has had, from older to newer.
\<close>

theorem threads_run_loops:
  assumes "process_reachable sim strerror P"
  shows "\<forall>e. main_thread P \<in> {Leaving e, Joining e, Done e} \<longrightarrow>
      publish_loop sim init_publisher = Some (map_option Throws e, publisher_of P)"
    and "server_thread P = Ended \<Longrightarrow> \<exists>answers. drawn_from (versions P) (seen answers) \<and>
      server_run strerror answers init_server = (None, server_side P)"
    and "main_thread P = Done e \<Longrightarrow> server_thread P = Ended"
  using reachable_threads_inv [OF assms] by (auto simp: threads_inv_def)

text \<open>
  C8. The process comes to its end unless a client prevents it: no reachable state is stuck except
  after the join, after a broken pipe, or when the main thread joins a server that a client
  blocks in \<open>recv\<close> or \<open>send\<close>; and once \<open>stop_\<close> is set, at most five more steps are possible, whatever
  the clients do. Publishing itself never waits for a client.
\<close>

theorem process_stops:
  assumes "process_reachable sim strerror P"
  shows "((\<nexists>Q. process_step sim strerror P Q) \<longleftrightarrow> killed P \<or> (\<exists>e. main_thread P = Done e) \<or>
      (\<exists>e. main_thread P = Joining e) \<and> client_blocks (shared_history P) (server_thread P)) \<and>
    (stop_flag P \<longrightarrow> (\<forall>k Q. (process_step sim strerror ^^ k) P Q \<longrightarrow> k \<le> 5))"
proof -
  note inv = reachable_threads_inv [OF assms]
  have "k \<le> 5" if "stop_flag P" "(process_step sim strerror ^^ k) P Q" for k Q
    using stop_rank_run [OF that(2) inv that(1)] stop_rank_bound [of P] by linarith
  with no_step [OF inv] show ?thesis by blast
qed

theorem process_stops_witness:
  "\<nexists>Q. process_step idle_sim (\<lambda>e. ''error'') joining_process Q"
  using process_stops [OF joining_process_reachable [of "\<lambda>e. ''error''"]] joining_process_simps
  by (simp add: silent_client_def recv_exact_or_eof_def recv_loop.simps)

end
