(* ===== verification/Socket_Setup.thy ===== *)
theory Socket_Setup
  imports Recovery_Client
begin

text \<open>
  The opening of sockets: \<open>create_listen_socket\<close> of \<open>src/common/recovery.cpp\<close>, the constructors of
  \<open>UdpMulticastSender\<close> and \<open>UdpMulticastReceiver\<close> in \<open>src/common/udp_multicast.cpp\<close>, and \<open>EpollInstance\<close>,
  \<open>pin_current_thread_to_cpu\<close> and the objects of \<open>main\<close> in the two programs. The question is what
  is open afterwards, whichever call fails.
\<close>

section \<open>The kernel's side\<close>

text \<open>
  The system calls with the arguments that the code chooses. Addresses are octets and a port.
  \<open>Start_thread\<close> is what \<open>std::thread\<close> asks for.
\<close>

datatype system_call =
    Socket_dgram
  | Socket_stream
  | Set_option nat string nat
  | Add_membership nat "nat list"
  | Bind nat "nat list" u16
  | Listen nat nat
  | Get_flags nat
  | Set_non_blocking_flag nat
  | Epoll_create
  | Epoll_add nat nat nat
  | Close nat
  | Start_thread

text \<open>
  \<open>verdict n\<close> is the answer to the \<open>n\<close>th call: \<open>None\<close> for success, otherwise the error that is put into
  \<open>errno\<close>. \<open>trace\<close> holds the calls so far, \<open>descriptors\<close> the open ones.
\<close>

record kernel =
  verdict :: "nat \<Rightarrow> errno option"
  errno_cell :: errno
  trace :: "system_call list"
  descriptors :: "nat list"

text \<open>A new descriptor is the lowest number that is not open.\<close>

definition lowest_free :: "nat list \<Rightarrow> nat" where
  "lowest_free fds = hd (filter (\<lambda>n. n \<notin> set fds) [0..<Suc (length fds)])"

definition sys_call :: "system_call \<Rightarrow> kernel \<Rightarrow> bool \<times> kernel" where
  "sys_call call k =
     (case verdict k (length (trace k)) of
        None \<Rightarrow> (True, k\<lparr>trace := trace k @ [call]\<rparr>)
      | Some e \<Rightarrow> (False, k\<lparr>trace := trace k @ [call], errno_cell := e\<rparr>))"

definition sys_open :: "system_call \<Rightarrow> kernel \<Rightarrow> nat option \<times> kernel" where
  "sys_open call k =
     (case sys_call call k of
        (False, k) \<Rightarrow> (None, k)
      | (True, k) \<Rightarrow>
          (Some (lowest_free (descriptors k)),
           k\<lparr>descriptors := lowest_free (descriptors k) # descriptors k\<rparr>))"

text \<open>On Linux \<open>close\<close> releases the descriptor even when it reports an error.\<close>

definition sys_close :: "nat \<Rightarrow> kernel \<Rightarrow> kernel" where
  "sys_close fd k =
     (let k = snd (sys_call (Close fd) k)
      in k\<lparr>descriptors := filter (\<lambda>n. n \<noteq> fd) (descriptors k)\<rparr>)"

text \<open>\<open>close_if_open\<close>, on a member that is \<open>-1\<close> while nothing is open: its new value, and the kernel.\<close>

definition close_if_open :: "int \<Rightarrow> kernel \<Rightarrow> int \<times> kernel" where
  "close_if_open socket_fd k =
     (if 0 \<le> socket_fd then (- 1, sys_close (nat socket_fd) k) else (socket_fd, k))"

lemma close_if_open_int [simp]: "close_if_open (int fd) k = (- 1, sys_close fd k)"
  by (simp add: close_if_open_def)

text \<open>\<open>throw socket_error(action)\<close>, which reads \<open>errno\<close>.\<close>

definition throw_errno :: "string \<Rightarrow> kernel \<Rightarrow> ('a, kernel) result" where
  "throw_errno action k = (Inl (Throws (Socket_error action (errno_cell k))), k)"

section \<open>The listening socket\<close>

text \<open>Each failure builds its error, closes the socket and throws.\<close>

definition close_saving_error :: "string \<Rightarrow> nat \<Rightarrow> kernel \<Rightarrow> ('a, kernel) result" where
  "close_saving_error action fd k =
     (let error = Socket_error action (errno_cell k) in (Inl (Throws error), sys_close fd k))"

definition create_listen_socket :: "u16 \<Rightarrow> kernel \<Rightarrow> (nat, kernel) result" where
  "create_listen_socket port k =
     (case sys_open Socket_stream k of
        (None, k) \<Rightarrow> throw_errno ''socket'' k
      | (Some fd, k) \<Rightarrow>
     (case sys_call (Set_option fd ''SO_REUSEADDR'' 1) k of
        (False, k) \<Rightarrow> close_saving_error ''setsockopt(SO_REUSEADDR)'' fd k
      | (True, k) \<Rightarrow>
     (case sys_call (Bind fd [0, 0, 0, 0] port) k of
        (False, k) \<Rightarrow> close_saving_error ''bind'' fd k
      | (True, k) \<Rightarrow>
     (case sys_call (Listen fd 4) k of
        (False, k) \<Rightarrow> close_saving_error ''listen'' fd k
      | (True, k) \<Rightarrow> (Inr fd, k)))))"

section \<open>The multicast sockets\<close>

text \<open>Here the socket is closed before the error is built, so \<open>close\<close> can replace \<open>errno\<close>.\<close>

definition close_then_error :: "string \<Rightarrow> nat \<Rightarrow> kernel \<Rightarrow> ('a, kernel) result" where
  "close_then_error action fd k = throw_errno action (snd (close_if_open (int fd) k))"

definition make_address :: "string \<Rightarrow> u16 \<Rightarrow> exn + nat list \<times> u16" where
  "make_address group_ip port =
     (case inet_pton group_ip of
        None \<Rightarrow> Inl (Runtime_error (''invalid multicast group: '' @ group_ip))
      | Some octets \<Rightarrow> Inr (octets, port))"

definition udp_multicast_sender ::
    "string \<Rightarrow> u16 \<Rightarrow> kernel \<Rightarrow> (nat \<times> nat list \<times> u16, kernel) result" where
  "udp_multicast_sender group_ip port k =
     (case make_address group_ip port of
        Inl e \<Rightarrow> (Inl (Throws e), k)
      | Inr destination \<Rightarrow>
     (case sys_open Socket_dgram k of
        (None, k) \<Rightarrow> throw_errno ''socket'' k
      | (Some fd, k) \<Rightarrow>
     (case sys_call (Set_option fd ''IP_MULTICAST_TTL'' 1) k of
        (False, k) \<Rightarrow> close_then_error ''setsockopt(IP_MULTICAST_TTL)'' fd k
      | (True, k) \<Rightarrow>
     (case sys_call (Set_option fd ''IP_MULTICAST_LOOP'' 1) k of
        (False, k) \<Rightarrow> close_then_error ''setsockopt(IP_MULTICAST_LOOP)'' fd k
      | (True, k) \<Rightarrow> (Inr (fd, destination), k)))))"

definition set_non_blocking :: "nat \<Rightarrow> kernel \<Rightarrow> (unit, kernel) result" where
  "set_non_blocking fd k =
     (case sys_call (Get_flags fd) k of
        (False, k) \<Rightarrow> throw_errno ''fcntl(F_GETFL)'' k
      | (True, k) \<Rightarrow>
     (case sys_call (Set_non_blocking_flag fd) k of
        (False, k) \<Rightarrow> throw_errno ''fcntl(F_SETFL)'' k
      | (True, k) \<Rightarrow> (Inr (), k)))"

text \<open>
  \<open>make_address\<close> throws with the socket open, and the destructor of an object whose constructor
  throws does not run.
\<close>

definition udp_multicast_receiver :: "string \<Rightarrow> u16 \<Rightarrow> kernel \<Rightarrow> (nat, kernel) result" where
  "udp_multicast_receiver group_ip port k =
     (case sys_open Socket_dgram k of
        (None, k) \<Rightarrow> throw_errno ''socket'' k
      | (Some fd, k) \<Rightarrow>
     (case sys_call (Set_option fd ''SO_REUSEADDR'' 1) k of
        (False, k) \<Rightarrow> close_then_error ''setsockopt(SO_REUSEADDR)'' fd k
      | (True, k) \<Rightarrow>
     (case sys_call (Bind fd [0, 0, 0, 0] port) k of
        (False, k) \<Rightarrow> close_then_error ''bind'' fd k
      | (True, k) \<Rightarrow>
     (case make_address group_ip port of
        Inl e \<Rightarrow> (Inl (Throws e), k)
      | Inr address \<Rightarrow>
     (case sys_call (Add_membership fd (fst address)) k of
        (False, k) \<Rightarrow> close_then_error ''setsockopt(IP_ADD_MEMBERSHIP)'' fd k
      | (True, k) \<Rightarrow>
     (case set_non_blocking fd k of
        (Inl h, k) \<Rightarrow> (Inl h, sys_close fd k)
      | (Inr _, k) \<Rightarrow> (Inr fd, k)))))))"

section \<open>The objects of the two programs\<close>

definition epoll_instance :: "kernel \<Rightarrow> (nat, kernel) result" where
  "epoll_instance k =
     (case sys_open Epoll_create k of
        (None, k) \<Rightarrow> fail ''epoll_create1 failed'' k
      | (Some fd, k) \<Rightarrow> (Inr fd, k))"

definition add_readable_fd :: "nat \<Rightarrow> nat \<Rightarrow> nat \<Rightarrow> kernel \<Rightarrow> (unit, kernel) result" where
  "add_readable_fd epoll_fd fd data k =
     (case sys_call (Epoll_add epoll_fd fd data) k of
        (False, k) \<Rightarrow> fail ''epoll_ctl(EPOLL_CTL_ADD) failed'' k
      | (True, k) \<Rightarrow> (Inr (), k))"

text \<open>The destructors of objects whose constructors have returned.\<close>

definition destroy_udp_multicast_sender :: "nat \<times> nat list \<times> u16 \<Rightarrow> kernel \<Rightarrow> kernel" where
  "destroy_udp_multicast_sender sender k = snd (close_if_open (int (fst sender)) k)"

definition destroy_udp_multicast_receiver :: "nat \<Rightarrow> kernel \<Rightarrow> kernel" where
  "destroy_udp_multicast_receiver receiver k = snd (close_if_open (int receiver) k)"

definition destroy_epoll_instance :: "nat \<Rightarrow> kernel \<Rightarrow> kernel" where
  "destroy_epoll_instance epoll k = sys_close epoll k"

lemma destroy_simps [simp]:
  "destroy_udp_multicast_sender sender k = sys_close (fst sender) k"
  "destroy_udp_multicast_receiver receiver k = sys_close receiver k"
  "destroy_epoll_instance epoll k = sys_close epoll k"
  by (simp_all add: destroy_udp_multicast_sender_def destroy_udp_multicast_receiver_def
      destroy_epoll_instance_def)

text \<open>
  The handler's \<open>main\<close> up to the registration of the receiver. When a later object fails, the
  destructors of the earlier ones run in reverse order. The recovery client has nothing open yet.
\<close>

definition open_feed_handler :: "string \<Rightarrow> u16 \<Rightarrow> kernel \<Rightarrow> (nat \<times> nat, kernel) result" where
  "open_feed_handler group_ip port k =
     (case udp_multicast_receiver group_ip port k of
        (Inl h, k) \<Rightarrow> (Inl h, k)
      | (Inr receiver, k) \<Rightarrow>
     (case epoll_instance k of
        (Inl h, k) \<Rightarrow> (Inl h, destroy_udp_multicast_receiver receiver k)
      | (Inr epoll, k) \<Rightarrow>
     (case add_readable_fd epoll receiver 1 k of
        (Inl h, k) \<Rightarrow> (Inl h, destroy_udp_multicast_receiver receiver (destroy_epoll_instance epoll k))
      | (Inr _, k) \<Rightarrow> (Inr (receiver, epoll), k))))"

text \<open>The simulator's sender and recovery server.\<close>

definition open_exchange ::
    "string \<Rightarrow> u16 \<Rightarrow> u16 \<Rightarrow> kernel \<Rightarrow> ((nat \<times> nat list \<times> u16) \<times> nat, kernel) result" where
  "open_exchange group_ip port recovery_port k =
     (case udp_multicast_sender group_ip port k of
        (Inl h, k) \<Rightarrow> (Inl h, k)
      | (Inr sender, k) \<Rightarrow>
     (case create_listen_socket recovery_port k of
        (Inl h, k) \<Rightarrow> (Inl h, destroy_udp_multicast_sender sender k)
      | (Inr listen_fd, k) \<Rightarrow> (Inr (sender, listen_fd), k)))"

text \<open>
  The last member of \<open>RecoveryServer\<close> is its thread. A thread that cannot be started makes \<open>std::thread\<close>
  throw a \<open>std::system_error\<close>, whose text is that of the error; \<open>errno\<close> plays no part. The destructor of
  the half constructed server does not run, so its listening socket is not closed, and the sender
  is destroyed on the way out of \<open>main\<close>.
\<close>

definition start_thread :: "kernel \<Rightarrow> errno option \<times> kernel" where
  "start_thread k = (verdict k (length (trace k)), k\<lparr>trace := trace k @ [Start_thread]\<rparr>)"

definition start_exchange ::
    "(errno \<Rightarrow> string) \<Rightarrow> string \<Rightarrow> u16 \<Rightarrow> u16 \<Rightarrow> kernel \<Rightarrow>
     ((nat \<times> nat list \<times> u16) \<times> nat, kernel) result" where
  "start_exchange strerror group_ip port recovery_port k =
     (case open_exchange group_ip port recovery_port k of
        (Inl h, k) \<Rightarrow> (Inl h, k)
      | (Inr (sender, listen_fd), k) \<Rightarrow>
     (case start_thread k of
        (Some e, k) \<Rightarrow> (Inl (Throws (Runtime_error (strerror e))), destroy_udp_multicast_sender sender k)
      | (None, k) \<Rightarrow> (Inr (sender, listen_fd), k)))"

text \<open>
  The pinning of the thread, for the result of \<open>sysconf\<close>, the error that \<open>pthread_setaffinity_np\<close>
  returns, if any, and the system's \<open>strerror\<close>.
\<close>

definition pin_current_thread_to_cpu ::
    "int \<Rightarrow> (u64 \<Rightarrow> errno option) \<Rightarrow> (errno \<Rightarrow> string) \<Rightarrow> u64 \<Rightarrow> exn option" where
  "pin_current_thread_to_cpu cpu_count_raw setaffinity strerror cpu_core =
     (if cpu_count_raw \<le> 0
      then Some (Runtime_error ''sysconf(_SC_NPROCESSORS_ONLN) failed'')
      else let cpu_count = nat cpu_count_raw in
      if cpu_count \<le> unat cpu_core
      then Some (Runtime_error (''--cpu-core must be smaller than the online CPU count ('' @
        show_dec cpu_count @ '')''))
      else case setaffinity cpu_core of
        Some e \<Rightarrow> Some (Runtime_error (''pthread_setaffinity_np failed: '' @ strerror e))
      | None \<Rightarrow> None)"

section \<open>What is open afterwards\<close>

lemma lowest_free_fresh: "lowest_free fds \<notin> set fds"
proof -
  let ?free = "filter (\<lambda>n. n \<notin> set fds) [0..<Suc (length fds)]"
  have "?free \<noteq> []"
  proof
    assume "?free = []"
    then have "set [0..<Suc (length fds)] \<subseteq> set fds" by (auto simp: filter_empty_conv simp del: upt_Suc)
    from card_mono [OF _ this] have "Suc (length fds) \<le> card (set fds)" by simp
    then show False using card_length [of fds] by linarith
  qed
  then have "hd ?free \<in> set ?free" by (rule hd_in_set)
  then show ?thesis by (auto simp: lowest_free_def)
qed

lemma close_opened: "filter (\<lambda>n. n \<noteq> lowest_free fds) fds = fds"
  using lowest_free_fresh [of fds] by (auto simp: filter_id_conv)

lemma sys_call_descriptors [simp]: "descriptors (snd (sys_call call k)) = descriptors k"
  by (simp add: sys_call_def split: option.split)

lemma sys_call_frame: "sys_call call k = (b, k') \<Longrightarrow> descriptors k' = descriptors k"
  using sys_call_descriptors [of call k] by simp

lemma sys_close_descriptors [simp]:
  "descriptors (sys_close fd k) = filter (\<lambda>n. n \<noteq> fd) (descriptors k)"
  by (simp add: sys_close_def Let_def)

lemma sys_open_descriptors:
  "sys_open call k = (None, k') \<Longrightarrow> descriptors k' = descriptors k"
  "sys_open call k = (Some fd, k') \<Longrightarrow>
     fd \<notin> set (descriptors k) \<and> descriptors k' = fd # descriptors k"
  using lowest_free_fresh
  by (auto simp: sys_open_def dest!: sys_call_frame split: prod.splits bool.splits)

text \<open>
  An operation that opens descriptors leaves exactly those open when it succeeds and none when it
  throws.
\<close>

fun all_or_nothing :: "('a \<Rightarrow> nat list) \<Rightarrow> nat list \<Rightarrow> ('a, kernel) result \<Rightarrow> bool" where
  "all_or_nothing owned before (Inl h, k) \<longleftrightarrow> descriptors k = before"
| "all_or_nothing owned before (Inr x, k) \<longleftrightarrow>
     descriptors k = owned x @ before \<and> distinct (owned x) \<and> set (owned x) \<inter> set before = {}"

lemma filter_fresh: "fd \<notin> set fds \<Longrightarrow> filter (\<lambda>n. n \<noteq> fd) fds = fds"
  by (auto simp: filter_id_conv)

lemma filter_fresh_pair:
  "fd \<notin> set fds \<Longrightarrow> fd' \<notin> set fds \<Longrightarrow> filter (\<lambda>n. n \<noteq> fd \<and> n \<noteq> fd') fds = fds"
  by (auto simp: filter_id_conv)

text \<open>The exits of the constructors, in these terms.\<close>

lemma exits_all_or_nothing [simp]:
  "descriptors k = before \<Longrightarrow> all_or_nothing owned before (throw_errno action k)"
  "descriptors k = before \<Longrightarrow> all_or_nothing owned before (fail message k)"
  "descriptors k = fd # before \<Longrightarrow> fd \<notin> set before \<Longrightarrow>
     all_or_nothing owned before (close_saving_error action fd k)"
  "descriptors k = fd # before \<Longrightarrow> fd \<notin> set before \<Longrightarrow>
     all_or_nothing owned before (close_then_error action fd k)"
  by (simp_all add: throw_errno_def fail_def close_saving_error_def close_then_error_def filter_fresh)

lemmas setup_splits = prod.split option.split bool.split sum.split

lemmas setup_frames = sys_open_descriptors sys_call_frame

lemma listen_socket_opens:
  "all_or_nothing (\<lambda>fd. [fd]) (descriptors k) (create_listen_socket port k)"
  unfolding create_listen_socket_def
  by (auto dest!: setup_frames split: setup_splits)

lemma sender_opens:
  "all_or_nothing (\<lambda>(fd, destination). [fd]) (descriptors k) (udp_multicast_sender group_ip port k)"
  unfolding udp_multicast_sender_def
  by (auto dest!: setup_frames split: setup_splits)

lemma set_non_blocking_frame: "set_non_blocking fd k = (r, k') \<Longrightarrow> descriptors k' = descriptors k"
  by (auto simp: set_non_blocking_def throw_errno_def dest!: sys_call_frame
      split: prod.splits bool.splits)

lemma receiver_opens:
  "inet_pton group_ip \<noteq> None \<Longrightarrow>
     all_or_nothing (\<lambda>fd. [fd]) (descriptors k) (udp_multicast_receiver group_ip port k)"
  unfolding udp_multicast_receiver_def
  by (auto simp: make_address_def filter_fresh dest!: setup_frames set_non_blocking_frame
      split: setup_splits)

lemma epoll_opens: "all_or_nothing (\<lambda>fd. [fd]) (descriptors k) (epoll_instance k)"
  unfolding epoll_instance_def by (auto dest!: setup_frames split: setup_splits)

lemma add_readable_frame: "add_readable_fd epoll fd n k = (r, k') \<Longrightarrow> descriptors k' = descriptors k"
  by (auto simp: add_readable_fd_def fail_def dest!: sys_call_frame split: prod.splits bool.splits)

text \<open>The results of an operation that is known to be all or nothing.\<close>

lemma all_or_nothing_cases:
  assumes "all_or_nothing owned before r"
  obtains (fails) h k where "r = (Inl h, k)" "descriptors k = before"
  | (opens) x k where "r = (Inr x, k)" "descriptors k = owned x @ before"
      "distinct (owned x)" "set (owned x) \<inter> set before = {}"
proof (cases r)
  case (Pair q k)
  with assms that show thesis by (cases q) auto
qed

lemma feed_handler_opens:
  assumes "inet_pton group_ip \<noteq> None"
  shows "all_or_nothing (\<lambda>(receiver, epoll). [epoll, receiver]) (descriptors k)
    (open_feed_handler group_ip port k)"
  using receiver_opens [OF assms, of k port]
proof (cases rule: all_or_nothing_cases)
  case (fails h k1)
  then show ?thesis by (simp add: open_feed_handler_def)
next
  case (opens receiver k1)
  note receiver = opens
  show ?thesis
    using epoll_opens [of k1]
  proof (cases rule: all_or_nothing_cases)
    case (fails h k2)
    with receiver show ?thesis by (simp add: open_feed_handler_def filter_fresh)
  next
    case (opens epoll k2)
    with receiver show ?thesis
      by (auto simp: open_feed_handler_def filter_fresh_pair dest!: add_readable_frame
          split: prod.split sum.split)
  qed
qed

lemma exchange_opens:
  "all_or_nothing (\<lambda>(sender, listen_fd). [listen_fd, fst sender]) (descriptors k)
    (open_exchange group_ip port recovery_port k)"
  using sender_opens [of k group_ip port]
proof (cases rule: all_or_nothing_cases)
  case (fails h k1)
  then show ?thesis by (simp add: open_exchange_def)
next
  case (opens sender k1)
  note sender = opens
  show ?thesis
    using listen_socket_opens [of k1 recovery_port]
  proof (cases rule: all_or_nothing_cases)
    case (fails h k2)
    with sender show ?thesis by (auto simp: open_exchange_def filter_fresh split: prod.splits)
  next
    case (opens listen_fd k2)
    with sender show ?thesis by (auto simp: open_exchange_def split: prod.splits)
  qed
qed

text \<open>The start of the simulator, with the descriptor that a failure to start the thread leaves open.\<close>

lemma start_exchange_cases:
  obtains (fails) h k' where "start_exchange strerror group_ip port recovery_port k = (Inl h, k')"
      and "fst (open_exchange group_ip port recovery_port k) = Inl h"
      and "descriptors k' = descriptors k"
  | (no_thread) sender listen_fd k1 e k' where
      "start_exchange strerror group_ip port recovery_port k =
        (Inl (Throws (Runtime_error (strerror e))), k')"
      and "open_exchange group_ip port recovery_port k = (Inr (sender, listen_fd), k1)"
      and "verdict k1 (length (trace k1)) = Some e" and "descriptors k' = listen_fd # descriptors k"
  | (starts) sender listen_fd k1 k' where
      "start_exchange strerror group_ip port recovery_port k = (Inr (sender, listen_fd), k')"
      and "open_exchange group_ip port recovery_port k = (Inr (sender, listen_fd), k1)"
      and "verdict k1 (length (trace k1)) = None"
      and "descriptors k' = [listen_fd, fst sender] @ descriptors k"
      and "distinct [listen_fd, fst sender]" and "{listen_fd, fst sender} \<inter> set (descriptors k) = {}"
  using exchange_opens [of k group_ip port recovery_port]
proof (cases rule: all_or_nothing_cases)
  case (fails h k1)
  then show thesis by (intro that(1) [of h k1]) (simp_all add: start_exchange_def)
next
  case (opens x k1)
  obtain sender listen_fd where x: "x = (sender, listen_fd)" by (cases x)
  let ?k = "k1\<lparr>trace := trace k1 @ [Start_thread]\<rparr>"
  have fresh: "descriptors k1 = [listen_fd, fst sender] @ descriptors k" "distinct [listen_fd, fst sender]"
    "{listen_fd, fst sender} \<inter> set (descriptors k) = {}"
    using opens by (simp_all add: x)
  show thesis
  proof (cases "verdict k1 (length (trace k1))")
    case None
    with opens(1) fresh show thesis
      by (intro that(3) [of sender listen_fd ?k k1]) (simp_all add: start_exchange_def start_thread_def x)
  next
    case (Some e)
    with opens(1) fresh show thesis
      by (intro that(2) [of e "destroy_udp_multicast_sender sender ?k" sender listen_fd k1])
        (auto simp: start_exchange_def start_thread_def x destroy_udp_multicast_sender_def filter_fresh)
  qed
qed

section \<open>Property of the setup\<close>

text \<open>
  C40. Whichever system call fails, the simulator's sender and server and the handler's receiver
  and epoll instance are opened completely or not at all: no descriptor is left behind by a
  failure. There are two exceptions. The receiver of an invalid multicast group throws in its
  constructor with the socket open; and when the recovery server's thread cannot be started, the
  server's constructor throws with the listening socket open.
\<close>

theorem sockets_all_or_nothing:
  "all_or_nothing (\<lambda>(sender, listen_fd). [listen_fd, fst sender]) (descriptors k)
     (open_exchange group_ip port recovery_port k) \<and>
   (inet_pton group_ip \<noteq> None \<longrightarrow>
     all_or_nothing (\<lambda>(receiver, epoll). [epoll, receiver]) (descriptors k)
       (open_feed_handler group_ip port k)) \<and>
   (inet_pton group_ip = None \<and> (\<forall>i. verdict k i = None) \<longrightarrow>
     (\<exists>k'. open_feed_handler group_ip port k =
         (Inl (Throws (Runtime_error (''invalid multicast group: '' @ group_ip))), k') \<and>
       descriptors k' = lowest_free (descriptors k) # descriptors k)) \<and>
   (case open_exchange group_ip port recovery_port k of
      (Inl h, k1) \<Rightarrow> start_exchange strerror group_ip port recovery_port k = (Inl h, k1)
    | (Inr (sender, listen_fd), k1) \<Rightarrow>
        (case verdict k1 (length (trace k1)) of
           None \<Rightarrow> all_or_nothing (\<lambda>(sender, listen_fd). [listen_fd, fst sender]) (descriptors k)
             (start_exchange strerror group_ip port recovery_port k)
         | Some e \<Rightarrow> \<exists>k'. start_exchange strerror group_ip port recovery_port k =
             (Inl (Throws (Runtime_error (strerror e))), k') \<and>
             descriptors k' = listen_fd # descriptors k))"
proof (intro conjI impI)
  show "case open_exchange group_ip port recovery_port k of
      (Inl h, k1) \<Rightarrow> start_exchange strerror group_ip port recovery_port k = (Inl h, k1)
    | (Inr (sender, listen_fd), k1) \<Rightarrow>
        (case verdict k1 (length (trace k1)) of
           None \<Rightarrow> all_or_nothing (\<lambda>(sender, listen_fd). [listen_fd, fst sender]) (descriptors k)
             (start_exchange strerror group_ip port recovery_port k)
         | Some e \<Rightarrow> \<exists>k'. start_exchange strerror group_ip port recovery_port k =
             (Inl (Throws (Runtime_error (strerror e))), k') \<and>
             descriptors k' = listen_fd # descriptors k)"
    by (cases rule: start_exchange_cases [of strerror group_ip port recovery_port k])
      (auto simp: start_exchange_def split: prod.splits sum.splits)
  assume "inet_pton group_ip = None \<and> (\<forall>i. verdict k i = None)"
  then show "\<exists>k'. open_feed_handler group_ip port k =
      (Inl (Throws (Runtime_error (''invalid multicast group: '' @ group_ip))), k') \<and>
    descriptors k' = lowest_free (descriptors k) # descriptors k"
    by (simp add: open_feed_handler_def udp_multicast_receiver_def sys_open_def sys_call_def
        make_address_def)
qed (simp_all add: exchange_opens feed_handler_opens)

theorem sockets_all_or_nothing_witness:
  "\<exists>k'. open_feed_handler ''239.255.42'' 30001
      \<lparr>verdict = (\<lambda>i. None), errno_cell = EINTR, trace = [], descriptors = [0, 1, 2]\<rparr> =
    (Inl (Throws (Runtime_error ''invalid multicast group: 239.255.42'')), k') \<and>
   descriptors k' = [3, 0, 1, 2]"
proof -
  let ?k = "\<lparr>verdict = (\<lambda>i. None), errno_cell = EINTR, trace = [], descriptors = [0, 1, 2]\<rparr>"
  have "inet_pton ''239.255.42'' = None" by code_simp
  moreover have "lowest_free [0, 1, 2] = 3" by code_simp
  ultimately show ?thesis
    using sockets_all_or_nothing [of ?k "''239.255.42''" 30001 0] by simp
qed

end
