(* ===== verification/Handler_Correct.thy ===== *)
theory Handler_Correct
  imports Feed_Loop
begin

text \<open>
  Properties of the feed handler that hold for every input, whoever sends it: what is discarded,
  what stops the handler, how far it counts, and what benchmark mode changes.
\<close>

section \<open>Limits and counters\<close>

text \<open>
  The three packet counters add up, the message counter does not pass the limit, and the
  containers keep their order.
\<close>

definition feed_inv :: "'c feed_env \<Rightarrow> 'c feed_state \<Rightarrow> bool" where
  "feed_inv env s \<longleftrightarrow>
     live_packets s + replay_packets s + drain_packets s = processed_packets s \<and>
     (opt_messages env \<noteq> 0 \<longrightarrow> received_messages s \<le> opt_messages env) \<and>
     book_wf (order_book s) \<and> om_inv (buffered_packets s)"

lemma and_then_keeps:
  "P (snd r) \<Longrightarrow> (\<And>s. P s \<Longrightarrow> P (snd (k s))) \<Longrightarrow> P (snd (and_then r k))"
  by (cases r; cases "fst r") auto

lemma feed_inv_frames [feed_simps]:
  "feed_inv env (print_verbose env l s) \<longleftrightarrow> feed_inv env s"
  "feed_inv env (print_error l s) \<longleftrightarrow> feed_inv env s"
  "feed_inv env (s\<lparr>replay_requests := n\<rparr>) \<longleftrightarrow> feed_inv env s"
  "feed_inv env (s\<lparr>out_of_order_packets := n\<rparr>) \<longleftrightarrow> feed_inv env s"
  "feed_inv env (s\<lparr>recovery_client := c\<rparr>) \<longleftrightarrow> feed_inv env s"
  by (simp_all add: feed_inv_def feed_simps print_error_def)

lemma feed_inv_init: "feed_inv env (init_feed c)"
  by (simp add: feed_inv_def init_feed_def book_wf_empty)

lemma below_limit_succ:
  "\<not> limit_reached env s \<Longrightarrow> opt_messages env \<noteq> 0 \<Longrightarrow> received_messages s + 1 \<le> opt_messages env"
  by (simp add: limit_reached_def inc_le not_le)

lemma feed_inv_message:
  "feed_inv env s \<Longrightarrow> \<not> limit_reached env s \<Longrightarrow> feed_inv env (process_message env src q t i m s)"
  using below_limit_succ [of env s] by (auto simp: feed_inv_def feed_simps book_wf_apply)

lemma feed_inv_messages:
  "feed_inv env s \<Longrightarrow> \<not> limit_reached env s \<Longrightarrow>
     feed_inv env (snd (process_messages env src q t pv i n s))"
  by (induction env src q t pv i n s rule: process_messages.induct)
    (auto simp: Let_def feed_inv_message split: option.split)

lemma feed_inv_finish: "feed_inv env s \<Longrightarrow> feed_inv env (finish_packet env src q t s)"
  by (auto simp: feed_inv_def finish_packet_def count_packet_def Let_def add.assoc
      split: packet_source.split)

lemma feed_inv_packet:
  assumes "feed_inv env s" and "\<not> limit_reached env s"
  shows "feed_inv env (snd (process_packet_bytes env bs src s))"
proof -
  have "feed_inv env (snd (process_messages env src q t pv i n (print_verbose env l s)))" for q t pv i n l
    using assms by (intro feed_inv_messages) (simp_all add: limit_reached_def feed_simps)
  then have "feed_inv env (snd (and_then (process_messages env src q t pv i n (print_verbose env l s))
      (\<lambda>s. (None, finish_packet env src q t s))))" for q t pv i n l
    by (rule and_then_keeps) (simp add: feed_inv_finish)
  with assms(1) show ?thesis
    by (simp add: process_packet_bytes_def Let_def split: option.split)
qed

lemma feed_inv_drain: "feed_inv env s \<Longrightarrow> feed_inv env (snd (drain_buffered_packets env s))"
proof (induction env s rule: drain_buffered_packets.induct)
  case (1 env s)
  show ?case
  proof (cases "limit_reached env s \<or> om_find (buffered_packets s) (expected_packet_seq s) = None")
    case True
    with "1.prems" show ?thesis by (subst drain_buffered_packets.simps) auto
  next
    case False
    then obtain bs where bs: "om_find (buffered_packets s) (expected_packet_seq s) = Some bs"
      and below: "\<not> limit_reached env s" by auto
    let ?s = "s\<lparr>buffered_packets := om_erase (expected_packet_seq s) (buffered_packets s)\<rparr>"
    obtain h t where run: "process_packet_bytes env bs Drain ?s = (h, t)"
      by (cases "process_packet_bytes env bs Drain ?s")
    have "feed_inv env ?s" using "1.prems" by (simp add: feed_inv_def map_simps)
    moreover have "\<not> limit_reached env ?s" using below by (simp add: limit_reached_def)
    ultimately have "feed_inv env t" using feed_inv_packet [of env ?s bs Drain] run by simp
    with "1.IH" [OF below bs run [symmetric]] bs below run show ?thesis
      by (subst drain_buffered_packets.simps) (auto split: option.split)
  qed
qed

lemma feed_inv_batch: "feed_inv env s \<Longrightarrow> feed_inv env (snd (process_replay_batch env batch s))"
proof (induction batch arbitrary: s)
  case (Cons p batch)
  then show ?case
    using feed_inv_packet [of env s p Replay] by (auto intro: and_then_keeps)
qed simp

lemma feed_inv_replay: "feed_inv env s \<Longrightarrow> feed_inv env (snd (request_replay env lo hi s))"
proof -
  assume inv: "feed_inv env s"
  have "feed_inv env (snd (and_then (process_replay_batch env batch t) (drain_buffered_packets env)))"
    if "feed_inv env t" for batch t
    using feed_inv_batch [OF that] feed_inv_drain by (rule and_then_keeps)
  with inv show ?thesis
    by (auto simp: request_replay_def Let_def feed_simps split: prod.split sum.split)
qed

lemma feed_inv_datagram:
  assumes "feed_inv env s" and "\<not> limit_reached env s"
  shows "feed_inv env (snd (handle_datagram env bs s))"
proof -
  have "feed_inv env (snd (and_then (process_packet_bytes env bs Live s) (drain_buffered_packets env)))"
    using feed_inv_packet [OF assms] feed_inv_drain by (rule and_then_keeps)
  moreover have "feed_inv env (s\<lparr>out_of_order_packets := n, buffered_packets := om_assign k bs b\<rparr>)"
    if "b = buffered_packets s" for n k b
    using assms(1) that by (simp add: feed_inv_def map_simps)
  ultimately show ?thesis
    using assms(1)
    by (auto simp: handle_datagram_def Let_def feed_simps intro!: feed_inv_replay split: option.split)
qed

lemma feed_inv_receive: "feed_inv env s \<Longrightarrow> feed_inv env (snd (receive_loop env answers s))"
proof (induction answers arbitrary: s)
  case (Cons answer answers)
  show ?case
  proof (cases "limit_reached env s")
    case False
    have "feed_inv env (snd (and_then (handle_datagram env bs s) (receive_loop env answers)))" for bs
      using feed_inv_datagram [OF Cons.prems False] Cons.IH by (rule and_then_keeps)
    with Cons.prems False show ?thesis by (simp split: sum.split option.split)
  qed (use Cons.prems in simp)
qed simp

lemma feed_inv_events: "feed_inv env s \<Longrightarrow> feed_inv env (snd (event_loop env events s))"
proof (induction events arbitrary: s)
  case (Cons e events)
  have "feed_inv env (snd (and_then (receive_loop env (event_queue e) s) (event_loop env events)))"
    using feed_inv_receive [OF Cons.prems] Cons.IH by (rule and_then_keeps)
  with Cons show ?case by simp
qed simp

lemma feed_inv_main: "feed_inv env s \<Longrightarrow> feed_inv env (snd (main_loop env answers s))"
proof (induction answers arbitrary: s)
  case (Cons answer answers)
  have "feed_inv env (snd (and_then (event_loop env events s) (main_loop env answers)))" for events
    using feed_inv_events [OF Cons.prems] Cons.IH by (rule and_then_keeps)
  with Cons show ?case by (cases answer) simp_all
qed simp

lemma main_loop_returns_at_limit: "main_loop env answers s = (None, t) \<Longrightarrow> limit_reached env t"
proof (induction answers arbitrary: s)
  case (Cons answer answers)
  then show ?case
    by (cases answer) (auto simp: and_then_None_iff throw_def split: if_splits)
qed (auto split: if_splits)

section \<open>The out-of-order buffer\<close>

lemma process_packet_advances:
  assumes "process_packet_bytes env bs src s = (None, t)"
  shows "expected_packet_seq t = expected_packet_seq s + 1 \<and> buffered_packets t = buffered_packets s"
  using assms process_packet_frame(1) [of env bs src s]
  by (auto simp: process_packet_bytes_def Let_def throw_def and_then_None_iff feed_simps
      split: option.splits if_splits)

lemma replay_batch_advances:
  "process_replay_batch env batch s = (None, t) \<Longrightarrow> \<not> limit_reached env t \<Longrightarrow>
     expected_packet_seq t = expected_packet_seq s + of_nat (length batch) \<and>
     buffered_packets t = buffered_packets s"
  by (induction batch arbitrary: s)
    (auto simp: and_then_None_iff split: if_splits dest!: process_packet_advances)

lemma replay_batch_buffer:
  "buffered_packets (snd (process_replay_batch env batch s)) = buffered_packets s"
proof (induction batch arbitrary: s)
  case (Cons p batch)
  have "buffered_packets (snd (and_then (process_packet_bytes env p Replay s)
      (process_replay_batch env batch))) = buffered_packets s"
    by (rule and_then_keeps [of "\<lambda>u. buffered_packets u = buffered_packets s"])
      (simp_all add: process_packet_frame Cons.IH)
  then show ?case by simp
qed simp

lemma drain_single:
  assumes "drain_buffered_packets env s = (None, t)"
    and "buffered_packets s = [] \<or> (\<exists>bs. buffered_packets s = [(expected_packet_seq s, bs)])"
  shows "buffered_packets t = [] \<or> limit_reached env t"
proof (cases "limit_reached env s \<or> buffered_packets s = []")
  case True
  with assms(1) show ?thesis
    by (auto simp: drain_buffered_packets.simps [of env s] om.find_empty split: if_splits)
next
  case False
  with assms(2) obtain bs where bs: "buffered_packets s = [(expected_packet_seq s, bs)]" by auto
  with False assms(1) obtain u where u: "process_packet_bytes env bs Drain (s\<lparr>buffered_packets := []\<rparr>) = (None, u)"
    "drain_buffered_packets env u = (None, t)"
    by (subst (asm) drain_buffered_packets.simps)
      (auto simp: om_find_def split: prod.splits option.splits)
  from process_packet_advances [OF u(1)] have "buffered_packets u = []" by simp
  with u(2) show ?thesis
    by (subst (asm) drain_buffered_packets.simps) (auto simp: om.find_empty split: if_splits)
qed

lemma request_replay_answered:
  assumes "request_replay env lo hi s = (None, t)" and "lo \<le> hi" and "\<not> limit_reached env s"
  shows "\<exists>v batch. expected_packet_seq v = expected_packet_seq s \<and>
    buffered_packets v = buffered_packets s \<and> length batch = unat (hi - lo) + 1 \<and>
    and_then (process_replay_batch env batch v) (drain_buffered_packets env) = (None, t)"
proof -
  obtain batch c where "request_packets env lo hi (recovery_client s) = (Inr batch, c)"
    using assms leD [OF assms(2)]
    by (auto simp: request_replay_def Let_def feed_simps split: prod.splits sum.splits)
  with assms leD [OF assms(2)] show ?thesis
    by (intro exI [of _ "(print_verbose env (''requesting replay for packets '' @ show_word lo @
        '' to '' @ show_word hi @ '' over TCP'')
        (s\<lparr>replay_requests := replay_requests s + 1\<rparr>))\<lparr>recovery_client := c\<rparr>"] exI [of _ batch])
      (auto simp: request_replay_def Let_def feed_simps throw_def split: if_splits)
qed

lemma early_datagram:
  assumes "parse_packet bs = Some packet" and "expected_packet_seq s < decode_seq_num (the (pv_header packet))"
    and "buffered_packets s = []"
  shows "\<exists>u. handle_datagram env bs s =
      request_replay env (expected_packet_seq s) (decode_seq_num (the (pv_header packet)) - 1) u \<and>
    expected_packet_seq u = expected_packet_seq s \<and>
    buffered_packets u = [(decode_seq_num (the (pv_header packet)), bs)]"
  using assms order_less_not_sym [OF assms(2)]
  by (auto simp: handle_datagram_def Let_def feed_simps intro!: exI)

lemma replay_single:
  assumes run: "request_replay env (expected_packet_seq s) (k - 1) s = (None, t)"
    and k: "expected_packet_seq s < k" and buffer: "buffered_packets s = [(k, bs)]"
  shows "buffered_packets t = [] \<or> limit_reached env t"
proof -
  let ?lo = "expected_packet_seq s"
  have le: "?lo \<le> k - 1" using k unat_sub [of 1 k] by (simp add: word_less_nat_alt word_le_nat_alt)
  show ?thesis
  proof (cases "limit_reached env s")
    case True
    with run show ?thesis by (auto simp: request_replay_def split: if_splits)
  next
    case False
    obtain v batch where v: "expected_packet_seq v = ?lo" "buffered_packets v = [(k, bs)]"
      and len: "length batch = unat (k - 1 - ?lo) + 1"
      and rest: "and_then (process_replay_batch env batch v) (drain_buffered_packets env) = (None, t)"
      using request_replay_answered [OF run le False] buffer by auto
    then obtain u where u: "process_replay_batch env batch v = (None, u)"
      "drain_buffered_packets env u = (None, t)"
      by (auto simp: and_then_None_iff)
    show ?thesis
    proof (cases "limit_reached env u")
      case True
      with u(2) show ?thesis by (subst (asm) drain_buffered_packets.simps) simp
    next
      case limit: False
      have "expected_packet_seq u = k" "buffered_packets u = [(k, bs)]"
        using replay_batch_advances [OF u(1) limit] v len by simp_all
      with drain_single [OF u(2)] show ?thesis by simp
    qed
  qed
qed

lemma handle_datagram_empties:
  assumes run: "handle_datagram env bs s = (None, t)" and empty: "buffered_packets s = []"
  shows "buffered_packets t = [] \<or> limit_reached env t"
proof (cases "parse_packet bs")
  case None
  with assms show ?thesis by (auto simp: handle_datagram_def print_error_def)
next
  case (Some packet)
  let ?q = "decode_seq_num (the (pv_header packet))"
  consider "?q < expected_packet_seq s" | "expected_packet_seq s < ?q" | "?q = expected_packet_seq s"
    by fastforce
  then show ?thesis
  proof cases
    case 1
    with assms Some show ?thesis by (auto simp: handle_datagram_def print_error_def Let_def)
  next
    case 2
    from early_datagram [OF Some this empty] run
    obtain u where "request_replay env (expected_packet_seq u) (?q - 1) u = (None, t)"
      "expected_packet_seq u = expected_packet_seq s" "buffered_packets u = [(?q, bs)]"
      by (metis (no_types))
    with replay_single [of env u ?q t bs] 2 show ?thesis by simp
  next
    case 3
    then obtain u where u: "process_packet_bytes env bs Live s = (None, u)"
      "drain_buffered_packets env u = (None, t)"
      using run Some by (auto simp: handle_datagram_def Let_def and_then_None_iff)
    with process_packet_advances [OF u(1)] empty drain_single [OF u(2)] show ?thesis by simp
  qed
qed

section \<open>Benchmark mode\<close>

text \<open>Benchmark mode is the handler without its log: \<open>silence\<close> forgets what was printed.\<close>

definition silence :: "'c feed_state \<Rightarrow> 'c feed_state" where
  "silence s = s\<lparr>cout := []\<rparr>"

definition silenced :: "'c feed_state outcome \<Rightarrow> 'c feed_state outcome" where
  "silenced r = (fst r, silence (snd r))"

abbreviation benchmark :: "'c feed_env \<Rightarrow> 'c feed_env" where
  "benchmark env \<equiv> env\<lparr>opt_benchmark := True\<rparr>"

lemma silence_fields [simp]:
  "order_book (silence s) = order_book s"
  "buffered_packets (silence s) = buffered_packets s"
  "packet_latency_cycles (silence s) = packet_latency_cycles s"
  "bbo_update_latency_cycles (silence s) = bbo_update_latency_cycles s"
  "received_messages (silence s) = received_messages s"
  "expected_packet_seq (silence s) = expected_packet_seq s"
  "recovery_client (silence s) = recovery_client s"
  "processed_packets (silence s) = processed_packets s"
  "live_packets (silence s) = live_packets s"
  "replay_packets (silence s) = replay_packets s"
  "drain_packets (silence s) = drain_packets s"
  "replay_requests (silence s) = replay_requests s"
  "out_of_order_packets (silence s) = out_of_order_packets s"
  "tsc_reads (silence s) = tsc_reads s"
  "cerr (silence s) = cerr s"
  by (simp_all add: silence_def)

lemma silence_print [simp]:
  "silence (print_verbose env l s) = silence s"
  "print_verbose (benchmark env) l s = s"
  "silence (print_error l s) = print_error l (silence s)"
  "limit_reached (benchmark env) s = limit_reached env s"
  "limit_reached env (silence s) = limit_reached env s"
  by (simp_all add: print_verbose_def verbose_def print_error_def silence_def limit_reached_def)

lemma silenced_simps [simp]:
  "silenced (h, s) = (h, silence s)"
  "silenced (throw m s) = throw m (silence s)"
  by (simp_all add: silenced_def throw_def)

lemma silenced_and_then:
  "silenced r = r' \<Longrightarrow> (\<And>s. silenced (k s) = k' (silence s)) \<Longrightarrow>
     silenced (and_then r k) = and_then r' k'"
  by (cases r; cases "fst r") auto

lemma silenced_message:
  "silence (process_message env src q t i m s) = process_message (benchmark env) src q t i m (silence s)"
  by (simp add: process_message_def book_apply_def Let_def) (simp add: silence_def)

lemma silenced_messages:
  "silenced (process_messages env src q t pv i n s) =
     process_messages (benchmark env) src q t pv i n (silence s)"
proof (induction n arbitrary: i s)
  case (Suc n)
  have "limit_reached env (process_message (benchmark env) src q t i m (silence s)) =
      limit_reached env (process_message env src q t i m s)" for m
    by (simp add: limit_reached_def feed_simps)
  with Suc show ?case
    by (simp add: Let_def silenced_message split: option.split)
qed simp

lemma silenced_finish:
  "silence (finish_packet env src q t s) = finish_packet (benchmark env) src q t (silence s)"
  by (simp add: finish_packet_def count_packet_def Let_def silence_def split: packet_source.split)

lemma silenced_packet:
  "silenced (process_packet_bytes env bs src s) = process_packet_bytes (benchmark env) bs src (silence s)"
proof -
  have "silenced (and_then (process_messages env src q t pv i n (print_verbose env l s))
        (\<lambda>s. (None, finish_packet env src q t s))) =
      and_then (process_messages (benchmark env) src q t pv i n (silence s))
        (\<lambda>s. (None, finish_packet (benchmark env) src q t s))" for q t pv i n l
    by (rule silenced_and_then) (simp_all add: silenced_messages silenced_finish)
  then show ?thesis
    by (simp add: process_packet_bytes_def Let_def split: option.split)
qed

lemma silenced_drain:
  "silenced (drain_buffered_packets env s) = drain_buffered_packets (benchmark env) (silence s)"
proof (induction env s rule: drain_buffered_packets.induct)
  case (1 env s)
  show ?case
  proof (cases "limit_reached env s \<or> om_find (buffered_packets s) (expected_packet_seq s) = None")
    case True
    then show ?thesis
      by (auto simp: drain_buffered_packets.simps [of _ s] drain_buffered_packets.simps [of _ "silence s"])
  next
    case False
    then obtain bs where bs: "om_find (buffered_packets s) (expected_packet_seq s) = Some bs"
      and below: "\<not> limit_reached env s" by auto
    let ?m = "om_erase (expected_packet_seq s) (buffered_packets s)"
    have erased: "silence (s\<lparr>buffered_packets := ?m\<rparr>) = silence s\<lparr>buffered_packets := ?m\<rparr>"
      by (simp add: silence_def)
    obtain h t where run: "process_packet_bytes env bs Drain (s\<lparr>buffered_packets := ?m\<rparr>) = (h, t)"
      by (cases "process_packet_bytes env bs Drain (s\<lparr>buffered_packets := ?m\<rparr>)")
    with silenced_packet [of env bs Drain "s\<lparr>buffered_packets := ?m\<rparr>"]
    have "process_packet_bytes (benchmark env) bs Drain (silence s\<lparr>buffered_packets := ?m\<rparr>) = (h, silence t)"
      by (simp add: erased)
    with "1.IH" [OF below bs run [symmetric]] bs below run show ?thesis
      by (simp add: drain_buffered_packets.simps [of env s]
          drain_buffered_packets.simps [of "benchmark env" "silence s"] split: option.split)
  qed
qed

lemma silenced_batch:
  "silenced (process_replay_batch env batch s) = process_replay_batch (benchmark env) batch (silence s)"
  by (induction batch arbitrary: s) (auto intro!: silenced_and_then silenced_packet)

lemma silenced_replay:
  "silenced (request_replay env lo hi s) = request_replay (benchmark env) lo hi (silence s)"
proof -
  have "silenced (and_then (process_replay_batch env batch u) (drain_buffered_packets env)) =
      and_then (process_replay_batch (benchmark env) batch (silence u)) (drain_buffered_packets (benchmark env))"
    for batch u
    by (rule silenced_and_then) (simp_all add: silenced_batch silenced_drain)
  moreover have "silence (s\<lparr>replay_requests := n, recovery_client := c\<rparr>) =
      silence s\<lparr>replay_requests := n, recovery_client := c\<rparr>" for n c
    by (simp add: silence_def)
  moreover have "silence ((print_verbose env l (s\<lparr>replay_requests := n\<rparr>))\<lparr>recovery_client := c\<rparr>) =
      silence s\<lparr>replay_requests := n, recovery_client := c\<rparr>" for l n c
    by (simp add: silence_def print_verbose_def)
  ultimately show ?thesis
    by (simp add: request_replay_def Let_def feed_simps split: prod.split sum.split)
qed

lemma silenced_datagram:
  "silenced (handle_datagram env bs s) = handle_datagram (benchmark env) bs (silence s)"
proof -
  have "silenced (and_then (process_packet_bytes env bs Live s) (drain_buffered_packets env)) =
      and_then (process_packet_bytes (benchmark env) bs Live (silence s)) (drain_buffered_packets (benchmark env))"
    by (rule silenced_and_then) (simp_all add: silenced_packet silenced_drain)
  moreover have "silence (s\<lparr>out_of_order_packets := n, buffered_packets := b\<rparr>) =
      silence s\<lparr>out_of_order_packets := n, buffered_packets := b\<rparr>" for n b
    by (simp add: silence_def)
  ultimately show ?thesis
    by (simp add: handle_datagram_def Let_def feed_simps silenced_replay split: option.split)
qed

lemma silenced_receive:
  "silenced (receive_loop env answers s) = receive_loop (benchmark env) answers (silence s)"
  by (induction answers arbitrary: s)
    (auto intro!: silenced_and_then silenced_datagram split: sum.split option.split)

lemma silenced_events:
  "silenced (event_loop env events s) = event_loop (benchmark env) events (silence s)"
  by (induction events arbitrary: s) (auto intro!: silenced_and_then silenced_receive)

lemma silenced_main:
  "silenced (main_loop env answers s) = main_loop (benchmark env) answers (silence s)"
proof (induction answers arbitrary: s)
  case (Cons answer answers)
  then show ?case by (cases answer) (auto intro!: silenced_and_then silenced_events)
qed simp

section \<open>A malformed message\<close>

text \<open>
  What the message loop of a packet does when \<open>ms\<close> are left before a message that is not recognised:
  it throws there, or it ends at the limit before.
\<close>

definition stops_at_bad_message ::
    "'c feed_env \<Rightarrow> string \<Rightarrow> message list \<Rightarrow> 'c feed_state \<Rightarrow> 'c feed_state outcome \<Rightarrow> bool" where
  "stops_at_bad_message env report ms s r \<longleftrightarrow>
     expected_packet_seq (snd r) = expected_packet_seq s \<and>
     (if opt_messages env = 0 \<or> unat (received_messages s) + length ms < unat (opt_messages env)
      then fst r = Some (Throws (Runtime_error report)) \<and>
        order_book (snd r) = apply_messages ms (order_book s)
      else fst r = None \<and> received_messages (snd r) = opt_messages env \<and>
        order_book (snd r) =
          apply_messages (take (unat (opt_messages env) - unat (received_messages s)) ms) (order_book s))"

lemma below_limit: "\<not> limit_reached env s \<longleftrightarrow>
    opt_messages env = 0 \<or> unat (received_messages s) < unat (opt_messages env)"
  by (simp add: limit_reached_def word_le_nat_alt not_le)

lemma one_message_more:
  assumes "\<not> limit_reached env s" and "opt_messages env \<noteq> 0"
    and "received_messages t = received_messages s + 1"
  shows "unat (received_messages t) = Suc (unat (received_messages s))"
    and "unat (opt_messages env) - unat (received_messages s) =
      Suc (unat (opt_messages env) - unat (received_messages t))"
    and "limit_reached env t \<longleftrightarrow> received_messages t = opt_messages env"
proof -
  have less: "unat (received_messages s) < unat (opt_messages env)"
    using assms(1,2) by (simp add: below_limit)
  then show count: "unat (received_messages t) = Suc (unat (received_messages s))"
    using assms(3) unsigned_less [where 'a = nat, of "opt_messages env"] by (simp add: unat_word_ariths)
  then show "unat (opt_messages env) - unat (received_messages s) =
      Suc (unat (opt_messages env) - unat (received_messages t))"
    using less by linarith
  show "limit_reached env t \<longleftrightarrow> received_messages t = opt_messages env"
    using less count assms(2) by (auto simp: limit_reached_def word_le_nat_alt word_unat_eq_iff)
qed

abbreviation malformed_report :: "packet_source \<Rightarrow> u32 \<Rightarrow> nat \<Rightarrow> string" where
  "malformed_report src q i \<equiv> ''malformed message from '' @ packet_source_to_string src @
     '' packet seq='' @ show_word q @ '' at index='' @ show_dec i"

lemma process_messages_stops:
  assumes good: "\<And>i. i < length ms \<Longrightarrow> message_at pv i = Some (ms ! i)"
    and bad: "message_at pv (length ms) = None"
  shows "i + j = length ms \<Longrightarrow> j < n \<Longrightarrow> \<not> limit_reached env s \<Longrightarrow>
    stops_at_bad_message env (malformed_report src q (length ms)) (drop i ms) s
      (process_messages env src q tsc pv i n s)"
proof (induction j arbitrary: i n s)
  case 0
  then obtain k where n: "n = Suc k" by (cases n) auto
  show ?case
    using 0 bad by (simp add: n stops_at_bad_message_def throw_def book_simps below_limit)
next
  case (Suc j)
  obtain k where n: "n = Suc k" using Suc.prems(2) by (cases n) auto
  let ?s = "process_message env src q tsc i (ms ! i) s"
  have drop: "drop i ms = ms ! i # drop (Suc i) ms"
    using Suc.prems by (simp add: Cons_nth_drop_Suc)
  have "received_messages ?s = received_messages s + 1" by (simp add: feed_simps)
  note more = one_message_more [OF Suc.prems(3) _ this]
  have run: "process_messages env src q tsc pv i n s =
      (if limit_reached env ?s then (None, ?s) else process_messages env src q tsc pv (Suc i) k ?s)"
    using Suc.prems(1) good [of i] by (simp add: n Let_def)
  show ?case
  proof (cases "limit_reached env ?s")
    case True
    then have limit: "opt_messages env \<noteq> 0" by (simp add: limit_reached_def)
    with run True more [OF limit] Suc.prems(1) show ?thesis
      by (simp add: stops_at_bad_message_def feed_simps drop book_simps)
  next
    case False
    with Suc.IH [of "Suc i" k ?s] Suc.prems run n
    have "stops_at_bad_message env (malformed_report src q (length ms)) (drop (Suc i) ms) ?s
        (process_messages env src q tsc pv i n s)" by simp
    then show ?thesis
      using more(1,2)
      by (cases "opt_messages env = 0")
        (simp_all add: stops_at_bad_message_def feed_simps drop book_simps split: if_splits)
  qed
qed

text \<open>The same for a datagram with the expected number: after the limit nothing is drained.\<close>

lemma handle_datagram_stops:
  assumes "\<not> limit_reached env s" and "parse_packet bs = Some pv" and "pv_header pv = Some h"
    and "decode_seq_num h = expected_packet_seq s" and "length ms < unat (decode_msg_count h)"
    and "\<And>i. i < length ms \<Longrightarrow> message_at pv i = Some (ms ! i)"
    and "message_at pv (length ms) = None"
  obtains r where "stops_at_bad_message env (malformed_report Live (expected_packet_seq s) (length ms)) ms s r"
    and "handle_datagram env bs s = (if fst r = None
      then (None, finish_packet env Live (decode_seq_num h) (decode_publish_tsc h) (snd r)) else r)"
proof -
  define u where "u = print_verbose env (''live packet seq='' @ show_word (decode_seq_num h) @
    '' msg_count='' @ show_word (decode_msg_count h) @ '' publish_tsc='' @
    show_word (decode_publish_tsc h)) s"
  define r where "r = process_messages env Live (decode_seq_num h) (decode_publish_tsc h) pv 0
    (unat (decode_msg_count h)) u"
  have "stops_at_bad_message env (malformed_report Live (decode_seq_num h) (length ms)) (drop 0 ms) u r"
    unfolding r_def
    by (rule process_messages_stops [OF assms(6,7)])
      (use assms(1,5) in \<open>simp_all add: u_def limit_reached_def feed_simps\<close>)
  then have r: "stops_at_bad_message env (malformed_report Live (expected_packet_seq s) (length ms)) ms s r"
    using assms(4) by (simp add: stops_at_bad_message_def u_def feed_simps)
  let ?done = "finish_packet env Live (decode_seq_num h) (decode_publish_tsc h)"
  have "limit_reached env (?done (snd r))" if "fst r = None"
    using r that assms(1) by (auto simp: stops_at_bad_message_def limit_reached_def feed_simps split: if_splits)
  moreover have "handle_datagram env bs s =
      and_then (and_then r (\<lambda>s. (None, ?done s))) (drain_buffered_packets env)"
    using assms(2-4) by (simp add: handle_datagram_def process_packet_bytes_def Let_def u_def r_def)
  ultimately have "handle_datagram env bs s = (if fst r = None then (None, ?done (snd r)) else r)"
    by (cases r) (auto simp: and_then_case drain_buffered_packets.simps split: option.split)
  with r that show thesis by blast
qed

section \<open>Properties of the feed handler\<close>

text \<open>
  C27. From the start, for every script of wakeups and every datagram in it: the live, replayed
  and drained packets add up to the processed ones, the message counter never passes a given
  limit, and the loop of a handler without a limit never returns. With a limit it returns only
  when exactly that many messages have been applied.
\<close>

theorem handler_counts:
  "live_packets (snd (main_loop env answers (init_feed c))) +
     replay_packets (snd (main_loop env answers (init_feed c))) +
     drain_packets (snd (main_loop env answers (init_feed c))) =
     processed_packets (snd (main_loop env answers (init_feed c))) \<and>
   (opt_messages env = 0 \<or>
     received_messages (snd (main_loop env answers (init_feed c))) \<le> opt_messages env) \<and>
   (fst (main_loop env answers (init_feed c)) = None \<longrightarrow> opt_messages env \<noteq> 0 \<and>
     received_messages (snd (main_loop env answers (init_feed c))) = opt_messages env)"
proof -
  let ?t = "snd (main_loop env answers (init_feed c))"
  have inv: "feed_inv env ?t" by (rule feed_inv_main [OF feed_inv_init])
  have "opt_messages env \<noteq> 0 \<and> opt_messages env \<le> received_messages ?t"
    if "fst (main_loop env answers (init_feed c)) = None"
    using main_loop_returns_at_limit [of env answers "init_feed c" ?t] that
    by (simp add: limit_reached_def prod_eq_iff)
  with inv show ?thesis
    by (auto simp: feed_inv_def intro: order.antisym)
qed

theorem handler_counts_witness:
  "received_messages (snd (main_loop \<lparr>opt_messages = 1, opt_benchmark = True, read_tsc = (\<lambda>n. 0),
      request_packets = (\<lambda>lo hi c. (Inr [], c))\<rparr>
      [Wait_error EINTR, Ready [Event False True
        [Datagram (packet_image 1 [DeleteMsg (make_delete_order_msg 7),
                                   DeleteMsg (make_delete_order_msg 8)] 0)]]] (init_feed ()))) = 1"
proof -
  let ?env = "\<lparr>opt_messages = 1, opt_benchmark = True, read_tsc = (\<lambda>n. 0),
    request_packets = (\<lambda>lo hi c. (Inr [], c))\<rparr>"
  let ?script = "[Wait_error EINTR, Ready [Event False True
    [Datagram (packet_image 1 [DeleteMsg (make_delete_order_msg 7), DeleteMsg (make_delete_order_msg 8)] 0)]]]"
  have "fst (main_loop ?env ?script (init_feed ())) = None" by code_simp
  with handler_counts [of ?env ?script "()"] show ?thesis by simp
qed

text \<open>
  C28. Benchmark mode changes nothing but the log: for every script the handler ends the same
  way, in the same state up to what it printed on its output, where benchmark mode prints
  nothing.
\<close>

theorem benchmark_only_silences:
  "main_loop (env\<lparr>opt_benchmark := True\<rparr>) answers (init_feed c) =
     (fst (main_loop env answers (init_feed c)),
      (snd (main_loop env answers (init_feed c)))\<lparr>cout := []\<rparr>)"
proof -
  have "silence (init_feed c) = init_feed c" by (simp add: silence_def init_feed_def)
  with silenced_main [of env answers "init_feed c"] show ?thesis
    by (simp add: silenced_def silence_def)
qed

text \<open>
  C29. Between datagrams the out-of-order buffer is empty, whatever is received and whatever the
  recovery service answers: a packet that is put into it has left it again when its datagram is
  done, unless the handler throws or has reached its limit.
\<close>

theorem buffer_empty_between_datagrams:
  assumes "buffered_packets s = []" and "handle_datagram env bs s = (None, t)"
    and "\<not> limit_reached env t"
  shows "buffered_packets t = []"
  using handle_datagram_empties [OF assms(2,1)] assms(3) by blast

theorem buffer_empty_between_datagrams_witness:
  "buffered_packets (snd (handle_datagram \<lparr>opt_messages = 0, opt_benchmark = True, read_tsc = (\<lambda>n. 0),
      request_packets = (\<lambda>lo hi c. (Inr [packet_image 1 [] 0], c))\<rparr> (packet_image 2 [] 0) (init_feed ()))) = []"
proof -
  let ?env = "\<lparr>opt_messages = 0, opt_benchmark = True, read_tsc = (\<lambda>n. 0),
    request_packets = (\<lambda>lo hi c. (Inr [packet_image 1 [] 0], c))\<rparr>"
  have run: "fst (handle_datagram ?env (packet_image 2 [] 0) (init_feed ())) = None" by code_simp
  have "buffered_packets (init_feed ()) = []" by (simp add: init_feed_def)
  moreover have "\<not> limit_reached ?env t" for t by (simp add: limit_reached_def)
  ultimately show ?thesis
    using run buffer_empty_between_datagrams [of "init_feed ()" ?env "packet_image 2 [] 0"]
    by (metis prod.collapse)
qed

text \<open>
  A datagram that does not parse, and one whose sequence number lies below the expected one,
  are discarded: a line on the error output is the only trace they leave.
\<close>

theorem bad_datagrams_discarded:
  "(parse_packet bs = None \<longrightarrow> handle_datagram env bs s =
      (None, s\<lparr>cerr := cerr s @ [''discarded malformed packet ('' @ show_dec (length bs) @ '' bytes)'']\<rparr>)) \<and>
   (\<forall>pv h. parse_packet bs = Some pv \<and> pv_header pv = Some h \<and>
      decode_seq_num h < expected_packet_seq s \<longrightarrow> handle_datagram env bs s =
      (None, s\<lparr>cerr := cerr s @ [''discarded stale packet seq='' @ show_word (decode_seq_num h) @
        '' expected seq='' @ show_word (expected_packet_seq s)]\<rparr>))"
  by (simp add: handle_datagram_def print_error_def Let_def)

theorem bad_datagrams_discarded_witness:
  "handle_datagram \<lparr>opt_messages = 0, opt_benchmark = False, read_tsc = (\<lambda>n. 0),
      request_packets = (\<lambda>lo hi c. (Inr [], c))\<rparr> [1, 2, 3] (init_feed ()) =
    (None, (init_feed ())\<lparr>cerr := [''discarded malformed packet (3 bytes)'']\<rparr>)"
proof -
  have "parse_packet [1, 2, 3] = None" by code_simp
  moreover have "show_dec (length [1, 2, 3 :: u8]) = ''3''" by code_simp
  ultimately show ?thesis
    using bad_datagrams_discarded [of "[1, 2, 3]"
        "\<lparr>opt_messages = 0, opt_benchmark = False, read_tsc = (\<lambda>n. 0),
          request_packets = (\<lambda>lo hi c. (Inr [], c))\<rparr>" "init_feed ()"]
    by (simp add: init_feed_def)
qed

text \<open>
  C30. A packet with the expected number whose framing is right but which holds a message that is
  not recognised stops a handler that has not reached its limit, unlike a packet whose framing is
  wrong. Without a limit, or with one that lies beyond the messages before the bad one, the handler
  throws: the messages before it have been applied, and the packet does not count as processed.
  Otherwise those messages take the handler to its limit first, and it is done with exactly as many
  of them applied as the limit allows.
\<close>

theorem malformed_message_stops:
  assumes "\<not> limit_reached env s" and "parse_packet bs = Some pv" and "pv_header pv = Some h"
    and "decode_seq_num h = expected_packet_seq s" and "length ms < unat (decode_msg_count h)"
    and "\<And>i. i < length ms \<Longrightarrow> message_at pv i = Some (ms ! i)"
    and "message_at pv (length ms) = None"
  shows "if opt_messages env = 0 \<or> unat (received_messages s) + length ms < unat (opt_messages env)
    then fst (handle_datagram env bs s) = Some (Throws (Runtime_error
        (''malformed message from live packet seq='' @ show_word (expected_packet_seq s) @
         '' at index='' @ show_dec (length ms)))) \<and>
      order_book (snd (handle_datagram env bs s)) = apply_messages ms (order_book s) \<and>
      expected_packet_seq (snd (handle_datagram env bs s)) = expected_packet_seq s
    else fst (handle_datagram env bs s) = None \<and>
      received_messages (snd (handle_datagram env bs s)) = opt_messages env \<and>
      order_book (snd (handle_datagram env bs s)) =
        apply_messages (take (unat (opt_messages env) - unat (received_messages s)) ms) (order_book s)"
proof -
  obtain r where "stops_at_bad_message env (malformed_report Live (expected_packet_seq s) (length ms)) ms s r"
    and "handle_datagram env bs s = (if fst r = None
      then (None, finish_packet env Live (decode_seq_num h) (decode_publish_tsc h) (snd r)) else r)"
    using handle_datagram_stops [OF assms] by blast
  then show ?thesis by (auto simp: stops_at_bad_message_def feed_simps)
qed

theorem malformed_message_stops_witness:
  "fst (handle_datagram \<lparr>opt_messages = 0, opt_benchmark = False, read_tsc = (\<lambda>n. 0),
      request_packets = (\<lambda>lo hi c. (Inr [], c))\<rparr>
      (image_header (make_packet_header 1 1 0) @ replicate 24 90) (init_feed ())) =
    Some (Throws (Runtime_error ''malformed message from live packet seq=1 at index=0''))"
proof -
  let ?env = "\<lparr>opt_messages = 0, opt_benchmark = False, read_tsc = (\<lambda>n. 0),
    request_packets = (\<lambda>lo hi c. (Inr [], c))\<rparr>"
  let ?bs = "image_header (make_packet_header 1 1 0) @ replicate 24 90"
  let ?pv = "\<lparr>pv_header = Some (make_packet_header 1 1 0), pv_message_bytes = replicate 24 90\<rparr>"
  have parse: "parse_packet ?bs = Some ?pv" by code_simp
  have bad: "message_at ?pv (length []) = None" by code_simp
  have digits: "show_dec (Suc 0) = ''1''" "show_dec 0 = ''0''" by code_simp+
  have start: "expected_packet_seq (init_feed ()) = 1" by (simp add: init_feed_def)
  have unlimited: "\<not> limit_reached ?env (init_feed ())" "opt_messages ?env = 0"
    by (simp_all add: limit_reached_def)
  show ?thesis
    using malformed_message_stops [of ?env "init_feed ()" ?bs ?pv "make_packet_header 1 1 0" "[]", OF unlimited(1) parse] bad unlimited(2)
    by (simp add: decode_make_header digits start)
qed

end
