(* ===== verification/Rate_Text.thy ===== *)
theory Rate_Text
  imports Complex_Main Cycle_Stats
begin

text \<open>
  The wall clock part of the handler's summary (\<open>src/feed_handler/main.cpp\<close>): the elapsed time and the
  rates as \<open>long double\<close>, their conversion to \<open>double\<close>, and how a stream prints a \<open>double\<close>.
\<close>

section \<open>Floating point quotients\<close>

text \<open>
  A floating point number that is not negative is a fraction whose denominator is a power of two.
  Its magnitudes here stay far from both ends of the exponent's range: times of up to \<open>2 ^ 63\<close>
  nanoseconds and counts below \<open>2 ^ 64\<close>.
\<close>

type_synonym fraction = "nat \<times> nat"

text \<open>Round to the nearest number of \<open>p\<close> significant bits, ties to even.\<close>

definition round_bits :: "nat \<Rightarrow> nat \<Rightarrow> nat" where
  "round_bits p n =
     (let e = floorlog 2 n - p in
      if e = 0 then n
      else let q = n div 2 ^ e; r = n mod 2 ^ e; half = 2 ^ (e - 1) in
        (if half < r \<or> r = half \<and> odd q then q + 1 else q) * 2 ^ e)"

text \<open>
  The quotient with \<open>p\<close> significant bits: it is scaled so that more than \<open>p\<close> bits are exact, and a last
  bit records whether the division left a remainder.
\<close>

definition float_div :: "nat \<Rightarrow> nat \<Rightarrow> nat \<Rightarrow> fraction" where
  "float_div p a b =
     (let k = p + floorlog 2 b;
          q = 2 * (a * 2 ^ k div b) + (if b dvd a * 2 ^ k then 0 else 1)
      in (round_bits p q, 2 ^ (k + 1)))"

text \<open>The averages of the latencies are such quotients.\<close>

lemma ld_quotient_float_div: "ld_quotient t n = fst (float_div 64 t n) div snd (float_div 64 t n)"
proof -
  have "ld_round = round_bits 64" by (rule ext) (simp only: ld_round_def round_bits_def)
  then show ?thesis by (simp only: ld_quotient_def float_div_def Let_def fst_conv snd_conv)
qed

text \<open>A duration in nanoseconds as seconds, counts per second, and the conversion to \<open>double\<close>.\<close>

definition elapsed_seconds :: "u64 \<Rightarrow> fraction" where
  "elapsed_seconds nanoseconds = float_div 64 (unat nanoseconds) 1000000000"

fun per_second :: "u64 \<Rightarrow> fraction \<Rightarrow> fraction" where
  "per_second n (a, b) = (if 0 < a then float_div 64 (unat n * b) a else (0, 1))"

fun to_double :: "fraction \<Rightarrow> fraction" where
  "to_double (a, b) = float_div 53 a b"

section \<open>Printing a number\<close>

text \<open>
  A stream prints a \<open>double\<close> with six significant digits: the decimal exponent, the digits, rounded
  to nearest with ties to even, and then the shorter of the two notations, without trailing zeros.
\<close>

function up_exponent :: "nat \<Rightarrow> nat \<Rightarrow> nat" where
  "up_exponent a b = (if b = 0 \<or> a < 10 * b then 0 else Suc (up_exponent a (10 * b)))"
  by pat_completeness auto
termination by (relation "measure (\<lambda>(a, b). a - b)") auto

function down_exponent :: "nat \<Rightarrow> nat \<Rightarrow> nat" where
  "down_exponent a b = (if a = 0 \<or> b \<le> a then 0 else Suc (down_exponent (10 * a) b))"
  by pat_completeness auto
termination by (relation "measure (\<lambda>(a, b). b - a)") auto

declare up_exponent.simps [simp del] down_exponent.simps [simp del]

definition div_nearest :: "nat \<Rightarrow> nat \<Rightarrow> nat" where
  "div_nearest n d =
     (let q = n div d; r = n mod d in if d < 2 * r \<or> d = 2 * r \<and> odd q then q + 1 else q)"

fun six_digits :: "fraction \<Rightarrow> nat \<times> int" where
  "six_digits (a, b) =
     (let up = up_exponent a b; down = down_exponent a b;
          digits = div_nearest (a * 10 ^ (down + 5)) (b * 10 ^ up)
      in if digits = 1000000 then (100000, int up - int down + 1) else (digits, int up - int down))"

definition strip_zeros :: "string \<Rightarrow> string" where
  "strip_zeros ds = rev (dropWhile (\<lambda>c. c = CHR ''0'') (rev ds))"

definition with_point :: "string \<Rightarrow> string \<Rightarrow> string" where
  "with_point whole part =
     (if strip_zeros part = [] then whole else whole @ ''.'' @ strip_zeros part)"

definition show_general :: "fraction \<Rightarrow> string" where
  "show_general v =
     (if fst v = 0 then ''0''
      else let (digits, x) = six_digits v; ds = show_dec digits in
        if x < - 4 \<or> 6 \<le> x
        then with_point (take 1 ds) (drop 1 ds) @ ''e'' @ (if x < 0 then ''-'' else ''+'') @
          (if nat \<bar>x\<bar> < 10 then ''0'' else []) @ show_dec (nat \<bar>x\<bar>)
        else if 0 \<le> x then with_point (take (nat x + 1) ds) (drop (nat x + 1) ds)
        else with_point ''0'' (replicate (nat (- x) - 1) (CHR ''0'') @ ds))"

text \<open>The fields of the summary line.\<close>

definition rate_fields :: "u64 \<Rightarrow> u64 \<Rightarrow> u64 \<Rightarrow> string" where
  "rate_fields nanoseconds received processed =
     (let elapsed = elapsed_seconds nanoseconds;
          message_rate = per_second received elapsed;
          packet_rate = per_second processed elapsed
      in '' elapsed_s='' @ show_general (to_double elapsed) @
         '' msg_rate='' @ show_general (to_double message_rate) @
         ''/s packet_rate='' @ show_general (to_double packet_rate) @ ''/s'')"

section \<open>How accurate the rates are\<close>

text \<open>\<open>x\<close> differs from \<open>y\<close> by at most the given part of it.\<close>

definition near :: "real \<Rightarrow> real \<Rightarrow> real \<Rightarrow> bool" where
  "near e x y \<longleftrightarrow> \<bar>x - y\<bar> \<le> e * y"

definition fraction_value :: "fraction \<Rightarrow> real" where
  "fraction_value v = real (fst v) / real (snd v)"

lemma near_trans:
  assumes "near e x y" and "near d z x" and "0 \<le> d"
  shows "near (e + d + d * e) z y"
proof -
  have "d * x \<le> d * (y + e * y)"
    using assms(1,3) by (intro mult_left_mono) (auto simp: near_def)
  with assms show ?thesis by (auto simp: near_def algebra_simps)
qed

lemma near_weaken: "near e x y \<Longrightarrow> e \<le> d \<Longrightarrow> 0 \<le> y \<Longrightarrow> near d x y"
  by (auto simp: near_def intro: order_trans mult_right_mono)

lemma near_divide:
  assumes "near e x y" and "0 < y" and "0 \<le> c" and "e \<le> 1 / 2"
  shows "near (2 * e) (c / x) (c / y)"
proof -
  have "e * y \<le> 1 / 2 * y" using assms(2,4) by (intro mult_right_mono) auto
  with assms(1) have x: "y / 2 \<le> x" by (auto simp: near_def)
  with assms(2) have "0 < x" by linarith
  have e: "0 \<le> e" using assms(1,2) by (auto simp: near_def zero_le_mult_iff dest: order_trans [OF abs_ge_zero])
  have "c / x - c / y = c * (y - x) / (x * y)"
    using \<open>0 < x\<close> assms(2) by (simp add: field_simps)
  then have "\<bar>c / x - c / y\<bar> = c * \<bar>x - y\<bar> / (x * y)"
    using \<open>0 < x\<close> assms(2,3) by (simp add: abs_mult abs_minus_commute)
  also have "\<dots> \<le> c * (e * y) / (x * y)"
    using assms \<open>0 < x\<close> by (intro divide_right_mono mult_left_mono) (auto simp: near_def)
  also have "\<dots> = c * e / x" using assms(2) by simp
  also have "\<dots> \<le> c * e / (y / 2)"
    using x assms e by (intro divide_left_mono) auto
  finally show ?thesis by (simp add: near_def mult.commute)
qed

lemma round_bits_near:
  assumes "0 < n"
  shows "near (1 / 2 ^ p) (real (round_bits p n)) (real n)"
proof (cases "floorlog 2 n - p")
  case 0
  then show ?thesis by (simp add: round_bits_def near_def)
next
  case (Suc e)
  define q where "q = n div 2 ^ Suc e"
  define r where "r = n mod 2 ^ Suc e"
  have n: "n = q * 2 ^ Suc e + r"
    unfolding q_def r_def by (rule div_mult_mod_eq [symmetric])
  have r: "r < 2 * 2 ^ e"
    using mod_less_divisor [of "2 ^ Suc e" n] by (simp add: r_def)
  have "round_bits p n = (if 2 ^ e < r \<or> r = 2 ^ e \<and> odd q then q + 1 else q) * 2 ^ Suc e"
    by (simp add: round_bits_def Suc q_def r_def Let_def)
  then consider "real (round_bits p n) - real n = - real r" "r \<le> 2 ^ e"
    | "real (round_bits p n) - real n = 2 * 2 ^ e - real r" "2 ^ e \<le> r"
    by (cases "2 ^ e < r \<or> r = 2 ^ e \<and> odd q") (auto simp: n algebra_simps)
  then have close: "\<bar>real (round_bits p n) - real n\<bar> \<le> 2 ^ e"
  proof cases
    case 1
    then have "real r \<le> 2 ^ e" by (metis of_nat_le_iff of_nat_numeral of_nat_power)
    with 1 show ?thesis by simp
  next
    case 2
    then have "2 ^ e \<le> real r" by (metis of_nat_le_iff of_nat_numeral of_nat_power)
    moreover have "real r \<le> 2 * 2 ^ e"
      using r by (metis of_nat_le_iff of_nat_numeral of_nat_power of_nat_mult less_imp_le)
    ultimately show ?thesis unfolding 2(1) by simp
  qed
  have "floorlog 2 n - 1 = p + e" using Suc by simp
  then have "2 ^ (p + e) \<le> n" using floorlog_bounds [of n 2] assms by auto
  then have "(2 ^ p * 2 ^ e :: real) \<le> real n"
    by (simp add: power_add [symmetric] flip: of_nat_power)
  moreover have "2 ^ p * \<bar>real (round_bits p n) - real n\<bar> \<le> 2 ^ p * 2 ^ e"
    by (rule mult_left_mono [OF close]) simp
  ultimately have "2 ^ p * \<bar>real (round_bits p n) - real n\<bar> \<le> real n" by linarith
  then show ?thesis by (simp add: near_def field_simps)
qed

lemma near_scale: "near e x y \<Longrightarrow> 0 < c \<Longrightarrow> near e (x / c) (y / c)"
  by (simp add: near_def divide_simps flip: diff_divide_distrib)

lemma near_times: "near e x y \<Longrightarrow> 0 < c \<Longrightarrow> near e (x * c) (y * c)"
  by (simp add: near_def abs_mult flip: left_diff_distrib)

lemma floor_div_near:
  assumes "0 < b"
  shows "\<bar>real (2 * (n div b) + (if b dvd n then 0 else 1)) - 2 * (real n / real b)\<bar> \<le> 1"
proof -
  have "real n / real b = real (n div b) + real (n mod b) / real b"
    by (simp add: field_char_0_class.of_nat_div diff_divide_distrib)
  moreover have "0 \<le> real (n mod b) / real b" "real (n mod b) / real b < 1"
    using assms by simp_all
  moreover have "b dvd n \<Longrightarrow> n mod b = 0" by simp
  ultimately show ?thesis by (cases "b dvd n") (auto simp: abs_le_iff)
qed

lemma float_div_near:
  assumes "0 < a" and "0 < b"
  shows "near (2 / 2 ^ p) (fraction_value (float_div p a b)) (real a / real b)"
proof -
  define k where "k = p + floorlog 2 b"
  define q where "q = 2 * (a * 2 ^ k div b) + (if b dvd a * 2 ^ k then 0 else 1)"
  define y where "y = real (a * 2 ^ k) / real b"
  have "b < 2 ^ floorlog 2 b" using floorlog_bounds [of b 2] assms(2) by auto
  then have "b * 2 ^ p \<le> 1 * 2 ^ k" by (simp add: k_def power_add mult.commute)
  also have "\<dots> \<le> a * 2 ^ k" using assms(1) by (intro mult_le_mono1) simp
  finally have "real b * 2 ^ p \<le> real (a * 2 ^ k)" by (metis of_nat_le_iff of_nat_mult of_nat_numeral of_nat_power)
  then have y: "2 ^ p \<le> y" using assms(2) by (simp add: y_def field_simps)
  have close: "\<bar>real q - 2 * y\<bar> \<le> 1"
    unfolding q_def y_def by (rule floor_div_near [OF assms(2)])
  have one: "(1 :: real) \<le> 2 ^ p" by simp
  with close y have "0 < q" by (intro gr0I) auto
  have "near (1 / 2 ^ Suc p) (real q) (2 * y)"
    using mult_mono [OF close y] one by (simp add: near_def field_simps)
  from near_trans [OF this round_bits_near [OF \<open>0 < q\<close>, of p]]
  have "near (1 / 2 ^ Suc p + 1 / 2 ^ p + 1 / 2 ^ p * (1 / 2 ^ Suc p)) (real (round_bits p q)) (2 * y)"
    by simp
  moreover have "1 / 2 ^ Suc p + 1 / 2 ^ p + 1 / 2 ^ p * (1 / 2 ^ Suc p) \<le> (2 / 2 ^ p :: real)"
    using one by (simp add: field_simps)
  ultimately have "near (2 / 2 ^ p) (real (round_bits p q)) (2 * y)"
    using order_trans [OF one y] by (intro near_weaken [of _ _ _ "2 / 2 ^ p"]) simp_all
  then have "near (2 / 2 ^ p) (real (round_bits p q) / 2 ^ Suc k) (2 * y / 2 ^ Suc k)"
    by (rule near_scale) simp
  then show ?thesis
    by (simp add: fraction_value_def float_div_def Let_def k_def q_def y_def)
qed

text \<open>Six decimal digits.\<close>

lemma div_nearest_close:
  assumes "0 < d"
  shows "\<bar>real (div_nearest n d) - real n / real d\<bar> \<le> 1 / 2"
proof -
  have n: "real n / real d = real (n div d) + real (n mod d) / real d"
    by (simp add: field_char_0_class.of_nat_div diff_divide_distrib)
  show ?thesis
  proof (cases "d < 2 * (n mod d) \<or> d = 2 * (n mod d) \<and> odd (n div d)")
    case True
    then have "real d \<le> 2 * real (n mod d)" by (metis less_imp_le of_nat_le_iff of_nat_mult of_nat_numeral order_refl)
    moreover have "real (n mod d) < real d" using assms by simp
    ultimately show ?thesis using True assms by (simp add: div_nearest_def Let_def n field_simps)
  next
    case False
    then have "2 * real (n mod d) \<le> real d" by (metis not_less of_nat_le_iff of_nat_mult of_nat_numeral)
    with False assms show ?thesis by (simp add: div_nearest_def Let_def n field_simps)
  qed
qed

lemma up_exponent_bounds:
  "0 < b \<Longrightarrow> b \<le> a \<Longrightarrow> b * 10 ^ up_exponent a b \<le> a \<and> a < 10 * (b * 10 ^ up_exponent a b)"
proof (induction a b rule: up_exponent.induct)
  case (1 a b)
  then show ?case by (subst (1 2) up_exponent.simps) (auto simp: mult.assoc)
qed

lemma down_exponent_bounds:
  "0 < a \<Longrightarrow> a < 10 * b \<Longrightarrow> b \<le> a * 10 ^ down_exponent a b \<and> a * 10 ^ down_exponent a b < 10 * b"
proof (induction a b rule: down_exponent.induct)
  case (1 a b)
  then show ?case by (subst (1 2) down_exponent.simps) (auto simp: mult.assoc)
qed

lemma exponent_bounds:
  assumes "0 < a" and "0 < b"
  shows "b * 10 ^ up_exponent a b \<le> a * 10 ^ down_exponent a b"
    and "a * 10 ^ down_exponent a b < 10 * (b * 10 ^ up_exponent a b)"
proof -
  have "up_exponent a b = 0" if "a < b" using that by (subst up_exponent.simps) simp
  moreover have "down_exponent a b = 0" if "b \<le> a" using that by (subst down_exponent.simps) simp
  ultimately show "b * 10 ^ up_exponent a b \<le> a * 10 ^ down_exponent a b"
    and "a * 10 ^ down_exponent a b < 10 * (b * 10 ^ up_exponent a b)"
    using up_exponent_bounds [of b a] down_exponent_bounds [of a b] assms by (cases "b \<le> a"; simp)+
qed

lemma half_unit_near: "100000 \<le> y \<Longrightarrow> \<bar>x - y\<bar> \<le> 1 / 2 \<Longrightarrow> near (1 / 200000) x y"
  unfolding near_def by linarith

lemma quotient_at_least: "d * c \<le> n \<Longrightarrow> 0 < d \<Longrightarrow> real c \<le> real n / real d"
  by (simp add: pos_le_divide_eq mult.commute flip: of_nat_mult)

text \<open>The digits stand for \<open>d * 10 ^ (x - 5)\<close>.\<close>

lemma digits_close:
  assumes "0 < a" and "0 < b"
    and "num = a * 10 ^ (down_exponent a b + 5)" and "den = b * 10 ^ up_exponent a b"
  shows "100000 \<le> div_nearest num den" and "div_nearest num den \<le> 1000000"
    and "near (1 / 200000) (real (div_nearest num den)) (real num / real den)"
proof -
  have den: "0 < den" using assms by simp
  have range: "den * 100000 \<le> num" "num < den * 1000000"
    using exponent_bounds [OF assms(1,2)] by (simp_all add: assms(3,4) power_add)
  then have "100000 \<le> num div den" "num div den < 1000000"
    using den by (simp_all add: less_eq_div_iff_mult_less_eq div_less_iff_less_mult mult.commute)
  then show "100000 \<le> div_nearest num den" "div_nearest num den \<le> 1000000"
    by (auto simp: div_nearest_def Let_def)
  have "real 100000 \<le> real num / real den" by (rule quotient_at_least [OF range(1) den])
  then show "near (1 / 200000) (real (div_nearest num den)) (real num / real den)"
    using div_nearest_close [OF den, of num] by (intro half_unit_near) (simp_all only: of_nat_numeral)
qed

lemma six_digits_close:
  assumes "0 < fst v" and "0 < snd v" and "six_digits v = (d, x)"
  shows "100000 \<le> d \<and> d < 1000000 \<and>
    near (1 / 200000) (real d * 10 powi (x - 5)) (fraction_value v)"
proof -
  obtain a b where v: "v = (a, b)" by (cases v)
  let ?u = "up_exponent a b" and ?n = "down_exponent a b"
  let ?num = "a * 10 ^ (?n + 5)" and ?den = "b * 10 ^ ?u"
  define digits where "digits = div_nearest ?num ?den"
  define unit where "unit = (10 :: real) powi (int ?u - int ?n - 5)"
  have pos: "0 < a" "0 < b" using assms(1,2) by (simp_all add: v)
  note digits = digits_close [OF pos refl refl, folded digits_def]
  have "int ?u - int ?n - 5 = int ?u - int (?n + 5)" by simp
  then have "unit = 10 powi int ?u / 10 powi int (?n + 5)"
    by (simp only: unit_def) (rule power_int_diff, simp)
  then have unit: "unit = 10 ^ ?u / 10 ^ (?n + 5)" by (simp only: power_int_of_nat)
  then have "0 < unit" by simp
  have "fraction_value v = real ?num / real ?den * unit"
    using pos by (simp add: v fraction_value_def unit)
  with near_times [OF digits(3) \<open>0 < unit\<close>]
  have close: "near (1 / 200000) (real digits * unit) (fraction_value v)" by (simp only:)
  show ?thesis
  proof (cases "digits = 1000000")
    case True
    then have dx: "d = 100000" "x = int ?u - int ?n + 1"
      using assms(3) by (simp_all add: v digits_def Let_def)
    have "(10 :: real) powi (int ?u - int ?n - 5 + 1) = unit * 10"
      unfolding unit_def by (rule power_int_add_1) simp
    moreover have "x - 5 = int ?u - int ?n - 5 + 1" using dx(2) by simp
    ultimately have "10 powi (x - 5) = unit * 10" by (simp only:)
    with close True dx show ?thesis by simp
  next
    case False
    then have "d = digits" "x = int ?u - int ?n"
      using assms(3) by (simp_all add: v digits_def Let_def)
    with close digits(1,2) False show ?thesis by (simp add: unit_def)
  qed
qed

section \<open>Property of the rates\<close>

lemma positive_fraction: "fraction_value v = r \<Longrightarrow> 0 < r \<Longrightarrow> 0 < fst v \<and> 0 < snd v"
  by (cases "fst v = 0"; cases "snd v = 0") (auto simp: fraction_value_def)

lemma near_positive: "near e x y \<Longrightarrow> 0 < y \<Longrightarrow> e < 1 \<Longrightarrow> 0 < x"
proof -
  assume "near e x y" "0 < y" "e < 1"
  moreover from this have "e * y < 1 * y" by (intro mult_strict_right_mono)
  ultimately show ?thesis unfolding near_def abs_le_iff by linarith
qed

lemma real_unat_pos: "0 < w \<Longrightarrow> 0 < real (unat w)" for w :: u64
  by (rule of_nat_0_less_iff [THEN iffD2]) (simp add: word_less_nat_alt)

lemma float_div_value:
  "0 < fraction_value (a, b) \<Longrightarrow> near (2 / 2 ^ p) (fraction_value (float_div p a b)) (fraction_value (a, b))"
  using float_div_near [of a b p] positive_fraction [of "(a, b)"] by (simp add: fraction_value_def)

lemma per_second_near:
  assumes "0 < n" and "0 < fraction_value e"
  shows "near (2 / 2 ^ 64) (fraction_value (per_second n e)) (real (unat n) / fraction_value e)"
proof -
  obtain a b where e: "e = (a, b)" by (cases e)
  have "0 < a" "0 < b" "0 < unat n"
    using assms positive_fraction [of e] by (simp_all add: e unat_gt_0 word_neq_0_conv)
  then show ?thesis
    using float_div_near [of "unat n * b" a 64] by (simp add: e fraction_value_def)
qed

lemma to_double_near:
  "0 < fraction_value v \<Longrightarrow> near (2 / 2 ^ 53) (fraction_value (to_double v)) (fraction_value v)"
  using float_div_value [of "fst v" "snd v" 53] by (cases v) simp

lemma rate_near:
  assumes "0 < n" and "0 < nanoseconds"
  shows "near (1 / 10 ^ 9) (fraction_value (to_double (per_second n (elapsed_seconds nanoseconds))))
      (real (unat n) * 10 ^ 9 / real (unat nanoseconds))"
    (is "near _ _ ?rate")
proof -
  let ?t = "fraction_value (unat nanoseconds, 1000000000)" and ?e = "elapsed_seconds nanoseconds"
  have "0 < real (unat nanoseconds)" and n: "0 < real (unat n)"
    using assms by (simp_all only: real_unat_pos)
  then have t: "0 < ?t" and rate: "real (unat n) / ?t = ?rate" and "0 < ?rate"
    by (simp_all add: fraction_value_def)
  have e: "near (2 / 2 ^ 64) (fraction_value ?e) ?t"
    unfolding elapsed_seconds_def by (rule float_div_value [OF t])
  then have pos: "0 < fraction_value ?e" by (rule near_positive [OF _ t]) simp
  have "near (2 * (2 / 2 ^ 64)) (real (unat n) / fraction_value ?e) ?rate"
    unfolding rate [symmetric] by (rule near_divide [OF e t less_imp_le [OF n]]) simp
  from near_trans [OF this per_second_near [OF assms(1) pos]]
  have m: "near (1 / 10 ^ 15) (fraction_value (per_second n ?e)) ?rate"
    by (rule near_weaken) (use \<open>0 < ?rate\<close> in simp_all)
  then have "0 < fraction_value (per_second n ?e)" by (rule near_positive [OF _ \<open>0 < ?rate\<close>]) simp
  from near_trans [OF m to_double_near [OF this]] show ?thesis
    by (rule near_weaken) (use \<open>0 < ?rate\<close> in simp_all)
qed

text \<open>
  C39. The rates that the handler prints are right to six digits: the digits and the decimal exponent
  of a rate of \<open>n\<close> in so many nanoseconds differ from the true quotient by less than 6 millionths
  of it, through the roundings to \<open>long double\<close>, to \<open>double\<close> and to the decimal digits.
\<close>

theorem rate_digits_accurate:
  assumes "0 < n" and "0 < nanoseconds"
    and "six_digits (to_double (per_second n (elapsed_seconds nanoseconds))) = (d, x)"
  shows "100000 \<le> d \<and> d < 1000000 \<and>
    \<bar>real d * 10 powi (x - 5) - real (unat n) * 10 ^ 9 / real (unat nanoseconds)\<bar>
      \<le> 6 / 10 ^ 6 * (real (unat n) * 10 ^ 9 / real (unat nanoseconds))"
proof -
  let ?v = "to_double (per_second n (elapsed_seconds nanoseconds))"
  let ?rate = "real (unat n) * 10 ^ 9 / real (unat nanoseconds)"
  note v = rate_near [OF assms(1,2)]
  have "0 < ?rate"
    using real_unat_pos [OF assms(1)] real_unat_pos [OF assms(2)] by simp
  then have "0 < fraction_value ?v" by (rule near_positive [OF v]) simp
  then have "0 < fst ?v \<and> 0 < snd ?v" by (rule positive_fraction [OF refl])
  note digits = six_digits_close [OF _ _ assms(3), THEN conjunct2, THEN conjunct2]
  from near_trans [OF v digits] \<open>0 < fst ?v \<and> 0 < snd ?v\<close>
  have "near (6 / 10 ^ 6) (real d * 10 powi (x - 5)) ?rate"
    by (intro near_weaken [of _ _ _ "6 / 10 ^ 6"]) (use \<open>0 < ?rate\<close> in auto)
  with six_digits_close [OF _ _ assms(3)] \<open>0 < fst ?v \<and> 0 < snd ?v\<close> show ?thesis
    by (simp add: near_def)
qed

theorem rate_digits_accurate_witness:
  "\<exists>d x. six_digits (to_double (per_second 12 (elapsed_seconds 1500000000))) = (d, x) \<and>
     \<bar>real d * 10 powi (x - 5) - 8\<bar> \<le> 48 / 10 ^ 6"
proof -
  obtain d x where "six_digits (to_double (per_second 12 (elapsed_seconds 1500000000))) = (d, x)"
    by (cases "six_digits (to_double (per_second 12 (elapsed_seconds 1500000000)))")
  with rate_digits_accurate [OF _ _ this] show ?thesis by simp
qed

end
