(* ===== verification/Programs.thy ===== *)
theory Programs
  imports Publisher Socket_Setup Handler_Correct Rate_Text
begin

text \<open>
  The \<open>main\<close> functions of \<open>src/exchange_sim/main.cpp\<close> and \<open>src/feed_handler/main.cpp\<close> as wholes: from the
  arguments to the exit status, with what they print and which descriptors they leave open.
\<close>

section \<open>Leaving \<open>main\<close>\<close>

text \<open>A process ends with a status, or by \<open>SIGPIPE\<close>, or does not end.\<close>

datatype ending = Exits nat | Broken_pipe | Runs_on

record run =
  exit_status :: ending
  standard_output :: "string list"
  standard_error :: "string list"
  final_kernel :: kernel

text \<open>
  The end of the \<open>try\<close> block with its last lines, or the handler that prints the exception. The
  destructors have run by then. After a signal nothing more is written.
\<close>

definition leave ::
    "string \<Rightarrow> (errno \<Rightarrow> string) \<Rightarrow> halt option \<Rightarrow> string list \<Rightarrow> string list \<Rightarrow> string list \<Rightarrow>
     kernel \<Rightarrow> run" where
  "leave program strerror h out last_lines err k =
     (case h of
        None \<Rightarrow> \<lparr>exit_status = Exits 0, standard_output = out @ last_lines, standard_error = err,
                 final_kernel = k\<rparr>
      | Some (Throws e) \<Rightarrow> \<lparr>exit_status = Exits 1, standard_output = out,
                 standard_error = err @ [program @ '' error: '' @ what strerror e], final_kernel = k\<rparr>
      | Some Killed \<Rightarrow> \<lparr>exit_status = Broken_pipe, standard_output = out, standard_error = err,
                 final_kernel = k\<rparr>
      | Some Blocks \<Rightarrow> \<lparr>exit_status = Runs_on, standard_output = out, standard_error = err,
                 final_kernel = k\<rparr>)"

section \<open>\<open>exchange_sim\<close>\<close>

text \<open>
  What a run of the simulator meets: the kernel at its start, the random engine, the time stamp
  counter, the answers of \<open>sendto\<close>, and what comes to the recovery server's thread.
\<close>

record sim_world =
  sim_kernel :: kernel
  sim_strerror :: "errno \<Rightarrow> string"
  world_draw :: draw
  world_tsc :: "nat \<Rightarrow> u64"
  world_sendto :: "nat \<Rightarrow> bytes \<Rightarrow> send_answer"
  world_clients :: "listen_answer list"
  world_written :: nat

definition sim_usage :: string where
  "sim_usage = ''Usage: exchange_sim [--group ADDRESS] [--port PORT] [--messages COUNT] '' @
     ''[--recovery-port PORT] [--messages-per-packet COUNT] [--skip-every N] '' @
     ''[--interval-ms DELAY] [--recovery-grace-ms DELAY] [--quiet]''"

definition sim_start_line :: "sim_options \<Rightarrow> string" where
  "sim_start_line options =
     ''exchange_sim starting on '' @ so_group options @ '':'' @ show_word (so_port options) @
     '' with recovery TCP '' @ show_word (so_recovery_port options) @
     '' for '' @ show_word (so_messages options) @ '' messages'' @
     '' using '' @ show_word (so_messages_per_packet options) @ '' messages/packet'' @
     (if so_skip_every options \<noteq> 0
      then '' and dropping every '' @ show_word (so_skip_every options) @ '' packet'' else [])"

definition sim_summary_line :: "publisher \<Rightarrow> string" where
  "sim_summary_line s =
     ''summary: sent_packets='' @ show_word (sent_packets s) @
     '' dropped_packets='' @ show_word (dropped_packets s) @
     '' sent_messages='' @ show_word (sent_messages s) @
     '' dropped_messages='' @ show_word (dropped_messages s)"

definition sim_last_lines :: "sim_options \<Rightarrow> publisher \<Rightarrow> string list" where
  "sim_last_lines options s =
     sim_summary_line s #
     (if so_recovery_grace_ms options \<noteq> 0
      then [''keeping recovery server alive for '' @ show_word (so_recovery_grace_ms options) @ '' ms'']
      else [])"

definition sim_env_of :: "sim_world \<Rightarrow> sim_options \<Rightarrow> sim_env" where
  "sim_env_of w options = \<lparr>sim_opts = options, sim_draw = world_draw w, sim_tsc = world_tsc w,
     sim_sendto = world_sendto w\<rparr>"

text \<open>
  The recovery server's thread and \<open>~RecoveryServer\<close>, which sets \<open>stop_\<close>, joins the thread and closes
  the listening socket: how the thread stopped short, if it did, what it has written, and the
  kernel. A thread that waits for a client keeps the join, and with it the process, from ending.
\<close>

definition destroy_recovery_server ::
    "(errno \<Rightarrow> string) \<Rightarrow> listen_answer list \<Rightarrow> nat \<Rightarrow> kernel \<Rightarrow> (halt option \<times> string list) \<times> kernel" where
  "destroy_recovery_server strerror clients listen_fd k =
     (case server_run strerror clients \<lparr>server_cerr = [], closed_clients = []\<rparr> of
        (None, server) \<Rightarrow> ((None, server_cerr server), snd (close_if_open (int listen_fd) k))
      | (Some h, server) \<Rightarrow> ((Some h, server_cerr server), k))"

text \<open>
  The server is destroyed first, also when an exception is on its way to the handler; then
  the sender. \<open>SIGPIPE\<close> may come to the server's thread at any time of the run: \<open>world_written\<close> is how
  many lines the process has written by then.
\<close>

definition exchange_sim_main :: "sim_world \<Rightarrow> string list \<Rightarrow> run" where
  "exchange_sim_main w argv =
     (let leave_main = leave ''exchange_sim'' (sim_strerror w) in
      case sim_parse_args argv of
        Inl e \<Rightarrow> leave_main (Some (Throws e)) [] [] [] (sim_kernel w)
      | Inr None \<Rightarrow> leave_main None [sim_usage] [] [] (sim_kernel w)
      | Inr (Some options) \<Rightarrow>
     (case start_exchange (sim_strerror w) (so_group options) (so_port options) (so_recovery_port options)
         (sim_kernel w) of
        (Inl h, k) \<Rightarrow> leave_main (Some h) [] [] [] k
      | (Inr (sender, listen_fd), k) \<Rightarrow>
     (case publish_loop (sim_env_of w options) init_publisher of
        None \<Rightarrow> leave_main (Some Blocks) [] [] [] k
      | Some (h, s) \<Rightarrow>
          let out = sim_start_line options # sim_cout s;
              last_lines = sim_last_lines options s;
              all_lines = out @ (if h = None then last_lines else [])
          in case destroy_recovery_server (sim_strerror w) (world_clients w) listen_fd k of
               ((Some Killed, err), k) \<Rightarrow>
                 leave_main (Some Killed) (take (world_written w) all_lines) [] err k
             | ((Some _, err), k) \<Rightarrow> leave_main (Some Blocks) all_lines [] err k
             | ((None, err), k) \<Rightarrow>
                 leave_main h out last_lines err (destroy_udp_multicast_sender sender k))))"

section \<open>\<open>feed_handler\<close>\<close>

text \<open>
  What a run of the handler meets. \<open>world_elapsed\<close> is the time that the steady clock measures from the
  start of the wait loop to its end, in nanoseconds.
\<close>

record 'c feed_world =
  feed_kernel :: kernel
  feed_strerror :: "errno \<Rightarrow> string"
  world_cpus :: int
  world_setaffinity :: "u64 \<Rightarrow> errno option"
  world_client :: "string \<Rightarrow> u16 \<Rightarrow> 'c"
  world_request :: "u32 \<Rightarrow> u32 \<Rightarrow> 'c \<Rightarrow> (halt + bytes list) \<times> 'c"
  world_read_tsc :: "nat \<Rightarrow> u64"
  world_wakeups :: "wait_answer list"
  world_elapsed :: u64

definition feed_usage :: string where
  "feed_usage = ''Usage: feed_handler [--group ADDRESS] [--port PORT] [--recovery-host ADDRESS] '' @
     ''[--recovery-port PORT] [--messages COUNT] [--cpu-core CORE] [--benchmark]''"

definition feed_start_line :: "feed_options \<Rightarrow> string" where
  "feed_start_line options =
     ''feed_handler listening on '' @ fo_group options @ '':'' @ show_word (fo_port options) @
     '' with epoll and recovery TCP '' @ fo_recovery_host options @
     '':'' @ show_word (fo_recovery_port options) @
     '' pinned to cpu '' @ show_word (fo_cpu_core options) @
     (if fo_benchmark options then '' in benchmark mode'' else [])"

definition feed_summary_lines :: "u64 \<Rightarrow> 'c feed_state \<Rightarrow> string list" where
  "feed_summary_lines nanoseconds s =
     [''summary: messages='' @ show_word (received_messages s) @
      '' packets='' @ show_word (processed_packets s) @
      '' live_packets='' @ show_word (live_packets s) @
      '' replay_packets='' @ show_word (replay_packets s) @
      '' drain_packets='' @ show_word (drain_packets s) @
      '' replay_requests='' @ show_word (replay_requests s) @
      '' out_of_order_packets='' @ show_word (out_of_order_packets s) @
      rate_fields nanoseconds (received_messages s) (processed_packets s),
      summary ''packet_publish_to_apply'' (packet_latency_cycles s),
      summary ''packet_publish_to_bbo_update'' (bbo_update_latency_cycles s)]"

definition feed_env_of :: "'c feed_world \<Rightarrow> feed_options \<Rightarrow> 'c feed_env" where
  "feed_env_of w options = \<lparr>opt_messages = fo_messages options, opt_benchmark = fo_benchmark options,
     read_tsc = world_read_tsc w, request_packets = world_request w\<rparr>"

definition feed_handler_main :: "'c feed_world \<Rightarrow> string list \<Rightarrow> run" where
  "feed_handler_main w argv =
     (let leave_main = leave ''feed_handler'' (feed_strerror w) in
      case feed_parse_args argv of
        Inl e \<Rightarrow> leave_main (Some (Throws e)) [] [] [] (feed_kernel w)
      | Inr None \<Rightarrow> leave_main None [feed_usage] [] [] (feed_kernel w)
      | Inr (Some options) \<Rightarrow>
     (case pin_current_thread_to_cpu (world_cpus w) (world_setaffinity w) (feed_strerror w)
         (fo_cpu_core options) of
        Some e \<Rightarrow> leave_main (Some (Throws e)) [] [] [] (feed_kernel w)
      | None \<Rightarrow>
     (case open_feed_handler (fo_group options) (fo_port options) (feed_kernel w) of
        (Inl h, k) \<Rightarrow> leave_main (Some h) [] [] [] k
      | (Inr (receiver, epoll), k) \<Rightarrow>
          let client = world_client w (fo_recovery_host options) (fo_recovery_port options);
              (h, s) = main_loop (feed_env_of w options) (world_wakeups w) (init_feed client)
          in leave_main h (feed_start_line options # cout s) (feed_summary_lines (world_elapsed w) s)
               (cerr s) (if h = Some Blocks \<or> h = Some Killed then k
                else destroy_udp_multicast_receiver receiver (destroy_epoll_instance epoll k)))))"

section \<open>Facts about the two programs\<close>

lemma leave_simps:
  "leave program strerror None out last_lines err k =
     \<lparr>exit_status = Exits 0, standard_output = out @ last_lines, standard_error = err, final_kernel = k\<rparr>"
  "leave program strerror (Some Blocks) out last_lines err k =
     \<lparr>exit_status = Runs_on, standard_output = out, standard_error = err, final_kernel = k\<rparr>"
  "leave program strerror (Some Killed) out last_lines err k =
     \<lparr>exit_status = Broken_pipe, standard_output = out, standard_error = err, final_kernel = k\<rparr>"
  "leave program strerror (Some (Throws e)) out last_lines err k =
     \<lparr>exit_status = Exits 1, standard_output = out,
      standard_error = err @ [program @ '' error: '' @ what strerror e], final_kernel = k\<rparr>"
  by (simp_all add: leave_def)

text \<open>
  How the body of \<open>main\<close> comes to its end, before \<open>leave\<close>: normally, with an exception, by \<open>SIGPIPE\<close>, or
  not at all. The server's thread has to end before the simulator does.
\<close>

definition sim_outcome :: "sim_world \<Rightarrow> string list \<Rightarrow> halt option" where
  "sim_outcome w argv =
     (case sim_parse_args argv of
        Inl e \<Rightarrow> Some (Throws e)
      | Inr None \<Rightarrow> None
      | Inr (Some options) \<Rightarrow>
     (case fst (start_exchange (sim_strerror w) (so_group options) (so_port options)
         (so_recovery_port options) (sim_kernel w)) of
        Inl h \<Rightarrow> Some h
      | Inr opened \<Rightarrow>
     (case publish_loop (sim_env_of w options) init_publisher of
        None \<Rightarrow> Some Blocks
      | Some (h, s) \<Rightarrow>
     (case fst (server_run (sim_strerror w) (world_clients w) \<lparr>server_cerr = [], closed_clients = []\<rparr>) of
        None \<Rightarrow> h
      | Some Killed \<Rightarrow> Some Killed
      | Some _ \<Rightarrow> Some Blocks))))"

definition feed_outcome :: "'c feed_world \<Rightarrow> string list \<Rightarrow> halt option" where
  "feed_outcome w argv =
     (case feed_parse_args argv of
        Inl e \<Rightarrow> Some (Throws e)
      | Inr None \<Rightarrow> None
      | Inr (Some options) \<Rightarrow>
     (case pin_current_thread_to_cpu (world_cpus w) (world_setaffinity w) (feed_strerror w)
         (fo_cpu_core options) of
        Some e \<Rightarrow> Some (Throws e)
      | None \<Rightarrow>
     (case fst (open_feed_handler (fo_group options) (fo_port options) (feed_kernel w)) of
        Inl h \<Rightarrow> Some h
      | Inr opened \<Rightarrow> fst (main_loop (feed_env_of w options) (world_wakeups w)
          (init_feed (world_client w (fo_recovery_host options) (fo_recovery_port options)))))))"

text \<open>The descriptor that the simulator leaves open: the listening socket, if the thread did not start.\<close>

definition sim_leak :: "sim_world \<Rightarrow> string list \<Rightarrow> nat list" where
  "sim_leak w argv =
     (case sim_parse_args argv of
        Inr (Some options) \<Rightarrow>
          (case open_exchange (so_group options) (so_port options) (so_recovery_port options) (sim_kernel w) of
             (Inr (sender, listen_fd), k) \<Rightarrow> if verdict k (length (trace k)) = None then [] else [listen_fd]
           | _ \<Rightarrow> [])
      | _ \<Rightarrow> [])"

text \<open>
  What a run has to show for such an outcome. A normal end is status 0 and an exception is status 1
  after a last line on the error output that reports it; in both cases exactly the given
  descriptors are open. A signal is not a status, and what does not end has none.
\<close>

fun orderly :: "string \<Rightarrow> (errno \<Rightarrow> string) \<Rightarrow> nat list \<Rightarrow> halt option \<Rightarrow> run \<Rightarrow> bool" where
  "orderly program strerror fds None r \<longleftrightarrow>
     exit_status r = Exits 0 \<and> descriptors (final_kernel r) = fds"
| "orderly program strerror fds (Some (Throws e)) r \<longleftrightarrow>
     exit_status r = Exits 1 \<and> descriptors (final_kernel r) = fds \<and>
     (\<exists>err. standard_error r = err @ [program @ '' error: '' @ what strerror e])"
| "orderly program strerror fds (Some Killed) r \<longleftrightarrow> exit_status r = Broken_pipe"
| "orderly program strerror fds (Some Blocks) r \<longleftrightarrow> exit_status r = Runs_on"

lemma orderly_leave:
  "h = Some Blocks \<or> h = Some Killed \<or> descriptors k = fds \<Longrightarrow>
     orderly program strerror fds h (leave program strerror h out last_lines err k)"
  by (cases h; cases "the h") (auto simp: leave_simps)

lemma orderly_blocked:
  "orderly program strerror fds (Some Blocks) (leave program strerror (Some Blocks) out ls err k)"
  "orderly program strerror fds (Some Killed) (leave program strerror (Some Killed) out ls err k)"
  by (simp_all add: leave_simps)

text \<open>The destructor closes the socket unless the thread does not come to its end.\<close>

lemma destroy_recovery_server_cases:
  obtains (joined) err where "destroy_recovery_server strerror clients listen_fd k
      = ((None, err), sys_close listen_fd k)"
      and "fst (server_run strerror clients \<lparr>server_cerr = [], closed_clients = []\<rparr>) = None"
  | (stopped) h err where "destroy_recovery_server strerror clients listen_fd k = ((Some h, err), k)"
      and "fst (server_run strerror clients \<lparr>server_cerr = [], closed_clients = []\<rparr>) = Some h"
  by (cases "server_run strerror clients \<lparr>server_cerr = [], closed_clients = []\<rparr>";
      cases "fst (server_run strerror clients \<lparr>server_cerr = [], closed_clients = []\<rparr>)")
    (auto simp: destroy_recovery_server_def)

lemma exchange_sim_orderly:
  "orderly ''exchange_sim'' (sim_strerror w) (sim_leak w argv @ descriptors (sim_kernel w))
    (sim_outcome w argv) (exchange_sim_main w argv)"
proof (cases "sim_parse_args argv")
  case (Inr parsed)
  show ?thesis
  proof (cases parsed)
    case (Some options)
    note main = exchange_sim_main_def sim_outcome_def sim_leak_def Inr Some Let_def
    show ?thesis
    proof (cases rule: start_exchange_cases [of "sim_strerror w" "so_group options" "so_port options"
          "so_recovery_port options" "sim_kernel w"])
      case (fails h k)
      then show ?thesis by (auto simp: main orderly_leave split: prod.split)
    next
      case (no_thread sender listen_fd k1 e k)
      then show ?thesis by (simp add: main orderly_leave del: orderly.simps)
    next
      case (starts sender listen_fd k1 k)
      have "descriptors (sys_close (fst sender) (sys_close listen_fd k)) = descriptors (sim_kernel w)"
        using starts(4-6) by (auto simp: filter_fresh_pair)
      with starts show ?thesis
        by (cases rule: destroy_recovery_server_cases [of "sim_strerror w" "world_clients w" listen_fd k])
          (auto simp: main orderly_leave orderly_blocked simp del: orderly.simps sys_close_descriptors
            split: option.split halt.split)
    qed
  qed (simp add: exchange_sim_main_def sim_outcome_def sim_leak_def Inr Let_def orderly_leave del: orderly.simps)
qed (simp add: exchange_sim_main_def sim_outcome_def sim_leak_def Let_def orderly_leave del: orderly.simps)

lemma feed_handler_orderly:
  assumes "\<And>options. feed_parse_args argv = Inr (Some options) \<Longrightarrow> inet_pton (fo_group options) \<noteq> None"
  shows "orderly ''feed_handler'' (feed_strerror w) (descriptors (feed_kernel w)) (feed_outcome w argv)
    (feed_handler_main w argv)"
proof (cases "feed_parse_args argv")
  case (Inr parsed)
  show ?thesis
  proof (cases parsed)
    case (Some options)
    note main = feed_handler_main_def feed_outcome_def Inr Some Let_def
    show ?thesis
      using feed_handler_opens [OF assms [OF Inr [unfolded Some]], of "feed_kernel w" "fo_port options"]
    proof (cases rule: all_or_nothing_cases)
      case (fails h k)
      then show ?thesis
        by (simp add: main orderly_leave del: orderly.simps split: option.split)
    next
      case (opens x k)
      obtain receiver epoll where x: "x = (receiver, epoll)" by (cases x)
      have "descriptors (sys_close receiver (sys_close epoll k)) = descriptors (feed_kernel w)"
        using opens by (auto simp: x filter_fresh_pair)
      with opens show ?thesis
        by (auto simp: main x orderly_leave orderly_blocked simp del: orderly.simps sys_close_descriptors
            split: option.split prod.split)
    qed
  qed (simp add: feed_handler_main_def feed_outcome_def Inr Let_def orderly_leave del: orderly.simps)
qed (simp add: feed_handler_main_def feed_outcome_def Let_def orderly_leave del: orderly.simps)

text \<open>Only the recovery server's thread can meet a broken pipe in the simulator.\<close>

lemma setup_not_killed:
  "start_exchange strerror group_ip port recovery_port k = (Inl h, k') \<Longrightarrow> h \<noteq> Killed"
  by (auto simp: start_exchange_def open_exchange_def udp_multicast_sender_def create_listen_socket_def
      throw_errno_def close_saving_error_def close_then_error_def Let_def
      split: prod.splits option.splits bool.splits sum.splits)

lemma publish_loop_not_killed:
  assumes "publish_loop env s = Some r"
  shows "fst r \<noteq> Some Killed"
proof (rule publish_loop.raw_induct [OF _ assms])
  fix loop env s r
  assume "\<And>env s r. loop env s = Some r \<Longrightarrow> fst r \<noteq> Some Killed"
    and "(if emitted_messages s < so_messages (sim_opts env)
      then case fst (publish_packet env s) of None \<Rightarrow> loop env (snd (publish_packet env s))
        | Some h \<Rightarrow> Some (publish_packet env s)
      else Some (None, s)) = Some r"
  with publish_packet_not_killed [of env s] show "fst r \<noteq> Some Killed"
    by (auto simp del: split_paired_All split: if_splits option.splits)
qed

lemma exchange_sim_unbroken:
  assumes "\<forall>(client, histories) \<in> set (accepted (world_clients w)). unbroken client"
  shows "exit_status (exchange_sim_main w argv) \<noteq> Broken_pipe"
proof -
  have leave: "exit_status (leave p e h out ls err k) \<noteq> Broken_pipe" if "h \<noteq> Some Killed" for p e h out ls err k
    using that by (cases h; cases "the h") (simp_all add: leave_simps)
  have "destroy_recovery_server (sim_strerror w) (world_clients w) fd k \<noteq> ((Some Killed, err), k')"
    for fd k err k'
    using server_run_unbroken [OF assms]
    by (auto simp: destroy_recovery_server_def split: prod.splits option.splits) (metis fst_conv)
  then show ?thesis
    unfolding exchange_sim_main_def Let_def
    by (auto simp: leave dest: setup_not_killed publish_loop_not_killed
        split: sum.split option.split prod.split halt.split)
qed

text \<open>When every call succeeds, the simulator's sockets are opened.\<close>

lemma exchange_opens_quietly:
  assumes "\<forall>i. verdict k i = None" and "inet_pton group_ip \<noteq> None"
  shows "\<exists>sender listen_fd k'.
    start_exchange strerror group_ip port recovery_port k = (Inr (sender, listen_fd), k')"
  using assms by (auto simp: start_exchange_def start_thread_def open_exchange_def udp_multicast_sender_def create_listen_socket_def
      make_address_def sys_open_def sys_call_def)

lemma feed_opens_quietly:
  assumes "\<forall>i. verdict k i = None" and "inet_pton group_ip \<noteq> None"
  shows "\<exists>receiver epoll k'. open_feed_handler group_ip port k = (Inr (receiver, epoll), k')"
  using assms by (auto simp: open_feed_handler_def udp_multicast_receiver_def epoll_instance_def
      add_readable_fd_def set_non_blocking_def make_address_def sys_open_def sys_call_def)

section \<open>Concrete runs\<close>

text \<open>A kernel on which every call succeeds, with the three standard descriptors open.\<close>

definition quiet_kernel :: kernel where
  "quiet_kernel = \<lparr>verdict = (\<lambda>i. None), errno_cell = EINTR, trace = [], descriptors = [0, 1, 2]\<rparr>"

definition demo_feed_world :: "unit feed_world" where
  "demo_feed_world = \<lparr>feed_kernel = quiet_kernel, feed_strerror = (\<lambda>e. ''error''), world_cpus = 4,
     world_setaffinity = (\<lambda>c. None), world_client = (\<lambda>h p. ()),
     world_request = (\<lambda>lo hi c. (Inr [], c)), world_read_tsc = (\<lambda>n. 0),
     world_wakeups = [Wait_error EINTR, Ready [Event False True
        [Datagram (packet_image 1 [DeleteMsg (make_delete_order_msg 7)] 0)]]],
     world_elapsed = 1500000000\<rparr>"

definition demo_options :: feed_options where
  "demo_options = feed_defaults\<lparr>fo_messages := 1, fo_benchmark := True\<rparr>"

definition demo_argv :: "string list" where
  "demo_argv = feed_words demo_options"

lemma demo_argv_parse: "feed_parse_args demo_argv = Inr (Some demo_options)"
  by (simp add: demo_argv_def feed_words_parse)

lemma demo_group: "inet_pton ''239.255.42.99'' \<noteq> None"
  by (simp add: inet_pton_def is_digit_def digit_value_def)

definition demo_sim_world :: sim_world where
  "demo_sim_world = \<lparr>sim_kernel = quiet_kernel, sim_strerror = (\<lambda>e. ''error''),
     world_draw = sim_draw demo_sim, world_tsc = sim_tsc demo_sim, world_sendto = sim_sendto demo_sim,
     world_clients = [Poll_quiet], world_written = 0\<rparr>"

definition demo_sim_argv :: "string list" where
  "demo_sim_argv = sim_words (sim_opts demo_sim)"

lemma demo_sim_argv_parse: "sim_parse_args demo_sim_argv = Inr (Some (sim_opts demo_sim))"
  by (simp add: demo_sim_argv_def sim_words_parse check_sim_options_def kMaxMessagesPerPacket_eq)
    (simp add: demo_sim_def sim_defaults_def)

section \<open>Properties of the programs\<close>

text \<open>
  C38. Both programs end in an orderly way whatever the arguments, the kernel and the peers do. A
  normal end is status 0 and an exception is status 1 after a last line that reports it, never the
  other way round, and every descriptor that the program's set-up opened is closed. For the handler
  this needs a valid multicast group; the simulator leaves its listening socket open exactly when
  its sockets are opened but the server's thread cannot be started. Only a client that breaks its connection ends the simulator
  in another way. The descriptors of accepted clients and of the recovery client are not counted.
\<close>

theorem programs_end_orderly:
  "orderly ''exchange_sim'' (sim_strerror sw) (sim_leak sw argv @ descriptors (sim_kernel sw))
     (sim_outcome sw argv) (exchange_sim_main sw argv) \<and>
   ((\<forall>(client, histories) \<in> set (accepted (world_clients sw)). unbroken client) \<longrightarrow>
     exit_status (exchange_sim_main sw argv) \<noteq> Broken_pipe) \<and>
   ((\<forall>options. feed_parse_args argv = Inr (Some options) \<longrightarrow> inet_pton (fo_group options) \<noteq> None) \<longrightarrow>
     orderly ''feed_handler'' (feed_strerror fw) (descriptors (feed_kernel fw)) (feed_outcome fw argv)
       (feed_handler_main fw argv))"
  using exchange_sim_orderly feed_handler_orderly exchange_sim_unbroken by blast

theorem programs_end_orderly_witness:
  "orderly ''feed_handler'' (\<lambda>e. ''error'') [0, 1, 2] (feed_outcome demo_feed_world demo_argv)
     (feed_handler_main demo_feed_world demo_argv)"
proof -
  have "\<forall>options. feed_parse_args demo_argv = Inr (Some options) \<longrightarrow> inet_pton (fo_group options) \<noteq> None"
    using demo_group by (simp add: demo_argv_parse demo_options_def feed_defaults_def)
  moreover have "feed_strerror demo_feed_world = (\<lambda>e. ''error'')"
    "descriptors (feed_kernel demo_feed_world) = [0, 1, 2]"
    by (simp_all add: demo_feed_world_def quiet_kernel_def)
  ultimately show ?thesis
    using programs_end_orderly [of undefined demo_argv demo_feed_world] by simp
qed

text \<open>
  C36. Given accepted arguments with a valid group and fewer than \<open>2 ^ 32 - 1\<close> messages, a random
  engine that stays within its bounds, a kernel on which every call of the set-up succeeds, the
  start of the server's thread included, a network that takes every datagram whole, and clients
  that let the server's thread come to its end, the simulator ends with status 0: its log ends in
  the summary, whose sent and dropped messages add up to the messages asked for, and one in
  \<open>--skip-every\<close> packets is reported as dropped.
\<close>

theorem exchange_sim_completes:
  assumes "sim_parse_args argv = Inr (Some options)" and "inet_pton (so_group options) \<noteq> None"
    and "\<forall>i. verdict (sim_kernel w) i = None"
    and "uniform (world_draw w)" and "unat (so_messages options) < 2 ^ 32 - 1"
    and "\<forall>i packet. world_sendto w i packet = Sent (length packet)"
    and "fst (server_run (sim_strerror w) (world_clients w) \<lparr>server_cerr = [], closed_clients = []\<rparr>) = None"
  shows "exit_status (exchange_sim_main w argv) = Exits 0 \<and>
    (\<exists>s. publish_loop (sim_env_of w options) init_publisher = Some (None, s) \<and>
       standard_output (exchange_sim_main w argv) =
         sim_start_line options # sim_cout s @ sim_last_lines options s \<and>
       sent_messages s + dropped_messages s = so_messages options \<and>
       unat (dropped_packets s) = (unat (so_messages options) + unat (so_messages_per_packet options) - 1)
         div unat (so_messages_per_packet options) div unat (so_skip_every options))"
proof -
  have env: "sim_opts (sim_env_of w options) = options" by (simp add: sim_env_of_def)
  have "valid_env (sim_env_of w options)"
    using assms(4,5) sim_parse_args_batch [OF assms(1)] by (simp add: valid_env_def sim_env_of_def)
  moreover have "network_takes_all (sim_env_of w options)"
    using assms(6) by (simp add: network_takes_all_def sim_env_of_def)
  ultimately obtain s ms ts n where
    s: "publish_loop (sim_env_of w options) init_publisher = Some (None, s)"
    and inv: "pub_inv (sim_env_of w options) ms ts n s" "emitted_messages s = so_messages options"
    and n: "n = (unat (so_messages options) + unat (so_messages_per_packet options) - 1)
      div unat (so_messages_per_packet options)"
    using publish_loop_counts [of "sim_env_of w options"] by (auto simp: env)
  obtain sender listen_fd k where "start_exchange (sim_strerror w) (so_group options) (so_port options)
      (so_recovery_port options) (sim_kernel w) = (Inr (sender, listen_fd), k)"
    using exchange_opens_quietly [OF assms(3,2)] by blast
  with assms(1,7) s have "exit_status (exchange_sim_main w argv) = Exits 0 \<and>
      standard_output (exchange_sim_main w argv) =
        sim_start_line options # sim_cout s @ sim_last_lines options s"
    by (auto simp: exchange_sim_main_def destroy_recovery_server_def Let_def leave_simps split: prod.split)
  moreover have "sent_messages s + dropped_messages s = so_messages options"
    using inv by (simp add: pub_inv_unfold)
  ultimately show ?thesis
    using s dropped_count [OF inv(1)] n by (auto simp: env)
qed

theorem exchange_sim_completes_witness:
  "exit_status (exchange_sim_main demo_sim_world demo_sim_argv) = Exits 0"
proof -
  have "inet_pton (so_group (sim_opts demo_sim)) \<noteq> None"
    using demo_group by (simp add: demo_sim_def sim_defaults_def)
  then show ?thesis
    using exchange_sim_completes [OF demo_sim_argv_parse, of demo_sim_world] demo_sim_valid
    by (simp add: demo_sim_world_def quiet_kernel_def valid_env_def network_takes_all_def)
qed

text \<open>What the status 0 of the handler says about its run.\<close>

lemma leave_success: "exit_status (leave p f q out ls err k) = Exits 0 \<longleftrightarrow> q = None"
  by (cases q; cases "the q") (auto simp: leave_simps)

lemma feed_handler_returned:
  assumes "exit_status (feed_handler_main w argv) = Exits 0"
    and "feed_parse_args argv = Inr (Some options)"
    and "main_loop (feed_env_of w options) (world_wakeups w)
      (init_feed (world_client w (fo_recovery_host options) (fo_recovery_port options))) = (h, s)"
  shows "h = None \<and> (\<exists>k. feed_handler_main w argv = leave ''feed_handler'' (feed_strerror w) None
    (feed_start_line options # cout s) (feed_summary_lines (world_elapsed w) s) (cerr s) k)"
  using assms by (auto simp: feed_handler_main_def Let_def leave_success
      split: option.splits prod.splits sum.splits)

text \<open>
  C37. The handler only ends with status 0 after its usage text, or with a message limit that it
  has reached exactly: the summary then reports as many messages as were asked for, and its
  packet counts add up.
\<close>

theorem feed_handler_success:
  assumes "exit_status (feed_handler_main w argv) = Exits 0"
  shows "feed_parse_args argv = Inr None \<and> standard_output (feed_handler_main w argv) = [feed_usage] \<or>
    (\<exists>options s. feed_parse_args argv = Inr (Some options) \<and>
       s = snd (main_loop (feed_env_of w options) (world_wakeups w)
         (init_feed (world_client w (fo_recovery_host options) (fo_recovery_port options)))) \<and>
       standard_output (feed_handler_main w argv) =
         feed_start_line options # cout s @ feed_summary_lines (world_elapsed w) s \<and>
       standard_error (feed_handler_main w argv) = cerr s \<and>
       fo_messages options \<noteq> 0 \<and> received_messages s = fo_messages options \<and>
       live_packets s + replay_packets s + drain_packets s = processed_packets s)"
proof (cases "feed_parse_args argv")
  case (Inl e)
  with assms show ?thesis by (simp add: feed_handler_main_def Let_def leave_simps)
next
  case (Inr parsed)
  show ?thesis
  proof (cases parsed)
    case None
    with Inr show ?thesis by (simp add: feed_handler_main_def Let_def leave_simps)
  next
    case (Some options)
    let ?env = "feed_env_of w options"
    let ?start = "init_feed (world_client w (fo_recovery_host options) (fo_recovery_port options))"
    obtain h s where loop: "main_loop ?env (world_wakeups w) ?start = (h, s)"
      by (cases "main_loop ?env (world_wakeups w) ?start")
    from feed_handler_returned [OF assms Inr [unfolded Some] loop] obtain k where
      "h = None" and run: "feed_handler_main w argv = leave ''feed_handler'' (feed_strerror w) None
        (feed_start_line options # cout s) (feed_summary_lines (world_elapsed w) s) (cerr s) k"
      by blast
    then have "limit_reached ?env s" and "feed_inv ?env s"
      using main_loop_returns_at_limit [of ?env "world_wakeups w" ?start s] loop
        feed_inv_main [OF feed_inv_init, of ?env "world_wakeups w"]
      by (simp_all, metis snd_conv)
    then have "fo_messages options \<noteq> 0 \<and> received_messages s = fo_messages options \<and>
        live_packets s + replay_packets s + drain_packets s = processed_packets s"
      by (auto simp: limit_reached_def feed_inv_def feed_env_of_def intro: order.antisym)
    with run loop Inr Some show ?thesis by (simp add: leave_simps)
  qed
qed

theorem feed_handler_success_witness:
  "\<exists>s :: unit feed_state. standard_output (feed_handler_main demo_feed_world demo_argv) =
     feed_start_line demo_options # cout s @ feed_summary_lines (world_elapsed demo_feed_world) s \<and>
   received_messages s = 1"
proof -
  let ?env = "feed_env_of demo_feed_world demo_options"
  let ?w = "world_wakeups demo_feed_world"
  have pin: "pin_current_thread_to_cpu (world_cpus demo_feed_world) (world_setaffinity demo_feed_world)
      (feed_strerror demo_feed_world) (fo_cpu_core demo_options) = None"
    by (simp add: pin_current_thread_to_cpu_def demo_feed_world_def demo_options_def feed_defaults_def)
  obtain receiver epoll k where opened: "open_feed_handler (fo_group demo_options) (fo_port demo_options)
      (feed_kernel demo_feed_world) = (Inr (receiver, epoll), k)"
  proof -
    have "\<forall>i. verdict (feed_kernel demo_feed_world) i = None" "inet_pton (fo_group demo_options) \<noteq> None"
      using demo_group
      by (simp_all add: demo_feed_world_def quiet_kernel_def demo_options_def feed_defaults_def)
    from feed_opens_quietly [OF this] that show thesis by blast
  qed
  have "fst (main_loop ?env ?w (init_feed ())) = None" by code_simp
  then obtain s where "main_loop ?env ?w (init_feed ()) = (None, s)"
    by (cases "main_loop ?env ?w (init_feed ())") simp
  with pin opened have "exit_status (feed_handler_main demo_feed_world demo_argv) = Exits 0"
    by (simp add: feed_handler_main_def demo_argv_parse Let_def leave_simps)
  moreover have "fo_messages demo_options = 1" by (simp add: demo_options_def)
  ultimately show ?thesis
    using feed_handler_success [of demo_feed_world demo_argv] by (auto simp: demo_argv_parse)
qed

end
