(* ===== verification/Spec2Isabelle.thy ===== *)
theory Spec2Isabelle
  imports Market_System Process_Correct Programs
begin

text \<open>
  \<^bold>\<open>A binary market data feed: publisher, recovery service and feed handler.\<close>

  The repository builds two programs. \<open>exchange_sim\<close> (\<open>src/exchange_sim/main.cpp\<close>) generates random
  order messages, packs them into sequence-numbered packets, keeps every packet in a history,
  multicasts them over UDP, dropping every N-th on purpose if asked to, and runs a TCP server that
  answers requests for ranges of the history. \<open>feed_handler\<close> (\<open>src/feed_handler/main.cpp\<close>) receives
  the packets, applies them in sequence to a limit order book, requests what is missing from
  the recovery server, and keeps latency statistics. Both use the library in \<open>src/common\<close> with
  its headers in \<open>include/bmdfh\<close>: the wire protocol, the order book, the recovery protocol and
  the UDP sockets.

  \<^bold>\<open>Which theory models what.\<close>

  \<^item> \<open>Feed_Prelude\<close>: machine integers, byte strings and their slices, errors as values (\<open>exn\<close>, \<open>halt\<close>),
    the sequencing of statements that may throw, and the named collections of rewrite rules.
    \<open>Byte_Order\<close>: memory images of integers on the little endian host and the byte swaps.
    \<open>Decimal_Text\<close>: printing of numbers and \<open>parse_unsigned\<close>. \<open>Ordered_Map\<close>: \<open>std::map\<close> and
    \<open>std::unordered_map\<close> as association lists, behind the locales \<open>std_map\<close> and \<open>sorted_std_map\<close>.
  \<^item> \<open>Wire_Protocol\<close> (\<open>protocol.hpp\<close>, \<open>protocol.cpp\<close>): the packed structs with their fields in network
    order, their images, every constructor and decoder, \<open>parse_packet\<close>, \<open>message_at\<close>,
    \<open>serialize_packet\<close> and \<open>describe\<close>. \<open>Wire_Codec\<close> proves layout, round trips and bounds.
  \<^item> \<open>Order_Book\<close> (\<open>order_book.hpp\<close>, \<open>order_book.cpp\<close>): live orders and aggregated levels of 32 bits,
    and every operation. \<open>Book_Spec\<close> states what a book promises (a map of orders, exact levels,
    the best bid and offer); \<open>Book_Correct\<close> proves it.
  \<^item> \<open>Packet_History\<close>, \<open>Stream_Socket\<close>, \<open>Recovery_Client\<close>, \<open>Recovery_Server\<close> (\<open>recovery.hpp\<close>,
    \<open>recovery.cpp\<close>): the history, \<open>send_all\<close> and \<open>recv_exact_or_eof\<close>, a request with its answer, the
    loop over one client and the accept loop. The contracts between them are locales: \<open>packet_store\<close>
    for the history, \<open>byte_sink\<close>, \<open>byte_source\<close> and \<open>byte_stream\<close> for a connection, of which the socket and
    the client's connection are instances. \<open>Recovery_Link\<close> joins a client and a server by a
    connection and shows that the pair is an instance of the locale \<open>replay_service\<close>.
  \<^item> \<open>Command_Line\<close>: the options and \<open>parse_args\<close> of both programs.
  \<^item> \<open>Exchange_Sim\<close> (\<open>exchange_sim/main.cpp\<close>): the packet buffer, \<open>MarketDataGenerator\<close>, and the
    publishing loop with its counters and log. \<open>Generator_Correct\<close> relates the generator's orders to
    the book of any reader; \<open>Publisher\<close> proves the loop's invariant and that it ends.
  \<^item> \<open>Cycle_Stats\<close>, \<open>Feed_Handler\<close>, \<open>Feed_Loop\<close> (\<open>feed_handler/main.cpp\<close>): the statistics with their
    80 bit floating point sum; the locals of \<open>main\<close> as the record \<open>feed_state\<close>, its lambdas, and the
    nested wait, event and receive loops. \<open>Wakeup_Scripts\<close> flattens these loops for scripts without
    errors. \<open>Handler_Correct\<close> proves what holds for every input;
    \<open>Gap_Recovery\<close> proves, for any \<open>replay_service\<close>, that the handler stays in step with a stream.
  \<^item> \<open>Socket_Setup\<close> (\<open>udp_multicast.cpp\<close>, \<open>create_listen_socket\<close>, \<open>EpollInstance\<close>, CPU pinning): the
    opening of sockets over a kernel that keeps the open descriptors, \<open>errno\<close> and a verdict for every
    call, and the start of the recovery server's thread. \<open>Rate_Text\<close>: the elapsed time and the rates of the handler's summary in \<open>long double\<close> and
    \<open>double\<close>, and how a stream prints them. \<open>Programs\<close>: the two \<open>main\<close> functions as wholes, from the
    arguments to the exit status, with what they print and what they leave open.
  \<^item> \<open>Exchange_Process\<close> interleaves the two threads of the simulator: the main thread with its loop
    and the destructor that sets \<open>stop_\<close> and joins, and the server's thread, cut where they access the
    history or \<open>stop_\<close>. \<open>Process_Correct\<close> proves what the server finds, that each thread runs its
    sequential loop, and when the process ends.
  \<^item> \<open>Market_System\<close> puts the two programs together as a step relation, in which a step of the
    handler is the event loop over any wakeup; the system's properties are in this theory.

  \<^bold>\<open>How state and effects are modelled.\<close> Objects and locals of \<open>main\<close> are records that the
  operations return updated. An exception is a value \<open>Throws e\<close>, a call that never returns is
  \<open>Blocks\<close>, and \<open>Killed\<close> is the end of the process by \<open>SIGPIPE\<close>, which the code does not prevent. What comes from outside is data of the run: the random draws, the readings of the
  time stamp counter, and scripts of what the kernel answers to \<open>send\<close>, \<open>recv\<close>, \<open>recvfrom\<close>, \<open>sendto\<close>,
  \<open>connect\<close>, \<open>accept\<close>, \<open>poll\<close> and \<open>epoll_wait\<close>. A theorem without a hypothesis on a script holds for
  every behaviour of the kernel. Machine integers keep their width; sizes of type \<open>std::size_t\<close>
  that cannot come near \<open>2 ^ 64\<close> are naturals. Output lines are kept, in order, as strings.

  \<^bold>\<open>What the groups of theorems show.\<close> The byte layout of packets and both directions of the
  round trip; the refinement of the order book to a map of orders, with exact levels and best
  prices as long as quantities fit 32 bits, and what happens when they do not; that transfers
  do not depend on how TCP cuts the stream; how a client can stop the server, and that nothing
  else a client does can; that a replay returns exactly what the history
  holds; that the handler's counters, limit and buffer behave for every input, and what it
  discards and what stops it; that the generator's messages make sense and the publisher
  ends, with what it has published also when a \<open>sendto\<close> fails; that the server's thread finds what has
  been published, whenever it looks, and that only a client can keep the simulator from its end;
  and, for the whole system, that the handler applies a prefix of the published packets in order and
  once each, and counts them, whatever the network loses, repeats and reorders and whatever other
  datagrams that do not parse it brings, that it has caught up as soon as the last published packet
  arrives, that a handler with a message limit ends then, and that a dropped last packet stays
  lost. For the programs: their exit status against the way their bodies end, their summaries with
  the accuracy of the printed rates, and which of the descriptors of their set-up they close.

  \<^bold>\<open>Bounds.\<close> The system theorems assume fewer than \<open>2 ^ 32 - 1\<close> messages, so that no packet
  number wraps (\<open>valid_env\<close>), and a handler without a message limit or with one that is not below
  the number of published messages (\<open>proper\<close>); exact best prices need \<open>250 * messages < 2 ^ 32\<close>, since the generator
  draws quantities up to 250. A stream's packets hold at most 170 messages, the most that the
  handler's 4096 byte buffer takes; the simulator's limit is 42. No definition uses fuel except as
  a script: a script that ends while more is asked for is a call that does not return. The only
  loop that need not end, \<open>publish_loop\<close>, is a partial function, and \<open>publisher_completes\<close> shows that
  it returns. In the system's steps the network to the recovery server is reliable
  (\<open>reliable\<close>: bytes arrive in any pieces, with interruptions, and none are lost); the multicast network
  is not. A datagram that was altered on its way but still parses is outside of these theorems: what
  the handler does with a message that is not recognised is \<open>malformed_message_stops\<close>.

  \<^bold>\<open>What is not modelled.\<close> The sleeps and the copying of a socket's options into the kernel have no
  state here. The reading of the time stamp counter is one compiler builtin and a parameter, as
  is the time that the steady clock measures. What a run that \<open>SIGPIPE\<close> ends had written by
  then is a parameter too. In \<open>Programs\<close> the server's thread appears as what its loop
  does over the run and as the join at the end, over a script of histories; \<open>threads_run_loops\<close> shows
  that the interleaved threads give such scripts. The history is locked around each operation,
  so an operation is one atomic step. In \<open>Market_System\<close> a recovery request is served within the
  handler's step, from the history of that moment; \<open>server_finds_published\<close> shows that the answer
  would be the same at any later moment. The descriptor of the recovery client's connection is the
  field \<open>connection\<close> of its own model and not among the kernel's descriptors, and an accepted client
  that the server closes is one of its \<open>closed_clients\<close>: what \<open>Programs\<close> says of descriptors is about
  those of the set-up.
\<close>

section \<open>The whole system\<close>

text \<open>
  C1. In every state that the two programs can reach over a multicast network that loses, reorders
  and repeats datagrams and brings others that do not parse, with a reliable connection to the
  recovery server and a handler whose message limit, if it has one, is not below the number of
  published messages, the handler has not stopped, nothing
  waits in its buffer, and its book is the result of applying exactly the messages of the first
  \<open>a\<close> published packets, in order and once each, where \<open>a + 1\<close> is the sequence number it expects. Its counters say the same: they count
  these packets, their messages, and a latency sample for each that carries a time stamp. The
  packets are those that the recovery history holds.
\<close>

theorem handler_follows_publisher:
  assumes "proper sim env client net" and "reachable sim env (init_market client net) m"
  shows "halted m = None \<and> (\<exists>ms ts n a. a \<le> n \<and>
    packet_sequence (publisher_side m) = of_nat (Suc n) \<and>
    stored (om_find (pub_history (publisher_side m))) ms ts n \<and>
    expected_packet_seq (handler_side m) = of_nat (Suc a) \<and>
    buffered_packets (handler_side m) = [] \<and>
    order_book (handler_side m) = apply_messages (concat (map ms [1..<Suc a])) empty_book \<and>
    received_messages (handler_side m) = of_nat (length (concat (map ms [1..<Suc a]))) \<and>
    processed_packets (handler_side m) = of_nat a \<and>
    samples (packet_latency_cycles (handler_side m)) =
      of_nat (length (filter (\<lambda>k. ts k \<noteq> 0) [1..<Suc a])))"
proof -
  obtain ms ts n a where inv: "in_step sim ms ts n a m"
    using reachable_in_step [OF assms] by blast
  have "a \<le> n"
    using inv published_numbers_range [of sim n] by (auto simp: in_step_def)
  with inv show ?thesis
    unfolding in_step_def pub_inv_unfold synced_def applied_def stream_messages_def stamped_def by blast
qed

theorem handler_follows_publisher_witness:
  "halted demo_received = None \<and>
   buffered_packets (handler_side demo_received) = []"
  using handler_follows_publisher [OF demo_proper demo_received_reachable] by blast

text \<open>
  C2. Once the handler has handled a wakeup that brings the last published packet, in whichever of
  its events, whatever else was lost, its live orders are the generator's: the missing packets
  have been recovered.
\<close>

theorem delivery_catches_up:
  assumes "proper sim env client net" and "reachable sim env (init_market client net) m"
    and "0 < unat (emitted_messages (publisher_side m))"
    and "\<not> skips sim (unat (packet_sequence (publisher_side m)) - 1)"
    and "arrives m events"
    and "last (wire (publisher_side m)) \<in> set (wakeup_datagrams (Ready events))"
  shows "abs_book (order_book (handler_side (receive_step env events m)))
      = gen_book (pub_generator (publisher_side m))"
proof -
  obtain ms ts n a where inv: "in_step sim ms ts n a m"
    using reachable_in_step [OF assms(1,2)] by blast
  then have pub: "pub_inv sim ms ts n (publisher_side m)" by (simp add: in_step_def)
  have sent: "list_all (sent_or_malformed m) (wakeup_datagrams (Ready events))"
    and flat: "event_loop env events (handler_side m)
      = receive_all env (wakeup_datagrams (Ready events)) (handler_side m)"
    using assms(5) by (simp_all add: arrives_def event_loop_flat)
  obtain s where "event_loop env events (handler_side m) = (None, s)" "synced ms ts n s"
    using caught_up [OF assms(1) inv assms(3,4) sent assms(6)] flat by auto
  then have "synced ms ts n (handler_side (receive_step env events m))"
    by (simp add: receive_step_def)
  with pub show ?thesis by (rule synced_up_to_date)
qed

theorem delivery_catches_up_witness:
  "abs_book (order_book (handler_side (receive_step demo_feed
      [Event False True [Datagram (last (wire (publisher_side demo_published)))]] demo_published)))
    = gen_book (pub_generator (publisher_side demo_published))"
  by (rule delivery_catches_up [OF demo_proper demo_published_reachable(1)])
    (simp_all add: demo_published_reachable demo_wire demo_skips arrives_def healthy_event_def
      event_datagrams_def sent_or_malformed_def)

text \<open>
  C3. With fewer than \<open>2 ^ 32 / 250\<close> messages, in every reachable state the handler's price levels
  are the exact sums of the resting quantities, its best bid and offer are those of its live
  orders, and its book is not crossed.
\<close>

theorem handler_bbo_exact:
  assumes "proper sim env client net" and "reachable sim env (init_market client net) m"
    and "250 * unat (so_messages (sim_opts sim)) < 2 ^ 32"
  shows "book_exact (order_book (handler_side m)) \<and>
    best_level Buy (order_book (handler_side m)) (best_bid (bbo (order_book (handler_side m)))) \<and>
    best_level Sell (order_book (handler_side m)) (best_ask (bbo (order_book (handler_side m)))) \<and>
    (\<forall>bid ask. best_bid (bbo (order_book (handler_side m))) = Some bid \<and>
       best_ask (bbo (order_book (handler_side m))) = Some ask \<longrightarrow> level_price bid < level_price ask)"
proof -
  obtain ms ts n a where inv: "in_step sim ms ts n a m"
    using reachable_in_step [OF assms(1,2)] by blast
  let ?b = "order_book (handler_side m)"
  have "pub_inv sim ms ts n (publisher_side m)" "synced ms ts a (handler_side m)" "a \<le> n"
    using inv published_numbers_range [of sim n] by (auto simp: in_step_def)
  note book = synced_book [OF this assms(3)]
  have "level_price bid < level_price ask"
    if "best_bid (bbo ?b) = Some bid" "best_ask (bbo ?b) = Some ask" for bid ask
    using banded_bbo [OF book] that by (auto simp: in_band_def word_le_nat_alt word_less_nat_alt)
  with book best_bid_correct best_ask_correct show ?thesis by blast
qed

theorem handler_bbo_exact_witness:
  "best_level Buy (order_book (handler_side demo_received))
     (best_bid (bbo (order_book (handler_side demo_received))))"
proof -
  have "250 * unat (so_messages (sim_opts demo_sim)) < 2 ^ 32"
    by (simp add: demo_sim_def sim_defaults_def)
  from handler_bbo_exact [OF demo_proper demo_received_reachable this] show ?thesis by blast
qed

text \<open>
  C4. A packet that is dropped on purpose is only recovered once a later one is received: as long
  as the last published packet is a dropped one, no reachable state has applied it, and no
  handler that waits for all messages has reached its limit. In particular a run whose last
  packet is dropped is never completed.
\<close>

theorem dropped_tail_stays_lost:
  assumes "proper sim env client net" and "reachable sim env (init_market client net) m"
    and "0 < unat (emitted_messages (publisher_side m))"
    and "skips sim (unat (packet_sequence (publisher_side m)) - 1)"
  shows "expected_packet_seq (handler_side m) < packet_sequence (publisher_side m) \<and>
    \<not> limit_reached env (handler_side m)"
proof -
  obtain ms ts n a where inv: "in_step sim ms ts n a m"
    using reachable_in_step [OF assms(1,2)] by blast
  then have pub: "pub_inv sim ms ts n (publisher_side m)" and sync: "synced ms ts a (handler_side m)"
    by (simp_all add: in_step_def)
  have "a = 0 \<or> a \<in> set (published_numbers sim n)" using inv by (simp add: in_step_def)
  moreover have "k < n" if "k \<in> set (published_numbers sim n)" for k
    using that assms(4) pub_inv_number [OF pub]
    by (cases "k = n") (simp_all add: published_numbers_def)
  ultimately have "a < n" using published_nonempty [OF pub assms(3)] by blast
  moreover have "sound_stream ms n" using pub by (simp add: pub_inv_unfold)
  note sound_stream_less [OF this, of "Suc a" "Suc n"]
  moreover have "expected_packet_seq (handler_side m) = of_nat (Suc a)"
    "packet_sequence (publisher_side m) = of_nat (Suc n)"
    using sync pub by (simp_all only: synced_def applied_def pub_inv_unfold)
  moreover have "\<not> limit_reached env (handler_side m)"
    using limit_open [OF pub_inv_roomy [OF pub assms(1)] \<open>a < n\<close>] sync by (auto simp: synced_def)
  ultimately show ?thesis by (simp del: of_nat_Suc)
qed

theorem dropped_tail_stays_lost_witness:
  "expected_packet_seq (handler_side demo_two) < packet_sequence (publisher_side demo_two) \<and>
   \<not> limit_reached demo_feed (handler_side demo_two)"
  by (rule dropped_tail_stays_lost [OF demo_proper demo_two_reachable(1)])
    (simp_all add: demo_two_reachable demo_skips)

text \<open>
  C5. A handler that is started for as many messages as the simulator publishes ends: whatever
  was lost, repeated or reordered before, as soon as a wakeup brings the last packet, after any
  number of other wakeups and interruptions, its wait loop returns, it has counted all messages,
  and its live orders are the generator's.
\<close>

theorem limited_run_completes:
  assumes "proper sim env client net" and "opt_messages env = so_messages (sim_opts sim)"
    and "so_messages (sim_opts sim) \<noteq> 0" and "reachable sim env (init_market client net) m"
    and "emitted_messages (publisher_side m) = so_messages (sim_opts sim)"
    and "\<not> skips sim (unat (packet_sequence (publisher_side m)) - 1)"
    and "list_all healthy_wakeup answers"
    and "list_all (sent_or_malformed m) (script_datagrams answers)"
    and "last (wire (publisher_side m)) \<in> set (script_datagrams answers)"
  shows "\<exists>s. main_loop env answers (handler_side m) = (None, s) \<and>
    received_messages s = so_messages (sim_opts sim) \<and>
    abs_book (order_book s) = gen_book (pub_generator (publisher_side m))"
proof -
  obtain ms ts n a where inv: "in_step sim ms ts n a m"
    using reachable_in_step [OF assms(1,4)] by blast
  then have pub: "pub_inv sim ms ts n (publisher_side m)" by (simp add: in_step_def)
  obtain s where "receive_all env (script_datagrams answers) (handler_side m) = (None, s)"
    and "synced ms ts n s"
    using caught_up [OF assms(1) inv _ assms(6,8,9)] assms(3,5)
    by (auto simp: unat_gt_0 word_neq_0_conv)
  with synced_final [OF assms(1) pub assms(2,3,5)] show ?thesis
    by (auto simp: main_loop_flat [OF assms(7)] wait_on_def)
qed

theorem limited_run_completes_witness:
  "\<exists>s. main_loop demo_limited [Wait_error EINTR, Ready [Event False True
      [Datagram (last (wire (publisher_side demo_published)))]]] (handler_side demo_published) = (None, s) \<and>
    received_messages s = 12"
proof -
  have twelve: "so_messages (sim_opts demo_sim) = 12" by (simp add: demo_sim_def sim_defaults_def)
  have "emitted_messages (publisher_side demo_published) = so_messages (sim_opts demo_sim)"
    using demo_published_reachable(2) by (simp add: twelve word_eq_iff_unat)
  moreover have "opt_messages demo_limited = so_messages (sim_opts demo_sim)"
    by (simp add: twelve demo_limited_def)
  ultimately show ?thesis
    using limited_run_completes [OF demo_limited_proper _ _ demo_published_run(1) [OF demo_limited_proper],
        of "[Wait_error EINTR, Ready [Event False True
          [Datagram (last (wire (publisher_side demo_published)))]]]"]
    by (auto simp: twelve demo_published_reachable demo_wire demo_skips healthy_event_def
        event_datagrams_def sent_or_malformed_def)
qed

text \<open>
  C7. The model of the simulator as one function describes its two threads. Whenever the interleaved
  threads have come to their end, there is a script of clients, whose loops find versions of the
  history that the publisher has had, from older to newer, with which \<open>exchange_sim_main\<close> has the
  same outcome: the lines of the publisher, the errors of the server, the exception of the main
  thread if any, and both sockets closed.
\<close>

theorem program_runs_process:
  assumes "process_reachable (sim_env_of w options) (sim_strerror w) P" and "main_thread P = Done e"
    and "sim_parse_args argv = Inr (Some options)"
    and "start_exchange (sim_strerror w) (so_group options) (so_port options) (so_recovery_port options)
      (sim_kernel w) = (Inr (sender, listen_fd), k)"
  shows "\<exists>answers is. sorted is \<and> (\<forall>i \<in> set is. i < length (versions P)) \<and>
    concat (map snd (accepted answers)) = map ((!) (versions P)) is \<and>
    exchange_sim_main (w\<lparr>world_clients := answers\<rparr>) argv =
      leave ''exchange_sim'' (sim_strerror w) (map_option Throws e)
        (sim_start_line options # sim_cout (publisher_of P)) (sim_last_lines options (publisher_of P))
        (server_cerr (server_side P)) (sys_close (fst sender) (sys_close listen_fd k))"
proof -
  note loops = threads_run_loops [OF assms(1)]
  obtain answers where answers: "drawn_from (versions P) (seen answers)"
    "server_run (sim_strerror w) answers init_server = (None, server_side P)"
    using loops(2,3) assms(2) by blast
  have "publish_loop (sim_env_of w options) init_publisher = Some (map_option Throws e, publisher_of P)"
    using loops(1) assms(2) by blast
  then have "exchange_sim_main (w\<lparr>world_clients := answers\<rparr>) argv =
      leave ''exchange_sim'' (sim_strerror w) (map_option Throws e)
        (sim_start_line options # sim_cout (publisher_of P)) (sim_last_lines options (publisher_of P))
        (server_cerr (server_side P)) (sys_close (fst sender) (sys_close listen_fd k))"
    using assms(3,4) answers(2)
    by (simp add: exchange_sim_main_def destroy_recovery_server_def sim_env_of_def Let_def)
  with answers(1) show ?thesis by (auto simp: drawn_from_def seen_def)
qed

theorem program_runs_process_witness:
  "\<exists>answers. exit_status (exchange_sim_main (demo_sim_world\<lparr>world_clients := answers\<rparr>)
     (sim_words (sim_opts idle_sim))) = Exits 0"
proof -
  have env: "sim_env_of demo_sim_world (sim_opts idle_sim) = idle_sim"
    by (simp add: sim_env_of_def demo_sim_world_def idle_sim_def)
  have parsed: "sim_parse_args (sim_words (sim_opts idle_sim)) = Inr (Some (sim_opts idle_sim))"
    by (simp add: sim_words_parse check_sim_options_def kMaxMessagesPerPacket_eq)
      (simp add: idle_sim_def demo_sim_def sim_defaults_def)
  have "inet_pton (so_group (sim_opts idle_sim)) \<noteq> None" "\<forall>i. verdict (sim_kernel demo_sim_world) i = None"
    using demo_group
    by (simp_all add: idle_sim_def demo_sim_def sim_defaults_def demo_sim_world_def quiet_kernel_def)
  from exchange_opens_quietly [OF this(2,1)] obtain sender listen_fd k where
    opened: "start_exchange (sim_strerror demo_sim_world) (so_group (sim_opts idle_sim)) (so_port (sim_opts idle_sim))
      (so_recovery_port (sim_opts idle_sim)) (sim_kernel demo_sim_world) = (Inr (sender, listen_fd), k)"
    by blast
  have reach: "process_reachable (sim_env_of demo_sim_world (sim_opts idle_sim))
      (sim_strerror demo_sim_world) done_process"
    unfolding env by (rule done_process_reachable)
  have "main_thread done_process = Done None" by (simp add: done_process_def)
  from program_runs_process [OF reach this parsed opened] show ?thesis
    by (elim exE conjE) (drule arg_cong [where f = exit_status], simp add: leave_simps, blast)
qed

end
